(* ===== verification/Go_Prelude.thy ===== *)
theory Go_Prelude
  imports Main "HOL-Library.AList" "HOL-Library.Word"
begin

text \<open>
  The library the component theories share.

  \<^item> \<open>gomap\<close>: a Go map that the code ranges over, as an association list. The order of the
    list is the order in which \<open>range\<close> visits the entries. Go leaves that order open, so the
    theorems quantify over every list. A map the code only indexes is a HOL map.
  \<^item> \<open>go\<close>: a computation that may panic or fail, as a sum with the failure on the left.
  \<^item> \<open>foldM\<close>: a loop over a slice whose body may not return.
  \<^item> facts about list updates, sums over a store and association lists.
\<close>

named_theorems go_defs \<open>definitions unfolded together when a program step is evaluated\<close>
named_theorems frame \<open>fields of the state that an operation leaves alone\<close>

subsection \<open>Types of the Go runtime\<close>

type_synonym ('k, 'v) gomap = "('k \<times> 'v) list"
type_synonym bytes = string
type_synonym u32 = "32 word"
type_synonym u64 = "64 word"

datatype go_err =
    NilDeref
  | Panic string
  | Err string

type_synonym 'a go = "go_err + 'a"

definition bindE :: "'a go \<Rightarrow> ('a \<Rightarrow> 'b go) \<Rightarrow> 'b go" where
  "bindE m f = (case m of Inl e \<Rightarrow> Inl e | Inr x \<Rightarrow> f x)"

lemma bindE_simps [simp]:
  "bindE (Inl e) f = Inl e"
  "bindE (Inr x) f = f x"
  by (simp_all add: bindE_def)

lemma bindE_cong [fundef_cong]:
  "m = m' \<Longrightarrow> (\<And>x. m' = Inr x \<Longrightarrow> f x = g x) \<Longrightarrow> bindE m f = bindE m' g"
  by (simp add: bindE_def split: sum.split)

lemma bindE_eq_Inr [simp]:
  "bindE m f = Inr y \<longleftrightarrow> (\<exists>x. m = Inr x \<and> f x = Inr y)"
  by (cases m) auto

text \<open>The value of a byte slice that may be nil, as \<open>string(v)\<close> reads it.\<close>

definition str :: "bytes option \<Rightarrow> string" where
  "str v = (case v of None \<Rightarrow> [] | Some b \<Rightarrow> b)"

lemma str_simps [simp]: "str None = []" "str (Some b) = b"
  by (simp_all add: str_def)

text \<open>An indexing expression on a map of strings yields the empty string for an absent key.\<close>

definition index_str :: "(string \<rightharpoonup> string) \<Rightarrow> string \<Rightarrow> string" where
  "index_str m k = (case m k of None \<Rightarrow> [] | Some v \<Rightarrow> v)"

definition index_int :: "(string, int) gomap \<Rightarrow> string \<Rightarrow> int" where
  "index_int m k = (case map_of m k of None \<Rightarrow> 0 | Some v \<Rightarrow> v)"

subsection \<open>Association lists as Go maps\<close>

abbreviation put :: "'k \<Rightarrow> 'v \<Rightarrow> ('k, 'v) gomap \<Rightarrow> ('k, 'v) gomap" where
  "put \<equiv> AList.update"

abbreviation del :: "'k \<Rightarrow> ('k, 'v) gomap \<Rightarrow> ('k, 'v) gomap" where
  "del \<equiv> AList.delete"

lemma map_of_put [simp]: "map_of (put k v m) = (map_of m)(k \<mapsto> v)"
  by (rule update_conv')

lemma map_of_del [simp]: "map_of (del k m) = (map_of m)(k := None)"
  by (rule delete_conv')

lemma keys_put: "fst ` set (put k v m) = insert k (fst ` set m)"
  by (simp add: dom_update dom_map_of_conv_image_fst [symmetric])

lemma keys_del: "fst ` set (del k m) = fst ` set m - {k}"
  by (simp add: dom_map_of_conv_image_fst [symmetric])

lemma del_subset: "set (del k m) \<subseteq> set m"
  by (auto simp: AList.delete_eq)

subsection \<open>Loops whose body may not return\<close>

fun foldM :: "('a \<Rightarrow> 's \<Rightarrow> 's option) \<Rightarrow> 'a list \<Rightarrow> 's \<Rightarrow> 's option" where
  "foldM f [] s = Some s"
| "foldM f (x # xs) s = (case f x s of None \<Rightarrow> None | Some s' \<Rightarrow> foldM f xs s')"

text \<open>
  The two rules for such a loop: a reflexive and transitive relation that every iteration keeps
  relates the first state to the last one; and a loop every iteration of which returns, returns.
\<close>

lemma foldM_rel:
  assumes "foldM f xs s = Some s'"
    and "R s s"
    and "\<And>x t t'. x \<in> set xs \<Longrightarrow> R s t \<Longrightarrow> f x t = Some t' \<Longrightarrow> R s t'"
  shows "R s s'"
proof -
  have "R s t \<Longrightarrow> foldM f ys t = Some s' \<Longrightarrow> set ys \<subseteq> set xs \<Longrightarrow> R s s'" for t ys
  proof (induction ys arbitrary: t)
    case Nil
    then show ?case by simp
  next
    case (Cons y ys)
    then obtain u where u: "f y t = Some u" "foldM f ys u = Some s'"
      by (auto split: option.splits)
    have "R s u" using assms(3) Cons.prems u(1) by auto
    then show ?case using Cons u(2) by auto
  qed
  then show ?thesis using assms(1,2) by blast
qed

lemma foldM_total:
  assumes "I s"
    and "\<And>x t. x \<in> set xs \<Longrightarrow> I t \<Longrightarrow> \<exists>t'. f x t = Some t' \<and> I t'"
  shows "\<exists>s'. foldM f xs s = Some s' \<and> I s'"
  using assms
proof (induction xs arbitrary: s)
  case Nil
  then show ?case by simp
next
  case (Cons x xs)
  then obtain t where "f x s = Some t" "I t" by (meson list.set_intros(1))
  moreover have "\<exists>s'. foldM f xs t = Some s' \<and> I s'"
    using Cons.IH [OF \<open>I t\<close>] Cons.prems(2) by simp
  ultimately show ?case by simp
qed

text \<open>A loop over a slice whose body may panic.\<close>

fun foldE :: "('a \<Rightarrow> 's \<Rightarrow> 's go) \<Rightarrow> 'a list \<Rightarrow> 's \<Rightarrow> 's go" where
  "foldE f [] s = Inr s"
| "foldE f (x # xs) s = bindE (f x s) (foldE f xs)"

text \<open>The two rules for such a loop: an invariant that every iteration keeps, and totality.\<close>

lemma foldE_inv:
  assumes "foldE f xs s = Inr s'" and "I s"
    and "\<And>x t t'. x \<in> set xs \<Longrightarrow> I t \<Longrightarrow> f x t = Inr t' \<Longrightarrow> I t'"
  shows "I s'"
  using assms
proof (induction xs arbitrary: s)
  case (Cons x xs)
  then obtain t where t: "f x s = Inr t" "foldE f xs t = Inr s'" by auto
  have "I t" using Cons.prems(3) [OF _ Cons.prems(2) t(1)] by simp
  moreover have "I w" if "y \<in> set xs" "I v" "f y v = Inr w" for y v w
    using that Cons.prems(3) [of y v w] by simp
  ultimately show ?case using Cons.IH [OF t(2)] by blast
qed simp

lemma foldE_total:
  assumes "I s" and "\<And>x t. x \<in> set xs \<Longrightarrow> I t \<Longrightarrow> \<exists>t'. f x t = Inr t' \<and> I t'"
  shows "\<exists>s'. foldE f xs s = Inr s' \<and> I s'"
  using assms
proof (induction xs arbitrary: s)
  case (Cons x xs)
  then obtain t where "f x s = Inr t" "I t" by (meson list.set_intros(1))
  then show ?case using Cons.IH [of t] Cons.prems(2) by simp
qed simp

lemma foldE_append: "foldE f (xs @ ys) s = bindE (foldE f xs s) (foldE f ys)"
proof (induction xs arbitrary: s)
  case (Cons x xs)
  then show ?case by (cases "f x s") simp_all
qed simp

text \<open>Reading and writing an element of a slice: an index out of range panics.\<close>

definition load_at :: "'a list \<Rightarrow> nat \<Rightarrow> 'a go" where
  "load_at xs i = (if i < length xs then Inr (xs ! i) else Inl (Panic ''index out of range''))"

definition store_at :: "nat \<Rightarrow> 'a \<Rightarrow> 'a list \<Rightarrow> 'a list go" where
  "store_at i v xs = (if i < length xs then Inr (xs[i := v]) else Inl (Panic ''index out of range''))"

text \<open>A pointer that may be nil is read.\<close>

definition deref :: "'a option \<Rightarrow> 'a go" where
  "deref p = (case p of None \<Rightarrow> Inl NilDeref | Some x \<Rightarrow> Inr x)"

lemma deref_simps [simp]: "deref None = Inl NilDeref" "deref (Some x) = Inr x"
  by (simp_all add: deref_def)

lemma deref_eq_Inr [simp]: "deref p = Inr x \<longleftrightarrow> p = Some x"
  by (cases p) auto

text \<open>A call whose error makes the caller panic with the message \<open>m\<close>.\<close>

definition or_panic :: "string \<Rightarrow> 'a go \<Rightarrow> 'a go" where
  "or_panic m x = (case x of Inl (Err _) \<Rightarrow> Inl (Panic m) | _ \<Rightarrow> x)"

lemma or_panic_eq_Inr [simp]: "or_panic m x = Inr y \<longleftrightarrow> x = Inr y"
  by (auto simp: or_panic_def split: sum.splits go_err.splits)

definition of_option :: "string \<Rightarrow> 'a option \<Rightarrow> 'a go" where
  "of_option m x = (case x of None \<Rightarrow> Inl (Err m) | Some y \<Rightarrow> Inr y)"

lemma of_option_simps [simp]: "of_option m None = Inl (Err m)" "of_option m (Some y) = Inr y"
  by (simp_all add: of_option_def)

lemma of_option_eq_Inr [simp]: "of_option m x = Inr y \<longleftrightarrow> x = Some y"
  by (cases x) auto

text \<open>A loop that converts every element of a slice and stops at the first error.\<close>

fun mapM :: "('a \<Rightarrow> 'b option) \<Rightarrow> 'a list \<Rightarrow> 'b list option" where
  "mapM f [] = Some []"
| "mapM f (x # xs) =
     (case f x of
        None \<Rightarrow> None
      | Some y \<Rightarrow> (case mapM f xs of None \<Rightarrow> None | Some ys \<Rightarrow> Some (y # ys)))"

lemma mapM_inverse:
  assumes "mapM f xs = Some ys" and "\<And>x y. x \<in> set xs \<Longrightarrow> f x = Some y \<Longrightarrow> h y = Some x"
  shows "mapM h ys = Some xs"
  using assms
proof (induction xs arbitrary: ys)
  case (Cons x xs)
  then obtain y zs where "f x = Some y" "mapM f xs = Some zs" "ys = y # zs"
    by (auto split: option.splits)
  moreover have "h y = Some x" using Cons.prems(2) \<open>f x = Some y\<close> by simp
  moreover have "mapM h zs = Some xs" using Cons.IH Cons.prems(2) \<open>mapM f xs = Some zs\<close> by simp
  ultimately show ?case by simp
qed simp

lemma mapM_length: "mapM f xs = Some ys \<Longrightarrow> length ys = length xs"
  by (induction xs arbitrary: ys) (auto split: option.splits)

text \<open>A component driven by a list of messages, each of which may produce outputs or fail.\<close>

fun run_steps :: "('m \<Rightarrow> 's \<Rightarrow> ('o list \<times> 's) go) \<Rightarrow> 'm list \<Rightarrow> 's \<Rightarrow> ('o list \<times> 's) go" where
  "run_steps step [] s = Inr ([], s)"
| "run_steps step (m # ms) s =
     bindE (step m s) (\<lambda>(os, s1). bindE (run_steps step ms s1) (\<lambda>(os', s2). Inr (os @ os', s2)))"

subsection \<open>Updates of a store\<close>

lemma nth_update_field:
  assumes "F y = F (xs ! i)"
  shows "F (xs[i := y] ! p) = F (xs ! p)"
  using assms by (cases "i < length xs") (auto simp: nth_list_update not_less list_update_beyond)

lemma in_set_update: "x \<in> set (xs[i := y]) \<Longrightarrow> x = y \<or> x \<in> set xs"
  using set_update_subset_insert [of xs i y] by auto

lemma sum_list_update_nat:
  fixes f :: "'a \<Rightarrow> nat"
  assumes "i < length xs"
  shows "sum_list (map f (xs[i := y])) + f (xs ! i) = sum_list (map f xs) + f y"
  using assms
proof (induction xs arbitrary: i)
  case Nil
  then show ?case by simp
next
  case (Cons x xs)
  then show ?case by (cases i) auto
qed

end
