(* ===== verification/Rwset.thy ===== *)
theory Rwset
  imports Go_Prelude
begin

text \<open>
  The read-write set of a transaction: the messages of \<open>kv_rwset.pb.go\<close> and their wrappers
  \<open>TxRwSet\<close>, \<open>NsRwSet\<close> and \<open>CollHashedRwSet\<close> of \<open>rwset_proto_util.go\<close>, the transaction height of
  \<open>version.go\<close>, and the path by which the orderer gets the simulation results out of an envelope
  (\<open>proputils.go\<close>, \<open>txutils.go\<close>). Decoding a protobuf message is third-party code: it is a field
  of the record \<open>codec\<close>, which the functions below take as an argument.
\<close>

subsection \<open>Messages\<close>

record Version =
  vBlockNum :: u64
  vTxNum :: u64

record KVRead =
  rKey :: string
  rVersion :: "Version option"
  rValue :: "bytes option"
  IsRead :: bool
  rTxid :: string

record KVWrite =
  wKey :: string
  IsDelete :: bool
  wValue :: "bytes option"
  IsWrite :: bool
  wTxid :: string

record KVMetadataEntry =
  eName :: string
  eValue :: bytes

record KVMetadataWrite =
  mKey :: string
  mEntries :: "KVMetadataEntry list"

record KVReadHash =
  rhKeyHash :: bytes
  rhVersion :: "Version option"

record KVWriteHash =
  whKeyHash :: bytes
  whIsDelete :: bool
  whValueHash :: "bytes option"

record KVMetadataWriteHash =
  mhKeyHash :: bytes
  mhEntries :: "KVMetadataEntry list"

record QueryReadsMerkleSummary =
  MaxDegree :: u32
  MaxLevel :: u32
  MaxLevelHashes :: "bytes list"

datatype ReadsInfo =
    RawReads "KVRead list"
  | ReadsMerkleHashes QueryReadsMerkleSummary

record RangeQueryInfo =
  StartKey :: string
  EndKey :: string
  ItrExhausted :: bool
  qReadsInfo :: "ReadsInfo option"

record KVRWSet =
  Reads :: "KVRead list"
  RangeQueriesInfo :: "RangeQueryInfo list"
  Writes :: "KVWrite list"
  MetadataWrites :: "KVMetadataWrite list"

record HashedRWSet =
  HashedReads :: "KVReadHash list"
  HashedWrites :: "KVWriteHash list"
  hMetadataWrites :: "KVMetadataWriteHash list"

record CollHashedRwSet =
  CollectionName :: string
  HashedRwSet :: HashedRWSet
  PvtRwSetHash :: bytes

record NsRwSet =
  NameSpace :: string
  KvRwSet :: KVRWSet
  CollHashedRwSets :: "CollHashedRwSet list"

record TxRwSet =
  NsRwSets :: "NsRwSet list"

text \<open>The private counterparts.\<close>

record CollPvtRwSet =
  pvCollectionName :: string
  pvKvRwSet :: KVRWSet

record NsPvtRwSet =
  pvNameSpace :: string
  CollPvtRwSets :: "CollPvtRwSet list"

record TxPvtRwSet =
  NsPvtRwSets :: "NsPvtRwSet list"

text \<open>The messages of \<open>rwset.pb.go\<close>, in which the sets of a namespace and of a collection are bytes.\<close>

record CollectionHashedReadWriteSet =
  chCollectionName :: string
  chHashedRwset :: bytes
  chPvtRwsetHash :: bytes

record NsReadWriteSet =
  nsNamespace :: string
  nsRwset :: bytes
  CollectionHashedRwset :: "CollectionHashedReadWriteSet list"

record TxReadWriteSet =
  DataModel :: int
  NsRwset :: "NsReadWriteSet list"

record CollectionPvtReadWriteSet =
  cpCollectionName :: string
  cpRwset :: bytes

record NsPvtReadWriteSet =
  npNamespace :: string
  CollectionPvtRwset :: "CollectionPvtReadWriteSet list"

record TxPvtReadWriteSet =
  pvDataModel :: int
  NsPvtRwset :: "NsPvtReadWriteSet list"

record Envelope =
  Payload :: bytes
  Signature :: bytes

record ChannelHeader =
  chType :: int
  chTxId :: string

text \<open>The header and the data of \<open>common.Payload\<close>: a nil header and a nil channel header are None.\<close>

record EnvPayload =
  plHeader :: "bytes option option"
  plData :: bytes

subsection \<open>From an envelope to the results of its first action\<close>

record codec =
  unmarshalPayload :: "bytes \<Rightarrow> EnvPayload option"
  unmarshalTransaction :: "bytes \<Rightarrow> bytes list option"
  unmarshalChaincodeActionPayload :: "bytes \<Rightarrow> bytes option option option"
  unmarshalProposalResponsePayload :: "bytes \<Rightarrow> bytes option option"
  unmarshalChaincodeAction :: "bytes \<Rightarrow> bytes option"
  unmarshalChannelHeader :: "bytes \<Rightarrow> ChannelHeader option"
  unmarshalTxReadWriteSet :: "bytes \<Rightarrow> TxReadWriteSet option"
  unmarshalTxPvtReadWriteSet :: "bytes \<Rightarrow> TxPvtReadWriteSet option"
  unmarshalKVRWSet :: "bytes \<Rightarrow> KVRWSet option"
  unmarshalHashedRWSet :: "bytes \<Rightarrow> HashedRWSet option"
  marshalTxReadWriteSet :: "TxReadWriteSet \<Rightarrow> bytes option"
  marshalTxPvtReadWriteSet :: "TxPvtReadWriteSet \<Rightarrow> bytes option"
  marshalKVRWSet :: "KVRWSet \<Rightarrow> bytes option"
  marshalHashedRWSet :: "HashedRWSet \<Rightarrow> bytes option"

definition GetPayloads :: "codec \<Rightarrow> bytes \<Rightarrow> bytes go" where
  "GetPayloads cd txAction =
     (case unmarshalChaincodeActionPayload cd txAction of
        None \<Rightarrow> Inl (Err ''error unmarshaling ChaincodeActionPayload'')
      | Some None \<Rightarrow> Inl (Err ''no payload in ChaincodeActionPayload'')
      | Some (Some None) \<Rightarrow> Inl (Err ''no payload in ChaincodeActionPayload'')
      | Some (Some (Some prp)) \<Rightarrow>
         (case unmarshalProposalResponsePayload cd prp of
            None \<Rightarrow> Inl (Err ''error unmarshaling ProposalResponsePayload'')
          | Some None \<Rightarrow> Inl (Err ''response payload is missing extension'')
          | Some (Some ext) \<Rightarrow>
             (case unmarshalChaincodeAction cd ext of
                None \<Rightarrow> Inl (Err ''error unmarshaling ChaincodeAction'')
              | Some results \<Rightarrow> Inr results)))"

definition GetActionAndTxidFromEnvelopeMsg :: "codec \<Rightarrow> Envelope \<Rightarrow> (ChannelHeader \<times> bytes) go" where
  "GetActionAndTxidFromEnvelopeMsg cd env =
     (case unmarshalPayload cd (Payload env) of
        None \<Rightarrow> Inl (Err ''GetPayload'')
      | Some payl \<Rightarrow>
         (case unmarshalTransaction cd (plData payl) of
            None \<Rightarrow> Inl (Err ''GetTransaction'')
          | Some [] \<Rightarrow> Inl (Err ''len(tx.Actions) == 0'')
          | Some (act # _) \<Rightarrow>
             (case GetPayloads cd act of
                Inl _ \<Rightarrow> Inl (Err ''GetPayloads'')
              | Inr respPayload \<Rightarrow>
                 (case plHeader payl of
                    None \<Rightarrow> Inl (Err ''payl.Header == nil'')
                  | Some None \<Rightarrow> Inl (Err ''payl.Header.ChannelHeader == nil'')
                  | Some (Some chb) \<Rightarrow>
                     (case unmarshalChannelHeader cd chb of
                        None \<Rightarrow> Inl (Err ''proto.Unmarshal(payl.Header.ChannelHeader, chdr)'')
                      | Some chdr \<Rightarrow> Inr (chdr, respPayload))))))"

subsection \<open>Read-write sets to and from bytes\<close>

text \<open>An error of the encoder or the decoder, or of any element of a list, is None.\<close>

abbreviation (input) KV_model :: int where "KV_model \<equiv> 0"

definition coll_toProtoMsg :: "codec \<Rightarrow> CollHashedRwSet \<Rightarrow> CollectionHashedReadWriteSet option" where
  "coll_toProtoMsg cd c =
     (case marshalHashedRWSet cd (HashedRwSet c) of
        None \<Rightarrow> None
      | Some b \<Rightarrow> Some \<lparr>chCollectionName = CollectionName c, chHashedRwset = b,
                        chPvtRwsetHash = PvtRwSetHash c\<rparr>)"

definition collHashedRwSetFromProtoMsg ::
  "codec \<Rightarrow> CollectionHashedReadWriteSet \<Rightarrow> CollHashedRwSet option" where
  "collHashedRwSetFromProtoMsg cd m =
     (case unmarshalHashedRWSet cd (chHashedRwset m) of
        None \<Rightarrow> None
      | Some h \<Rightarrow> Some \<lparr>CollectionName = chCollectionName m, HashedRwSet = h,
                        PvtRwSetHash = chPvtRwsetHash m\<rparr>)"

definition ns_toProtoMsg :: "codec \<Rightarrow> NsRwSet \<Rightarrow> NsReadWriteSet option" where
  "ns_toProtoMsg cd n =
     (case marshalKVRWSet cd (KvRwSet n) of
        None \<Rightarrow> None
      | Some b \<Rightarrow>
         (case mapM (coll_toProtoMsg cd) (CollHashedRwSets n) of
            None \<Rightarrow> None
          | Some cs \<Rightarrow> Some \<lparr>nsNamespace = NameSpace n, nsRwset = b, CollectionHashedRwset = cs\<rparr>))"

definition nsRwSetFromProtoMsg :: "codec \<Rightarrow> NsReadWriteSet \<Rightarrow> NsRwSet option" where
  "nsRwSetFromProtoMsg cd m =
     (case unmarshalKVRWSet cd (nsRwset m) of
        None \<Rightarrow> None
      | Some kv \<Rightarrow>
         (case mapM (collHashedRwSetFromProtoMsg cd) (CollectionHashedRwset m) of
            None \<Rightarrow> None
          | Some cs \<Rightarrow> Some \<lparr>NameSpace = nsNamespace m, KvRwSet = kv, CollHashedRwSets = cs\<rparr>))"

definition tx_toProtoMsg :: "codec \<Rightarrow> TxRwSet \<Rightarrow> TxReadWriteSet option" where
  "tx_toProtoMsg cd t =
     (case mapM (ns_toProtoMsg cd) (NsRwSets t) of
        None \<Rightarrow> None
      | Some ns \<Rightarrow> Some \<lparr>DataModel = KV_model, NsRwset = ns\<rparr>)"

definition TxRwSetFromProtoMsg :: "codec \<Rightarrow> TxReadWriteSet \<Rightarrow> TxRwSet option" where
  "TxRwSetFromProtoMsg cd m =
     (case mapM (nsRwSetFromProtoMsg cd) (NsRwset m) of
        None \<Rightarrow> None
      | Some ns \<Rightarrow> Some \<lparr>NsRwSets = ns\<rparr>)"

definition ToProtoBytes :: "codec \<Rightarrow> TxRwSet \<Rightarrow> bytes option" where
  "ToProtoBytes cd t =
     (case tx_toProtoMsg cd t of None \<Rightarrow> None | Some m \<Rightarrow> marshalTxReadWriteSet cd m)"

definition FromProtoBytes :: "codec \<Rightarrow> bytes \<Rightarrow> TxRwSet option" where
  "FromProtoBytes cd b =
     (case unmarshalTxReadWriteSet cd b of None \<Rightarrow> None | Some m \<Rightarrow> TxRwSetFromProtoMsg cd m)"

definition collPvt_toProtoMsg :: "codec \<Rightarrow> CollPvtRwSet \<Rightarrow> CollectionPvtReadWriteSet option" where
  "collPvt_toProtoMsg cd c =
     (case marshalKVRWSet cd (pvKvRwSet c) of
        None \<Rightarrow> None
      | Some b \<Rightarrow> Some \<lparr>cpCollectionName = pvCollectionName c, cpRwset = b\<rparr>)"

definition collPvtRwSetFromProtoMsg :: "codec \<Rightarrow> CollectionPvtReadWriteSet \<Rightarrow> CollPvtRwSet option" where
  "collPvtRwSetFromProtoMsg cd m =
     (case unmarshalKVRWSet cd (cpRwset m) of
        None \<Rightarrow> None
      | Some kv \<Rightarrow> Some \<lparr>pvCollectionName = cpCollectionName m, pvKvRwSet = kv\<rparr>)"

definition nsPvt_toProtoMsg :: "codec \<Rightarrow> NsPvtRwSet \<Rightarrow> NsPvtReadWriteSet option" where
  "nsPvt_toProtoMsg cd n =
     (case mapM (collPvt_toProtoMsg cd) (CollPvtRwSets n) of
        None \<Rightarrow> None
      | Some cs \<Rightarrow> Some \<lparr>npNamespace = pvNameSpace n, CollectionPvtRwset = cs\<rparr>)"

definition nsPvtRwSetFromProtoMsg :: "codec \<Rightarrow> NsPvtReadWriteSet \<Rightarrow> NsPvtRwSet option" where
  "nsPvtRwSetFromProtoMsg cd m =
     (case mapM (collPvtRwSetFromProtoMsg cd) (CollectionPvtRwset m) of
        None \<Rightarrow> None
      | Some cs \<Rightarrow> Some \<lparr>pvNameSpace = npNamespace m, CollPvtRwSets = cs\<rparr>)"

definition txPvt_toProtoMsg :: "codec \<Rightarrow> TxPvtRwSet \<Rightarrow> TxPvtReadWriteSet option" where
  "txPvt_toProtoMsg cd t =
     (case mapM (nsPvt_toProtoMsg cd) (NsPvtRwSets t) of
        None \<Rightarrow> None
      | Some ns \<Rightarrow> Some \<lparr>pvDataModel = KV_model, NsPvtRwset = ns\<rparr>)"

definition TxPvtRwSetFromProtoMsg :: "codec \<Rightarrow> TxPvtReadWriteSet \<Rightarrow> TxPvtRwSet option" where
  "TxPvtRwSetFromProtoMsg cd m =
     (case mapM (nsPvtRwSetFromProtoMsg cd) (NsPvtRwset m) of
        None \<Rightarrow> None
      | Some ns \<Rightarrow> Some \<lparr>NsPvtRwSets = ns\<rparr>)"

definition pvt_ToProtoBytes :: "codec \<Rightarrow> TxPvtRwSet \<Rightarrow> bytes option" where
  "pvt_ToProtoBytes cd t =
     (case txPvt_toProtoMsg cd t of None \<Rightarrow> None | Some m \<Rightarrow> marshalTxPvtReadWriteSet cd m)"

definition pvt_FromProtoBytes :: "codec \<Rightarrow> bytes \<Rightarrow> TxPvtRwSet option" where
  "pvt_FromProtoBytes cd b =
     (case unmarshalTxPvtReadWriteSet cd b of None \<Rightarrow> None | Some m \<Rightarrow> TxPvtRwSetFromProtoMsg cd m)"

subsection \<open>Lookups\<close>

fun ns_getPvtDataHash :: "CollHashedRwSet list \<Rightarrow> string \<Rightarrow> bytes option" where
  "ns_getPvtDataHash [] coll = None"
| "ns_getPvtDataHash (c # cs) coll =
     (if CollectionName c \<noteq> coll then ns_getPvtDataHash cs coll else Some (PvtRwSetHash c))"

fun GetPvtDataHash :: "NsRwSet list \<Rightarrow> string \<Rightarrow> string \<Rightarrow> bytes option" where
  "GetPvtDataHash [] ns coll = None"
| "GetPvtDataHash (n # nss) ns coll =
     (if NameSpace n \<noteq> ns then GetPvtDataHash nss ns coll
      else ns_getPvtDataHash (CollHashedRwSets n) coll)"

definition NumCollections :: "TxRwSet option \<Rightarrow> nat" where
  "NumCollections t =
     (case t of None \<Rightarrow> 0 | Some t \<Rightarrow> sum_list (map (\<lambda>n. length (CollHashedRwSets n)) (NsRwSets t)))"

subsection \<open>Round trips\<close>

text \<open>
  The law of the third-party encoder that a round trip needs, for the messages it meets: what is
  encoded is decoded to the same message.
\<close>

definition kv_codec_ok :: "codec \<Rightarrow> KVRWSet \<Rightarrow> bool" where
  "kv_codec_ok cd kv \<longleftrightarrow> (\<forall>b. marshalKVRWSet cd kv = Some b \<longrightarrow> unmarshalKVRWSet cd b = Some kv)"

definition coll_codec_ok :: "codec \<Rightarrow> CollHashedRwSet \<Rightarrow> bool" where
  "coll_codec_ok cd c \<longleftrightarrow>
     (\<forall>b. marshalHashedRWSet cd (HashedRwSet c) = Some b \<longrightarrow>
        unmarshalHashedRWSet cd b = Some (HashedRwSet c))"

definition ns_codec_ok :: "codec \<Rightarrow> NsRwSet \<Rightarrow> bool" where
  "ns_codec_ok cd n \<longleftrightarrow> kv_codec_ok cd (KvRwSet n) \<and> list_all (coll_codec_ok cd) (CollHashedRwSets n)"

definition tx_codec_ok :: "codec \<Rightarrow> TxRwSet \<Rightarrow> bool" where
  "tx_codec_ok cd t \<longleftrightarrow>
     list_all (ns_codec_ok cd) (NsRwSets t) \<and>
     (\<forall>m b. tx_toProtoMsg cd t = Some m \<longrightarrow> marshalTxReadWriteSet cd m = Some b \<longrightarrow>
        unmarshalTxReadWriteSet cd b = Some m)"

lemma coll_round_trip:
  assumes "coll_codec_ok cd c" "coll_toProtoMsg cd c = Some m"
  shows "collHashedRwSetFromProtoMsg cd m = Some c"
  using assms
  by (cases c) (auto simp: coll_codec_ok_def coll_toProtoMsg_def collHashedRwSetFromProtoMsg_def
      split: option.splits)

lemma ns_round_trip:
  assumes "ns_codec_ok cd n" "ns_toProtoMsg cd n = Some m"
  shows "nsRwSetFromProtoMsg cd m = Some n"
proof -
  obtain b cs where m: "marshalKVRWSet cd (KvRwSet n) = Some b"
      "mapM (coll_toProtoMsg cd) (CollHashedRwSets n) = Some cs"
      "m = \<lparr>nsNamespace = NameSpace n, nsRwset = b, CollectionHashedRwset = cs\<rparr>"
    using assms(2) by (auto simp: ns_toProtoMsg_def split: option.splits)
  have "mapM (collHashedRwSetFromProtoMsg cd) cs = Some (CollHashedRwSets n)"
    using m(2) by (rule mapM_inverse)
      (use assms(1) in \<open>auto simp: ns_codec_ok_def list_all_iff intro: coll_round_trip\<close>)
  then show ?thesis
    using assms(1) m by (simp add: nsRwSetFromProtoMsg_def ns_codec_ok_def kv_codec_ok_def)
qed

text \<open>C18. A read-write set that \<open>ToProtoBytes\<close> encodes is what \<open>FromProtoBytes\<close> reads back, where the
  encoder of the messages in it is faithful.\<close>

theorem TxRwSet_round_trip:
  assumes "tx_codec_ok cd t" and "ToProtoBytes cd t = Some b"
  shows "FromProtoBytes cd b = Some t"
proof -
  obtain m where m: "tx_toProtoMsg cd t = Some m" "marshalTxReadWriteSet cd m = Some b"
    using assms(2) by (auto simp: ToProtoBytes_def split: option.splits)
  then obtain ns where ns: "mapM (ns_toProtoMsg cd) (NsRwSets t) = Some ns"
      "m = \<lparr>DataModel = KV_model, NsRwset = ns\<rparr>"
    by (auto simp: tx_toProtoMsg_def split: option.splits)
  have "mapM (nsRwSetFromProtoMsg cd) ns = Some (NsRwSets t)"
    using ns(1) by (rule mapM_inverse)
      (use assms(1) in \<open>auto simp: tx_codec_ok_def list_all_iff intro: ns_round_trip\<close>)
  then show ?thesis
    using assms(1) m ns(2) by (simp add: FromProtoBytes_def TxRwSetFromProtoMsg_def tx_codec_ok_def)
qed

end
