(* ===== verification/PartialOrder.thy ===== *)
theory PartialOrder
  imports Rwset
begin

text \<open>
  Package \<open>orderer/common/partialorder\<close> (\<open>choosednode.go\<close>): the nodes of the conflict graph that the
  orderer builds over transactions, and \<open>ProcessEnvForBC\<close>, which turns an envelope into a node.

  Pointers. A \<open>*TxConsensusNode\<close> is an index into the list \<open>nodes\<close> of the graph, and a
  \<open>*[]*TxConsensusNode\<close> (the fields \<open>NChildNodes\<close> and \<open>UNChildNodes\<close>, which \<open>ProcessTX\<close> shares
  between a waiting entry and the transaction that resolves it) is an index into the list
  \<open>slices\<close>. A \<open>WaitTxConsensusNode\<close> is reached through the map \<open>WaitUnChoosedTxCNs\<close> only and is
  stored there by value. The 64-bit counters are integers: they count transactions of one run.
\<close>

record GVReadKV =
  gvrKey :: string
  gvrValue :: string
  gvrParentTxId :: string

record GVWriteKV =
  gvwKey :: string
  gvwValue :: string
  gvwParentTxId :: string

record PtxKV =
  KV :: "(string, string) gomap"
  pType :: "(string, int) gomap"

record GVNode =
  Count :: int
  TxResult :: Envelope
  TxRWSet :: TxRwSet
  TxId :: string
  ReadSet :: "(string, GVReadKV) gomap"
  WriteSet :: "(string, GVWriteKV) gomap"
  PTx :: "(string, PtxKV) gomap"
  UNPTx :: "(string, PtxKV) gomap"
  gvState :: int
  ConsensusState :: int
  NumSameRKV :: int
  NumSameRKVPtx :: int

type_synonym addr = nat
type_synonym sref = nat

record TxConsensusNode =
  tcnTxId :: string
  ChoosedNode :: GVNode
  ParentNum :: int
  ParentTxConsensusNode :: "(string, bool) gomap"
  UNParentTxConsensusNode :: "(string, bool) gomap"
  NChildNodes :: sref
  UNChildNodes :: sref
  WaitPTX :: "(string, bool) gomap"
  State :: int

record WaitTxConsensusNode =
  ChildNum :: int
  wNChildNodes :: sref
  wUNChildNodes :: sref
  wWriteSet :: "(string, string) gomap"
  DiffWaitWKV :: bool
  wChoosedNode :: "addr option"
  ChildWait :: "(string, addr) gomap"

record TxConsensusGraph =
  GState :: "string \<rightharpoonup> string"
  TxCNs :: "string \<rightharpoonup> addr"
  WaitUnChoosedTxCNs :: "string \<rightharpoonup> WaitTxConsensusNode"
  NumGCommittedNode :: int
  NumChangedState :: int
  ReadyBatch :: "Envelope list"
  nodes :: "TxConsensusNode list"
  slices :: "addr list list"

text \<open>The states of a node: committed, ready, waiting, changed state (rejected).\<close>

abbreviation (input) Committed :: int where "Committed \<equiv> 1"
abbreviation (input) Ready :: int where "Ready \<equiv> 2"
abbreviation (input) Wait :: int where "Wait \<equiv> 3"
abbreviation (input) ChangedState :: int where "ChangedState \<equiv> 4"

definition emptyPtxKV :: PtxKV where
  "emptyPtxKV = \<lparr>KV = [], pType = []\<rparr>"

subsection \<open>Reading the sets of an envelope\<close>

text \<open>One read of a namespace, lines 219 to 257.\<close>

definition add_read :: "KVRead \<Rightarrow> GVNode \<Rightarrow> GVNode" where
  "add_read rkv n =
     (if IsRead rkv then
        (let rkValue = str (rValue rkv);
             n1 = n\<lparr>ReadSet := put (rKey rkv)
                      \<lparr>gvrKey = rKey rkv, gvrValue = rkValue, gvrParentTxId = rTxid rkv\<rparr> (ReadSet n)\<rparr>;
             ptmap = (case map_of (PTx n1) (rTxid rkv) of None \<Rightarrow> emptyPtxKV | Some p \<Rightarrow> p);
             ptmap1 = ptmap\<lparr>KV := put (rKey rkv) rkValue (KV ptmap),
                            pType := put (rKey rkv) 1 (pType ptmap)\<rparr>
         in n1\<lparr>PTx := put (rTxid rkv) ptmap1 (PTx n1)\<rparr>)
      else n)"

definition add_write :: "KVWrite \<Rightarrow> GVNode \<Rightarrow> GVNode" where
  "add_write wkv n =
     n\<lparr>WriteSet := put (wKey wkv)
        \<lparr>gvwKey = wKey wkv, gvwValue = str (wValue wkv), gvwParentTxId = []\<rparr> (WriteSet n)\<rparr>"

definition add_ns :: "NsRwSet \<Rightarrow> GVNode \<Rightarrow> GVNode" where
  "add_ns rwset n =
     (if NameSpace rwset \<noteq> ''lscc'' then
        fold add_write (Writes (KvRwSet rwset)) (fold add_read (Reads (KvRwSet rwset)) n)
      else n)"

definition new_gnode :: "Envelope \<Rightarrow> TxRwSet \<Rightarrow> string \<Rightarrow> GVNode" where
  "new_gnode env rw txId =
     \<lparr>Count = 0, TxResult = env, TxRWSet = rw, TxId = txId, ReadSet = [], WriteSet = [],
      PTx = [], UNPTx = [], gvState = 3, ConsensusState = 0, NumSameRKV = 1, NumSameRKVPtx = 1\<rparr>"

text \<open>
  An envelope that does not decode leaves \<open>chdr\<close> nil, and \<open>chdr.TxId\<close> panics; results that do not
  decode leave the read-write set empty.
\<close>

definition ProcessEnvForBC :: "codec \<Rightarrow> Envelope \<Rightarrow> GVNode go" where
  "ProcessEnvForBC cd env =
     (case GetActionAndTxidFromEnvelopeMsg cd env of
        Inl _ \<Rightarrow> Inl NilDeref
      | Inr (chdr, results) \<Rightarrow>
          (let txRWSet = (case FromProtoBytes cd results of None \<Rightarrow> \<lparr>NsRwSets = []\<rparr> | Some t \<Rightarrow> t)
           in Inr (fold add_ns (NsRwSets txRWSet) (new_gnode env txRWSet (chTxId chdr)))))"

end
