(* ===== verification/CE_Graph.thy ===== *)
theory CE_Graph
  imports PartialOrder
begin

text \<open>
  The conflict graph of \<open>orderer/common/blockcutter/blockcutter.go\<close>: \<open>ProcessTX\<close>, which inserts a
  transaction below the transactions it read from, and \<open>Delete\<close>, which commits a node or rejects it
  and carries the decision on to its children. The handlers are cut at the statement groups of the
  source; each definition names the lines it models. Log calls are left out.
\<close>

subsection \<open>The store\<close>

abbreviation node :: "TxConsensusGraph \<Rightarrow> addr \<Rightarrow> TxConsensusNode" where
  "node g a \<equiv> nodes g ! a"

definition upd_node :: "addr \<Rightarrow> (TxConsensusNode \<Rightarrow> TxConsensusNode) \<Rightarrow> TxConsensusGraph \<Rightarrow> TxConsensusGraph" where
  "upd_node a f g = g\<lparr>nodes := (nodes g)[a := f (node g a)]\<rparr>"

definition append_slice :: "sref \<Rightarrow> addr \<Rightarrow> TxConsensusGraph \<Rightarrow> TxConsensusGraph" where
  "append_slice s a g = g\<lparr>slices := (slices g)[s := (slices g ! s) @ [a]]\<rparr>"

abbreviation nchildren :: "TxConsensusGraph \<Rightarrow> addr \<Rightarrow> addr list" where
  "nchildren g a \<equiv> slices g ! NChildNodes (node g a)"

abbreviation unchildren :: "TxConsensusGraph \<Rightarrow> addr \<Rightarrow> addr list" where
  "unchildren g a \<equiv> slices g ! UNChildNodes (node g a)"

abbreviation upd_wait ::
  "string \<Rightarrow> WaitTxConsensusNode \<Rightarrow> TxConsensusGraph \<Rightarrow> TxConsensusGraph" where
  "upd_wait k w g \<equiv> g\<lparr>WaitUnChoosedTxCNs := (WaitUnChoosedTxCNs g)(k \<mapsto> w)\<rparr>"

text \<open>\<open>&WaitTxConsensusNode{...}\<close> with two fresh slices, stored under \<open>k\<close>.\<close>

definition new_wait :: "string \<Rightarrow> bool \<Rightarrow> addr option \<Rightarrow> TxConsensusGraph \<Rightarrow> TxConsensusGraph" where
  "new_wait k dif ch g =
     upd_wait k
       \<lparr>ChildNum = 0, wNChildNodes = length (slices g), wUNChildNodes = Suc (length (slices g)),
        wWriteSet = [], DiffWaitWKV = dif, wChoosedNode = ch, ChildWait = []\<rparr>
       (g\<lparr>slices := slices g @ [[], []]\<rparr>)"

text \<open>\<open>&TxConsensusNode{...}\<close> of \<open>OrderedRaft\<close> and \<open>OrderedRaftForBC\<close>; its address is the last index.\<close>

definition new_txcn :: "GVNode \<Rightarrow> TxConsensusGraph \<Rightarrow> TxConsensusGraph" where
  "new_txcn gv g =
     g\<lparr>nodes := nodes g @
          [\<lparr>tcnTxId = TxId gv, ChoosedNode = gv, ParentNum = 0, ParentTxConsensusNode = [],
            UNParentTxConsensusNode = [], NChildNodes = length (slices g),
            UNChildNodes = Suc (length (slices g)), WaitPTX = [], State = 3\<rparr>],
       slices := slices g @ [[], []]\<rparr>"

definition empty_graph :: TxConsensusGraph where
  "empty_graph =
     \<lparr>GState = Map.empty, TxCNs = Map.empty, WaitUnChoosedTxCNs = Map.empty,
      NumGCommittedNode = 0, NumChangedState = 0, ReadyBatch = [], nodes = [], slices = []\<rparr>"

subsection \<open>Delete\<close>

text \<open>\<open>NumGCommittedNode++\<close>, append the envelope to \<open>ReadyBatch\<close>, \<open>State=1\<close>.\<close>

definition commit_node :: "addr \<Rightarrow> TxConsensusGraph \<Rightarrow> TxConsensusGraph" where
  "commit_node c g =
     upd_node c (State_update (\<lambda>_. 1))
       (g\<lparr>NumGCommittedNode := NumGCommittedNode g + 1,
          ReadyBatch := ReadyBatch g @ [TxResult (ChoosedNode (node g c))]\<rparr>)"

definition write_state :: "(string, GVWriteKV) gomap \<Rightarrow> (string \<rightharpoonup> string) \<Rightarrow> (string \<rightharpoonup> string)" where
  "write_state ws m = fold (\<lambda>(wk, wkv) m. m(wk \<mapsto> gvwValue wkv)) ws m"

definition un_child ::
  "(addr \<Rightarrow> TxConsensusGraph \<Rightarrow> TxConsensusGraph option) \<Rightarrow> string \<Rightarrow> addr \<Rightarrow> TxConsensusGraph
     \<Rightarrow> TxConsensusGraph option" where
  "un_child rec txid c g =
     (let g1 = upd_node c (\<lambda>n. n\<lparr>UNParentTxConsensusNode := del txid (UNParentTxConsensusNode n),
                               ParentNum := ParentNum n - 1\<rparr>) g
      in if ParentNum (node g1 c) = 0 then rec c (commit_node c g1) else Some g1)"

definition n_child_reject ::
  "(addr \<Rightarrow> TxConsensusGraph \<Rightarrow> TxConsensusGraph option) \<Rightarrow> addr \<Rightarrow> TxConsensusGraph
     \<Rightarrow> TxConsensusGraph option" where
  "n_child_reject rec c g =
     (if State (node g c) \<noteq> 4 then rec c (upd_node c (State_update (\<lambda>_. 4)) g) else Some g)"

definition n_child_commit ::
  "(addr \<Rightarrow> TxConsensusGraph \<Rightarrow> TxConsensusGraph option) \<Rightarrow> string \<Rightarrow> addr \<Rightarrow> TxConsensusGraph
     \<Rightarrow> TxConsensusGraph option" where
  "n_child_commit rec txid c g =
     (let g1 = upd_node c (\<lambda>n. n\<lparr>ParentTxConsensusNode := del txid (ParentTxConsensusNode n),
                               ParentNum := ParentNum n - 1\<rparr>) g
      in if ParentNum (node g1 c) = 0 then rec c (commit_node c g1) else Some g1)"

text \<open>
  The recursion of \<open>Delete\<close> has no bound in the code. The first argument is fuel, and None is
  running out of it; \<open>Delete_returns\<close> below shows that \<open>cascade_bound\<close> plus one is always enough.
\<close>

primrec Delete :: "nat \<Rightarrow> addr \<Rightarrow> TxConsensusGraph \<Rightarrow> TxConsensusGraph option" where
  "Delete 0 d g = None"
| "Delete (Suc fuel) d g =
     (let txid = TxId (ChoosedNode (node g d));
          g0 = (if State (node g d) = 1
                then g\<lparr>GState := write_state (WriteSet (ChoosedNode (node g d))) (GState g)\<rparr>
                else g)
      in case foldM (un_child (Delete fuel) txid) (unchildren g0 d) g0 of
           None \<Rightarrow> None
         | Some g1 \<Rightarrow>
             if State (node g1 d) = 4
             then foldM (n_child_reject (Delete fuel)) (nchildren g1 d) g1
             else foldM (n_child_commit (Delete fuel) txid) (nchildren g1 d) g1)"

text \<open>A bound on the calls one \<open>Delete\<close> can make: a child is committed only when its count of
  parents reaches zero from above, and rejected only when it is not rejected yet.\<close>

definition node_weight :: "TxConsensusNode \<Rightarrow> nat" where
  "node_weight n = (if 0 < ParentNum n then 2 else 0) + (if State n \<noteq> 4 then 1 else 0)"

definition cascade_bound :: "TxConsensusGraph \<Rightarrow> nat" where
  "cascade_bound g = sum_list (map node_weight (nodes g))"

definition run_Delete :: "addr \<Rightarrow> TxConsensusGraph \<Rightarrow> TxConsensusGraph go" where
  "run_Delete d g =
     (case Delete (Suc (cascade_bound g)) d g of
        None \<Rightarrow> Inl (Panic ''Delete does not return'')
      | Some g' \<Rightarrow> Inr g')"

subsection \<open>ProcessTX\<close>

text \<open>Lines 225 to 273: reject on entry.\<close>

definition admit :: "addr \<Rightarrow> string \<Rightarrow> TxConsensusGraph \<Rightarrow> TxConsensusGraph" where
  "admit a txid g =
     (let cs = ConsensusState (ChoosedNode (node g a));
          g1 = (if cs = 3 then upd_node a (State_update (\<lambda>_. 4)) g else g)
      in case WaitUnChoosedTxCNs g1 txid of
           None \<Rightarrow> (if cs = 3 then new_wait txid True (Some a) g1 else g1)
         | Some w \<Rightarrow>
             (let g2 = (if DiffWaitWKV w then upd_node a (State_update (\<lambda>_. 4)) g1 else g1);
                  ws = WriteSet (ChoosedNode (node g2 a))
              in if State (node g2 a) \<noteq> 4
                    \<and> list_ex (\<lambda>(wk, wv). map_option gvwValue (map_of ws wk) \<noteq> Some wv) (wWriteSet w)
                 then upd_wait txid (w\<lparr>DiffWaitWKV := True\<rparr>) (upd_node a (State_update (\<lambda>_. 4)) g2)
                 else g2))"

text \<open>Lines 292 to 326: keep the reads that a present parent wrote with the same value. The log line
  317 for a key that the parent did not write reads a field of the nil entry.\<close>

type_synonym rkv_acc = "(string, PtxKV) gomap \<times> (string, bool) gomap"

definition rkv_key ::
  "TxConsensusGraph \<Rightarrow> addr \<Rightarrow> string \<Rightarrow> PtxKV \<Rightarrow> string \<times> string \<Rightarrow> rkv_acc \<Rightarrow> rkv_acc go" where
  "rkv_key g p ptxid ptx kv acc =
     (let (k, v) = kv; (tempptx, intemp) = acc
      in if map_of intemp k \<noteq> None then Inr acc
         else
           (case map_of (WriteSet (ChoosedNode (node g p))) k of
              None \<Rightarrow> Inl NilDeref
            | Some ptxwkv \<Rightarrow>
                if gvwValue ptxwkv = v
                then (let t = (case map_of tempptx ptxid of None \<Rightarrow> emptyPtxKV | Some t \<Rightarrow> t);
                          t1 = t\<lparr>KV := put k v (KV t),
                                 pType := put k (index_int (pType ptx) k) (pType t)\<rparr>
                      in Inr (put ptxid t1 tempptx, put k True intemp))
                else Inr acc))"

definition rkv_parent :: "TxConsensusGraph \<Rightarrow> string \<times> PtxKV \<Rightarrow> rkv_acc \<Rightarrow> rkv_acc go" where
  "rkv_parent g pp acc =
     (case TxCNs g (fst pp) of
        None \<Rightarrow> Inr acc
      | Some p \<Rightarrow> foldE (rkv_key g p (fst pp) (snd pp)) (KV (snd pp)) acc)"

definition add_reject_entry :: "addr \<Rightarrow> string \<Rightarrow> TxConsensusGraph \<Rightarrow> TxConsensusGraph" where
  "add_reject_entry a txid g =
     (case WaitUnChoosedTxCNs g txid of
        None \<Rightarrow> new_wait txid True (Some a) g
      | Some _ \<Rightarrow> g)"

definition reject_node :: "addr \<Rightarrow> TxConsensusGraph \<Rightarrow> TxConsensusGraph" where
  "reject_node a g =
     upd_node a (State_update (\<lambda>_. 4)) (g\<lparr>NumChangedState := NumChangedState g + 1\<rparr>)"

text \<open>
  Lines 278 to 353: the case \<open>ConsensusState==2\<close>. Go leaves open in which order \<open>range\<close> visits the
  entries of \<open>PTx\<close>, and of the map \<open>KV\<close> of each entry: \<open>rng\<close> puts them in the order of one run.
\<close>

type_synonym ptx_order = "(string, PtxKV) gomap \<Rightarrow> (string, PtxKV) gomap"

definition rkv_consensus :: "ptx_order \<Rightarrow> addr \<Rightarrow> string \<Rightarrow> TxConsensusGraph \<Rightarrow> TxConsensusGraph go" where
  "rkv_consensus rng a txid g =
     (if ConsensusState (ChoosedNode (node g a)) = 2 then
        bindE (foldE (rkv_parent g) (rng (PTx (ChoosedNode (node g a)))) ([], []))
          (\<lambda>(tempptx, intemp).
             Inr (if length intemp < length (ReadSet (ChoosedNode (node g a)))
                  then add_reject_entry a txid (reject_node a g)
                  else upd_node a (ChoosedNode_update (PTx_update (\<lambda>_. tempptx))) g))
      else Inr g)"

text \<open>Lines 391 to 401: record the values a waiting child read from an absent parent.\<close>

fun merge_wait :: "(string, string) gomap \<Rightarrow> WaitTxConsensusNode \<Rightarrow> WaitTxConsensusNode" where
  "merge_wait [] w = w"
| "merge_wait ((k, v) # kvs) w =
     (case map_of (wWriteSet w) k of
        None \<Rightarrow> merge_wait kvs (w\<lparr>wWriteSet := put k v (wWriteSet w)\<rparr>)
      | Some v' \<Rightarrow> if v \<noteq> v' then w\<lparr>DiffWaitWKV := True\<rparr> else merge_wait kvs w)"

definition add_parent :: "addr \<Rightarrow> string \<Rightarrow> TxConsensusGraph \<Rightarrow> TxConsensusGraph" where
  "add_parent a ptxid =
     upd_node a (\<lambda>n. n\<lparr>ParentTxConsensusNode := put ptxid True (ParentTxConsensusNode n),
                     ParentNum := ParentNum n + 1\<rparr>)"

definition add_unparent :: "addr \<Rightarrow> string \<Rightarrow> TxConsensusGraph \<Rightarrow> TxConsensusGraph" where
  "add_unparent a ptxid =
     upd_node a (\<lambda>n. n\<lparr>UNParentTxConsensusNode := put ptxid True (UNParentTxConsensusNode n),
                     ParentNum := ParentNum n + 1\<rparr>)"

text \<open>Lines 370 to 382 and 496 to 508: the waiting entry of an absent parent, made if need be.\<close>

definition ensure_wait :: "string \<Rightarrow> TxConsensusGraph \<Rightarrow> TxConsensusGraph" where
  "ensure_wait ptxid g =
     (case WaitUnChoosedTxCNs g ptxid of
        None \<Rightarrow> new_wait ptxid False None g
      | Some _ \<Rightarrow> g)"

text \<open>Lines 368 to 407: a parent that has not arrived. The flag is the \<open>break\<close> of the loop.\<close>

definition absent_parent ::
  "addr \<Rightarrow> string \<Rightarrow> string \<Rightarrow> PtxKV \<Rightarrow> TxConsensusGraph \<Rightarrow> TxConsensusGraph \<times> bool" where
  "absent_parent a txid ptxid ptx g =
     (let g1 = ensure_wait ptxid g;
          w = the (WaitUnChoosedTxCNs g1 ptxid);
          w1 = w\<lparr>ChildNum := ChildNum w + 1, ChildWait := put txid a (ChildWait w)\<rparr>;
          g2 = upd_node a (WaitPTX_update (put ptxid True)) (upd_wait ptxid w1 g1)
      in if wChoosedNode w1 = None
         then (upd_wait ptxid (merge_wait (KV ptx) w1)
                 (add_parent a ptxid (append_slice (wNChildNodes w1) a g2)), False)
         else (reject_node a g2, True))"

text \<open>Lines 475 to 478 and 483 to 486: the child waits for whatever its parent waits for. A key of
  \<open>WaitPTX\<close> without an entry would be a nil dereference.\<close>

fun inherit_waits :: "addr \<Rightarrow> string \<Rightarrow> string list \<Rightarrow> TxConsensusGraph \<Rightarrow> TxConsensusGraph go" where
  "inherit_waits a txid [] g = Inr g"
| "inherit_waits a txid (k # ks) g =
     (case WaitUnChoosedTxCNs g k of
        None \<Rightarrow> Inl NilDeref
      | Some w \<Rightarrow>
          inherit_waits a txid ks
            (upd_wait k (w\<lparr>ChildWait := put txid a (ChildWait w)\<rparr>)
               (upd_node a (WaitPTX_update (put k True)) g)))"

text \<open>Lines 421 to 434 and 451 to 464.\<close>

definition drop_tx :: "addr \<Rightarrow> string \<Rightarrow> TxConsensusGraph \<Rightarrow> TxConsensusGraph" where
  "drop_tx a txid g =
     (let g1 = add_reject_entry a txid g in g1\<lparr>TxCNs := (TxCNs g1)(txid := None)\<rparr>)"

definition write_mismatch :: "PtxKV \<Rightarrow> (string, GVWriteKV) gomap \<Rightarrow> bool" where
  "write_mismatch ptx ws =
     list_ex (\<lambda>(k, v). map_option gvwValue (map_of ws k) \<noteq> Some v) (KV ptx)"

definition state_mismatch :: "PtxKV \<Rightarrow> (string \<rightharpoonup> string) \<Rightarrow> bool" where
  "state_mismatch ptx gs =
     list_ex (\<lambda>(k, v). index_int (pType ptx) k \<noteq> 2 \<and> index_str gs k \<noteq> v) (KV ptx)"

text \<open>Lines 409 to 488: a parent that is in the graph.\<close>

definition present_parent ::
  "addr \<Rightarrow> string \<Rightarrow> string \<Rightarrow> PtxKV \<Rightarrow> addr \<Rightarrow> TxConsensusGraph \<Rightarrow> (TxConsensusGraph \<times> bool) go" where
  "present_parent a txid ptxid ptx p g =
     (let g1 = (if write_mismatch ptx (WriteSet (ChoosedNode (node g p)))
                then drop_tx a txid (reject_node a g) else g);
          st = State (node g1 p)
      in if st = 1 then
           (let g2 = (if state_mismatch ptx (GState g1) then reject_node a g1 else g1)
            in if State (node g2 a) = 4 then Inr (drop_tx a txid g2, True) else Inr (g2, False))
         else if st = 3 then
           bindE (inherit_waits a txid (map fst (WaitPTX (node g1 p)))
                    (add_parent a ptxid (append_slice (NChildNodes (node g1 p)) a g1)))
             (\<lambda>g2. Inr (g2, False))
         else if st = 4 then
           bindE (inherit_waits a txid (map fst (WaitPTX (node g1 p))) (reject_node a g1))
             (\<lambda>g2. Inr (g2, True))
         else Inr (g1, False))"

fun ptx_loop :: "addr \<Rightarrow> string \<Rightarrow> (string, PtxKV) gomap \<Rightarrow> TxConsensusGraph \<Rightarrow> TxConsensusGraph go" where
  "ptx_loop a txid [] g = Inr g"
| "ptx_loop a txid ((ptxid, ptx) # ps) g =
     bindE (case TxCNs g ptxid of
              None \<Rightarrow> Inr (absent_parent a txid ptxid ptx g)
            | Some p \<Rightarrow> present_parent a txid ptxid ptx p g)
       (\<lambda>(g1, brk). if brk then Inr g1 else ptx_loop a txid ps g1)"

text \<open>Lines 492 to 539: the anti-dependency parents.\<close>

definition unptx_step :: "addr \<Rightarrow> string \<Rightarrow> TxConsensusGraph \<Rightarrow> TxConsensusGraph" where
  "unptx_step a ptxid g =
     (case TxCNs g ptxid of
        None \<Rightarrow>
          (let g1 = ensure_wait ptxid g; w = the (WaitUnChoosedTxCNs g1 ptxid)
           in if wChoosedNode w = None
              then add_unparent a ptxid (append_slice (wUNChildNodes w) a g1) else g1)
      | Some p \<Rightarrow>
          if State (node g p) = 3
          then add_unparent a ptxid (append_slice (UNChildNodes (node g p)) a g)
          else g)"

text \<open>Lines 276 to 542.\<close>

definition link :: "ptx_order \<Rightarrow> addr \<Rightarrow> string \<Rightarrow> TxConsensusGraph \<Rightarrow> TxConsensusGraph go" where
  "link rng a txid g =
     (if State (node g a) \<noteq> 4 \<and> ConsensusState (ChoosedNode (node g a)) \<noteq> 3 then
        bindE (rkv_consensus rng a txid g) (\<lambda>g1.
          if State (node g1 a) \<noteq> 4 then
            bindE (ptx_loop a txid (rng (PTx (ChoosedNode (node g1 a))))
                     (g1\<lparr>TxCNs := (TxCNs g1)(txid \<mapsto> a)\<rparr>))
              (\<lambda>g2. Inr (if State (node g2 a) \<noteq> 4
                         then fold (unptx_step a) (map fst (rng (UNPTx (ChoosedNode (node g2 a))))) g2
                         else g2))
          else Inr g1)
      else Inr g)"

text \<open>Lines 543 to 556: the transaction was waited for.\<close>

definition resolve_wait :: "addr \<Rightarrow> string \<Rightarrow> TxConsensusGraph \<Rightarrow> TxConsensusGraph" where
  "resolve_wait a txid g =
     (case WaitUnChoosedTxCNs g txid of
        None \<Rightarrow> g
      | Some w \<Rightarrow>
          (let g1 = upd_node a (\<lambda>n. n\<lparr>NChildNodes := wNChildNodes w, UNChildNodes := wUNChildNodes w\<rparr>) g
           in if State (node g1 a) \<noteq> 4
              then (fold (\<lambda>c. upd_node c (WaitPTX_update (del txid))) (map snd (ChildWait w)) g1)
                     \<lparr>WaitUnChoosedTxCNs := (WaitUnChoosedTxCNs g1)(txid := None)\<rparr>
              else upd_wait txid (w\<lparr>wChoosedNode := Some a\<rparr>)
                     (g1\<lparr>NumChangedState := NumChangedState g1 + ChildNum w\<rparr>)))"

text \<open>Lines 558 to 580.\<close>

definition finish :: "addr \<Rightarrow> TxConsensusGraph \<Rightarrow> TxConsensusGraph go" where
  "finish a g =
     (if State (node g a) \<noteq> 4 \<and> ParentNum (node g a) = 0 then run_Delete a (commit_node a g)
      else if State (node g a) = 4 then run_Delete a g
      else Inr g)"

definition ProcessTX :: "ptx_order \<Rightarrow> addr \<Rightarrow> TxConsensusGraph \<Rightarrow> TxConsensusGraph go" where
  "ProcessTX rng a g =
     (let txid = TxId (ChoosedNode (node g a));
          isExistwaittxcn = (WaitUnChoosedTxCNs g txid \<noteq> None)
      in bindE (link rng a txid (admit a txid g))
           (\<lambda>g1. finish a (if isExistwaittxcn then resolve_wait a txid g1 else g1)))"

text \<open>A new node for \<open>gv\<close>, at the next address, and \<open>ProcessTX\<close> on it.\<close>

definition insert_tx ::
  "ptx_order \<Rightarrow> GVNode \<Rightarrow> TxConsensusGraph \<Rightarrow> TxConsensusGraph go" where
  "insert_tx rng gv g = ProcessTX rng (length (nodes g)) (new_txcn gv g)"

subsection \<open>Frame facts\<close>

lemma upd_node_frame [simp]:
  "nodes (upd_node a f g) = (nodes g)[a := f (node g a)]"
  "slices (upd_node a f g) = slices g"
  "GState (upd_node a f g) = GState g"
  "TxCNs (upd_node a f g) = TxCNs g"
  "WaitUnChoosedTxCNs (upd_node a f g) = WaitUnChoosedTxCNs g"
  "NumGCommittedNode (upd_node a f g) = NumGCommittedNode g"
  "NumChangedState (upd_node a f g) = NumChangedState g"
  "ReadyBatch (upd_node a f g) = ReadyBatch g"
  by (simp_all add: upd_node_def)

lemma commit_node_frame [simp]:
  "nodes (commit_node c g) = (nodes g)[c := (node g c)\<lparr>State := 1\<rparr>]"
  "slices (commit_node c g) = slices g"
  "GState (commit_node c g) = GState g"
  "TxCNs (commit_node c g) = TxCNs g"
  "WaitUnChoosedTxCNs (commit_node c g) = WaitUnChoosedTxCNs g"
  "NumGCommittedNode (commit_node c g) = NumGCommittedNode g + 1"
  "NumChangedState (commit_node c g) = NumChangedState g"
  "ReadyBatch (commit_node c g) = ReadyBatch g @ [TxResult (ChoosedNode (node g c))]"
  by (simp_all add: commit_node_def)

text \<open>
  What \<open>Delete\<close> never changes: the maps, the slices, and of every node the transaction, the child
  lists and the transactions it waits for.
\<close>

definition node_shape :: "TxConsensusNode \<Rightarrow> GVNode \<times> sref \<times> sref \<times> (string, bool) gomap" where
  "node_shape n = (ChoosedNode n, NChildNodes n, UNChildNodes n, WaitPTX n)"

definition same_shape :: "TxConsensusGraph \<Rightarrow> TxConsensusGraph \<Rightarrow> bool" where
  "same_shape g h \<longleftrightarrow>
     map node_shape (nodes h) = map node_shape (nodes g) \<and> slices h = slices g \<and>
     TxCNs h = TxCNs g \<and> WaitUnChoosedTxCNs h = WaitUnChoosedTxCNs g \<and>
     NumChangedState h = NumChangedState g"

lemma same_shape_refl [simp]: "same_shape g g"
  by (simp add: same_shape_def)

lemma same_shape_trans: "same_shape f g \<Longrightarrow> same_shape g h \<Longrightarrow> same_shape f h"
  by (simp add: same_shape_def)

lemma same_shape_length: "same_shape g h \<Longrightarrow> length (nodes h) = length (nodes g)"
  unfolding same_shape_def by (metis length_map)

lemma same_shape_node:
  assumes "same_shape g h" and "a < length (nodes g)"
  shows "ChoosedNode (node h a) = ChoosedNode (node g a)"
    and "NChildNodes (node h a) = NChildNodes (node g a)"
    and "UNChildNodes (node h a) = UNChildNodes (node g a)"
    and "WaitPTX (node h a) = WaitPTX (node g a)"
proof -
  have "map node_shape (nodes h) ! a = map node_shape (nodes g) ! a"
    using assms by (simp add: same_shape_def)
  then have "node_shape (node h a) = node_shape (node g a)"
    using assms same_shape_length [OF assms(1)] by simp
  then show "ChoosedNode (node h a) = ChoosedNode (node g a)"
    and "NChildNodes (node h a) = NChildNodes (node g a)"
    and "UNChildNodes (node h a) = UNChildNodes (node g a)"
    and "WaitPTX (node h a) = WaitPTX (node g a)"
    by (simp_all add: node_shape_def)
qed

lemma same_shape_slices: "same_shape g h \<Longrightarrow> slices h = slices g"
  by (simp add: same_shape_def)

text \<open>Every child list holds addresses of nodes.\<close>

definition wf_slices :: "TxConsensusGraph \<Rightarrow> bool" where
  "wf_slices g \<longleftrightarrow>
     (\<forall>s \<in> set (slices g). \<forall>c \<in> set s. c < length (nodes g)) \<and>
     (\<forall>n \<in> set (nodes g). NChildNodes n < length (slices g) \<and> UNChildNodes n < length (slices g))"

lemma wf_slices_child:
  assumes "wf_slices g" and "d < length (nodes g)"
  shows "c \<in> set (nchildren g d) \<Longrightarrow> c < length (nodes g)"
    and "c \<in> set (unchildren g d) \<Longrightarrow> c < length (nodes g)"
  using assms unfolding wf_slices_def by (meson nth_mem)+

lemma same_shape_wf:
  assumes "same_shape g h" and "wf_slices g"
  shows "wf_slices h"
proof -
  have len: "length (nodes h) = length (nodes g)" and sl: "slices h = slices g"
    using assms(1) by (auto dest: same_shape_length same_shape_slices)
  have "\<forall>n \<in> set (nodes h). NChildNodes n < length (slices h) \<and> UNChildNodes n < length (slices h)"
  proof
    fix n assume "n \<in> set (nodes h)"
    then obtain a where "a < length (nodes g)" "n = node h a"
      by (metis in_set_conv_nth len)
    then show "NChildNodes n < length (slices h) \<and> UNChildNodes n < length (slices h)"
      using assms by (auto simp: same_shape_node sl wf_slices_def)
  qed
  then show ?thesis using assms(2) by (simp add: wf_slices_def sl len)
qed

lemma same_shape_upd:
  assumes "a < length (nodes g)" and "node_shape (f (node g a)) = node_shape (node g a)"
  shows "same_shape g (upd_node a f g)"
proof -
  have "map node_shape ((nodes g)[a := f (node g a)]) = map node_shape (nodes g)"
    using assms by (simp add: map_update list_update_same_conv)
  then show ?thesis by (simp add: same_shape_def)
qed

lemma same_shape_commit:
  assumes "c < length (nodes g)"
  shows "same_shape g (commit_node c g)"
proof -
  have "map node_shape ((nodes g)[c := (node g c)\<lparr>State := 1\<rparr>]) = map node_shape (nodes g)"
    using assms by (simp add: map_update list_update_same_conv node_shape_def)
  then show ?thesis by (simp add: same_shape_def)
qed

subsection \<open>Delete returns\<close>

lemma cascade_bound_upd:
  assumes "nodes h = (nodes g)[a := n]" and "a < length (nodes g)"
  shows "cascade_bound h + node_weight (node g a) = cascade_bound g + node_weight n"
  using assms sum_list_update_nat [of a "nodes g" node_weight n] by (simp add: cascade_bound_def)

text \<open>One child, with a recursive call that returns below the bound of the state it starts in.\<close>

definition returns_below :: "(addr \<Rightarrow> TxConsensusGraph \<Rightarrow> TxConsensusGraph option) \<Rightarrow> nat \<Rightarrow> bool" where
  "returns_below rec b \<longleftrightarrow>
     (\<forall>c g. wf_slices g \<longrightarrow> c < length (nodes g) \<longrightarrow> cascade_bound g < b \<longrightarrow>
        (\<exists>g'. rec c g = Some g' \<and> same_shape g g' \<and> cascade_bound g' \<le> cascade_bound g))"

lemma returns_belowD:
  assumes "returns_below rec b" "wf_slices g" "c < length (nodes g)" "cascade_bound g < b"
  shows "\<exists>g'. rec c g = Some g' \<and> same_shape g g' \<and> cascade_bound g' \<le> cascade_bound g"
  using assms unfolding returns_below_def by blast

text \<open>The counted child of a committed parent, common to the two kinds of edges.\<close>

definition count_down ::
  "(addr \<Rightarrow> TxConsensusGraph \<Rightarrow> TxConsensusGraph option) \<Rightarrow> (TxConsensusNode \<Rightarrow> TxConsensusNode)
     \<Rightarrow> addr \<Rightarrow> TxConsensusGraph \<Rightarrow> TxConsensusGraph option" where
  "count_down rec f c g =
     (let g1 = upd_node c f g
      in if ParentNum (node g1 c) = 0 then rec c (commit_node c g1) else Some g1)"

lemma child_count_down:
  "un_child rec txid =
     count_down rec (\<lambda>n. n\<lparr>UNParentTxConsensusNode := del txid (UNParentTxConsensusNode n),
                          ParentNum := ParentNum n - 1\<rparr>)"
  "n_child_commit rec txid =
     count_down rec (\<lambda>n. n\<lparr>ParentTxConsensusNode := del txid (ParentTxConsensusNode n),
                          ParentNum := ParentNum n - 1\<rparr>)"
  by (simp_all add: fun_eq_iff un_child_def n_child_commit_def count_down_def)

lemma count_down_returns:
  assumes "returns_below rec b" "wf_slices g" "c < length (nodes g)" "cascade_bound g \<le> b"
    and f: "\<And>n. node_shape (f n) = node_shape n" "\<And>n. ParentNum (f n) = ParentNum n - 1"
      "\<And>n. State (f n) = State n"
  shows "\<exists>g'. count_down rec f c g = Some g' \<and> same_shape g g' \<and> cascade_bound g' \<le> cascade_bound g"
proof -
  let ?g1 = "upd_node c f g"
  have s1: "same_shape g ?g1" using assms(3) f(1) by (rule same_shape_upd)
  have b1: "cascade_bound ?g1 + node_weight (node g c) = cascade_bound g + node_weight (f (node g c))"
    using assms(3) by (intro cascade_bound_upd) simp
  show ?thesis
  proof (cases "ParentNum (node ?g1 c) = 0")
    case False
    have "node_weight (f (node g c)) \<le> node_weight (node g c)" by (simp add: node_weight_def f)
    then show ?thesis using False s1 b1 by (simp add: count_down_def)
  next
    case True
    let ?g2 = "commit_node c ?g1"
    have c1: "c < length (nodes ?g1)" using assms(3) by simp
    have s2: "same_shape ?g1 ?g2" using c1 by (rule same_shape_commit)
    have b2: "cascade_bound ?g2 + node_weight (node ?g1 c)
               = cascade_bound ?g1 + node_weight ((node ?g1 c)\<lparr>State := 1\<rparr>)"
      using c1 by (intro cascade_bound_upd) simp
    have "ParentNum (node g c) = 1" using True assms(3) f(2) by simp
    then have lt: "cascade_bound ?g2 < cascade_bound g"
      using b1 b2 assms(3) by (simp add: node_weight_def f split: if_splits)
    have "wf_slices ?g2" using s1 s2 assms(2) by (blast intro: same_shape_wf same_shape_trans)
    then obtain g' where "rec c ?g2 = Some g'" "same_shape ?g2 g'" "cascade_bound g' \<le> cascade_bound ?g2"
      using returns_belowD [OF assms(1), of ?g2 c] lt assms(3,4) by auto
    then show ?thesis
      using True s1 s2 lt by (auto simp: count_down_def intro: same_shape_trans)
  qed
qed

lemma n_child_reject_returns:
  assumes "returns_below rec b" "wf_slices g" "c < length (nodes g)" "cascade_bound g \<le> b"
  shows "\<exists>g'. n_child_reject rec c g = Some g' \<and> same_shape g g' \<and> cascade_bound g' \<le> cascade_bound g"
proof (cases "State (node g c) = 4")
  case True
  then show ?thesis by (simp add: n_child_reject_def)
next
  case False
  let ?g1 = "upd_node c (State_update (\<lambda>_. 4)) g"
  have s1: "same_shape g ?g1" using assms(3) by (intro same_shape_upd) (simp_all add: node_shape_def)
  have b1: "cascade_bound ?g1 + node_weight (node g c)
             = cascade_bound g + node_weight ((node g c)\<lparr>State := 4\<rparr>)"
    using assms(3) by (intro cascade_bound_upd) simp
  then have lt: "cascade_bound ?g1 < cascade_bound g" using False by (simp add: node_weight_def)
  have "wf_slices ?g1" using s1 assms(2) by (rule same_shape_wf)
  then obtain g' where "rec c ?g1 = Some g'" "same_shape ?g1 g'" "cascade_bound g' \<le> cascade_bound ?g1"
    using returns_belowD [OF assms(1), of ?g1 c] lt assms(3,4) by auto
  then show ?thesis
    using False s1 lt by (auto simp: n_child_reject_def intro: same_shape_trans)
qed

text \<open>A loop of such steps.\<close>

lemma loop_returns:
  assumes "wf_slices g" "cascade_bound g \<le> b" "\<And>c. c \<in> set cs \<Longrightarrow> c < length (nodes g)"
    and step: "\<And>c h. wf_slices h \<Longrightarrow> c < length (nodes h) \<Longrightarrow> cascade_bound h \<le> b \<Longrightarrow>
       \<exists>h'. f c h = Some h' \<and> same_shape h h' \<and> cascade_bound h' \<le> cascade_bound h"
  shows "\<exists>g'. foldM f cs g = Some g' \<and> same_shape g g' \<and> cascade_bound g' \<le> cascade_bound g"
proof (rule foldM_total)
  show "same_shape g g \<and> cascade_bound g \<le> cascade_bound g" by simp
next
  fix c h assume c: "c \<in> set cs" and h: "same_shape g h \<and> cascade_bound h \<le> cascade_bound g"
  have "wf_slices h" using h assms(1) by (blast intro: same_shape_wf)
  moreover have "c < length (nodes h)" using c h assms(3) same_shape_length [of g h] by simp
  moreover have "cascade_bound h \<le> b" using h assms(2) by simp
  ultimately obtain h' where "f c h = Some h'" "same_shape h h'" "cascade_bound h' \<le> cascade_bound h"
    using step by blast
  then show "\<exists>h'. f c h = Some h' \<and> same_shape g h' \<and> cascade_bound h' \<le> cascade_bound g"
    using h by (auto intro: same_shape_trans)
qed

lemma Delete_returns_below: "returns_below (Delete fuel) fuel"
proof (induction fuel)
  case 0
  then show ?case by (simp add: returns_below_def)
next
  case (Suc fuel)
  show ?case unfolding returns_below_def
  proof (intro allI impI)
    fix d g assume wf: "wf_slices g" and d: "d < length (nodes g)" and b: "cascade_bound g < Suc fuel"
    let ?txid = "TxId (ChoosedNode (node g d))"
    define g0 where "g0 = (if State (node g d) = 1
       then g\<lparr>GState := write_state (WriteSet (ChoosedNode (node g d))) (GState g)\<rparr> else g)"
    have n0: "nodes g0 = nodes g" "slices g0 = slices g" by (simp_all add: g0_def)
    have s0: "same_shape g g0" and b0: "cascade_bound g0 = cascade_bound g"
      by (simp_all add: g0_def same_shape_def cascade_bound_def)
    have wf0: "wf_slices g0" using s0 wf by (rule same_shape_wf)
    obtain g1 where g1: "foldM (un_child (Delete fuel) ?txid) (unchildren g0 d) g0 = Some g1"
      "same_shape g0 g1" "cascade_bound g1 \<le> cascade_bound g0"
      using loop_returns [OF wf0, of fuel "unchildren g0 d" "un_child (Delete fuel) ?txid"]
        count_down_returns [OF Suc.IH] wf_slices_child(2) [OF wf0] b b0 d n0
      by (auto simp: child_count_down node_shape_def)
    have s1: "same_shape g g1" using s0 g1(2) by (rule same_shape_trans)
    have wf1: "wf_slices g1" using g1(2) wf0 by (rule same_shape_wf)
    have d1: "d < length (nodes g1)" using d n0 same_shape_length [OF g1(2)] by simp
    have b1: "cascade_bound g1 \<le> fuel" using g1(3) b b0 by simp
    have ch: "\<And>c. c \<in> set (nchildren g1 d) \<Longrightarrow> c < length (nodes g1)"
      using wf_slices_child(1) [OF wf1 d1] .
    have rej: "\<exists>g'. foldM (n_child_reject (Delete fuel)) (nchildren g1 d) g1 = Some g'
        \<and> same_shape g1 g' \<and> cascade_bound g' \<le> cascade_bound g1"
      using loop_returns [OF wf1 b1 ch, of "nchildren g1 d" "n_child_reject (Delete fuel)"]
        n_child_reject_returns [OF Suc.IH] by blast
    have com: "\<exists>g'. foldM (n_child_commit (Delete fuel) ?txid) (nchildren g1 d) g1 = Some g'
        \<and> same_shape g1 g' \<and> cascade_bound g' \<le> cascade_bound g1"
      using loop_returns [OF wf1 b1 ch, of "nchildren g1 d" "n_child_commit (Delete fuel) ?txid"]
        count_down_returns [OF Suc.IH]
      by (auto simp: child_count_down node_shape_def)
    show "\<exists>g'. Delete (Suc fuel) d g = Some g' \<and> same_shape g g' \<and> cascade_bound g' \<le> cascade_bound g"
    proof (cases "State (node g1 d) = 4")
      case True
      then show ?thesis using rej g1 s1 b0 unfolding Delete.simps Let_def g0_def [symmetric]
        by (auto intro: same_shape_trans [OF s1])
    next
      case False
      then show ?thesis using com g1 s1 b0 unfolding Delete.simps Let_def g0_def [symmetric]
        by (auto intro: same_shape_trans [OF s1])
    qed
  qed
qed

lemma run_Delete_returns:
  assumes "wf_slices g" "d < length (nodes g)"
  shows "\<exists>g'. run_Delete d g = Inr g' \<and> same_shape g g'"
  using returns_belowD [OF Delete_returns_below assms, of "Suc (cascade_bound g)"]
  by (auto simp: run_Delete_def)

end
