(* ===== verification/CE_Invariant.thy ===== *)
theory CE_Invariant
  imports CE_Graph
begin

text \<open>
  The invariant of the conflict graph and that \<open>ProcessTX\<close> keeps it. The invariant says that every
  address and every slice the graph holds exists, and that a transaction of the graph is
  registered with every transaction it waits for. It is what keeps the pointer dereferences
  of \<open>ProcessTX\<close> from panicking. Together with the bound on \<open>Delete\<close> it gives that \<open>ProcessTX\<close>
  always returns.
\<close>

subsection \<open>The graph invariant\<close>

text \<open>
  \<open>waits_ok\<close>: a transaction of the graph that waits for \<open>k\<close> is registered, under its identifier, in
  the entry of \<open>k\<close>. This is what keeps \<open>WaitUnChoosedTxCNs[waitptx].ChildWait\<close> from dereferencing nil.
\<close>

definition waits_ok :: "TxConsensusGraph \<Rightarrow> bool" where
  "waits_ok g \<longleftrightarrow>
     (\<forall>t p. TxCNs g t = Some p \<longrightarrow>
        (\<forall>k \<in> fst ` set (WaitPTX (node g p)).
           \<exists>w. WaitUnChoosedTxCNs g k = Some w \<and> map_of (ChildWait w) t = Some p))"

definition wf_refs :: "TxConsensusGraph \<Rightarrow> bool" where
  "wf_refs g \<longleftrightarrow>
     (\<forall>p \<in> ran (TxCNs g). p < length (nodes g)) \<and>
     (\<forall>w \<in> ran (WaitUnChoosedTxCNs g).
        wNChildNodes w < length (slices g) \<and> wUNChildNodes w < length (slices g))"

definition wf_graph :: "TxConsensusGraph \<Rightarrow> bool" where
  "wf_graph g \<longleftrightarrow> wf_slices g \<and> wf_refs g \<and> waits_ok g"

lemma wf_graphI [intro]: "wf_slices g \<Longrightarrow> wf_refs g \<Longrightarrow> waits_ok g \<Longrightarrow> wf_graph g"
  by (simp add: wf_graph_def)

lemma wf_graphD:
  "wf_graph g \<Longrightarrow> wf_slices g" "wf_graph g \<Longrightarrow> wf_refs g" "wf_graph g \<Longrightarrow> waits_ok g"
  by (simp_all add: wf_graph_def)

lemma waits_okD:
  "waits_ok g \<Longrightarrow> TxCNs g t = Some p \<Longrightarrow> k \<in> fst ` set (WaitPTX (node g p)) \<Longrightarrow>
     \<exists>w. WaitUnChoosedTxCNs g k = Some w \<and> map_of (ChildWait w) t = Some p"
  unfolding waits_ok_def by blast

lemma wf_graph_tx: "wf_graph g \<Longrightarrow> TxCNs g t = Some p \<Longrightarrow> p < length (nodes g)"
  unfolding wf_graph_def wf_refs_def by (meson ranI)

lemma same_shape_wf_graph:
  assumes "same_shape g h" and "wf_graph g"
  shows "wf_graph h"
proof
  have eq: "TxCNs h = TxCNs g" "WaitUnChoosedTxCNs h = WaitUnChoosedTxCNs g" "slices h = slices g"
    using assms(1) by (simp_all add: same_shape_def)
  have len: "length (nodes h) = length (nodes g)" using assms(1) by (rule same_shape_length)
  show "wf_slices h" using assms wf_graphD(1) same_shape_wf by blast
  show "wf_refs h" using wf_graphD(2) [OF assms(2)] by (simp add: wf_refs_def eq len)
  show "waits_ok h" unfolding waits_ok_def eq
  proof (intro allI impI ballI)
    fix t p k assume t: "TxCNs g t = Some p" and k: "k \<in> fst ` set (WaitPTX (node h p))"
    have "p < length (nodes g)" using assms(2) t by (rule wf_graph_tx)
    then have "k \<in> fst ` set (WaitPTX (node g p))" using k same_shape_node(4) [OF assms(1)] by simp
    then show "\<exists>w. WaitUnChoosedTxCNs g k = Some w \<and> map_of (ChildWait w) t = Some p"
      using waits_okD [OF wf_graphD(3) [OF assms(2)] t] by blast
  qed
qed

text \<open>
  The other updates of \<open>ProcessTX\<close> keep the invariant because they only extend: \<open>extends g h\<close> allows
  everything but losing an entry of \<open>WaitUnChoosedTxCNs\<close> or a registration in one, and adding to
  \<open>WaitPTX\<close> or changing \<open>TxCNs\<close> is accounted for by its own rule.
\<close>

definition extends :: "TxConsensusGraph \<Rightarrow> TxConsensusGraph \<Rightarrow> bool" where
  "extends g h \<longleftrightarrow>
     length (nodes h) = length (nodes g) \<and>
     (\<forall>p < length (nodes g). WaitPTX (node h p) = WaitPTX (node g p)) \<and>
     (\<forall>k w. WaitUnChoosedTxCNs g k = Some w \<longrightarrow>
        (\<exists>w'. WaitUnChoosedTxCNs h k = Some w' \<and> ChildWait w' = ChildWait w)) \<and>
     TxCNs h \<subseteq>\<^sub>m TxCNs g \<and> (wf_slices g \<longrightarrow> wf_slices h) \<and> (wf_refs g \<longrightarrow> wf_refs h)"

lemma extends_refl [simp]: "extends g g"
  by (simp add: extends_def)

lemma extends_trans: "extends f g \<Longrightarrow> extends g h \<Longrightarrow> extends f h"
  unfolding extends_def by (metis map_le_trans)

lemma extends_length: "extends g h \<Longrightarrow> length (nodes h) = length (nodes g)"
  by (simp add: extends_def)

lemma extends_wf:
  assumes "extends g h" and "wf_graph g"
  shows "wf_graph h"
proof
  show "wf_slices h" "wf_refs h" using assms by (auto simp: extends_def wf_graph_def)
  show "waits_ok h" unfolding waits_ok_def
  proof (intro allI impI ballI)
    fix t p k assume t: "TxCNs h t = Some p" and k: "k \<in> fst ` set (WaitPTX (node h p))"
    have t': "TxCNs g t = Some p" using assms(1) t unfolding extends_def map_le_def by (metis domI)
    then have "p < length (nodes g)" using assms(2) by (simp add: wf_graph_tx)
    then have "k \<in> fst ` set (WaitPTX (node g p))" using k assms(1) by (simp add: extends_def)
    then obtain w where "WaitUnChoosedTxCNs g k = Some w" "map_of (ChildWait w) t = Some p"
      using waits_okD [OF wf_graphD(3) [OF assms(2)] t'] by blast
    then show "\<exists>w. WaitUnChoosedTxCNs h k = Some w \<and> map_of (ChildWait w) t = Some p"
      using assms(1) unfolding extends_def by metis
  qed
qed

lemma extends_upd_node:
  assumes "\<And>n. WaitPTX (f n) = WaitPTX n" "\<And>n. NChildNodes (f n) = NChildNodes n"
    "\<And>n. UNChildNodes (f n) = UNChildNodes n"
  shows "extends g (upd_node a f g)"
proof -
  have "WaitPTX ((nodes g)[a := f (node g a)] ! p) = WaitPTX (node g p)" for p
    using assms(1) by (rule nth_update_field)
  moreover have "wf_slices g \<longrightarrow> wf_slices (upd_node a f g)"
  proof (cases "a < length (nodes g)")
    case True
    then show ?thesis using assms(2,3) by (auto simp: wf_slices_def dest!: in_set_update)
  qed (simp add: wf_slices_def not_less list_update_beyond)
  ultimately show ?thesis by (simp add: extends_def wf_refs_def)
qed

lemma extends_GState_etc [simp]:
  "extends g (g\<lparr>NumChangedState := x\<rparr>)"
  by (auto simp: extends_def wf_slices_def wf_refs_def)

lemma extends_reject_node: "extends g (reject_node a g)"
  unfolding reject_node_def
  by (rule extends_trans [OF extends_GState_etc extends_upd_node]) simp_all

lemma extends_drop_key: "extends g (g\<lparr>TxCNs := (TxCNs g)(t := None)\<rparr>)"
  by (auto simp: extends_def wf_slices_def wf_refs_def map_le_def ran_def)

lemma new_wait_frame [simp]:
  "nodes (new_wait k b ch g) = nodes g"
  "slices (new_wait k b ch g) = slices g @ [[], []]"
  "GState (new_wait k b ch g) = GState g"
  "TxCNs (new_wait k b ch g) = TxCNs g"
  "NumChangedState (new_wait k b ch g) = NumChangedState g"
  "WaitUnChoosedTxCNs (new_wait k b ch g) = (WaitUnChoosedTxCNs g)(k \<mapsto>
     \<lparr>ChildNum = 0, wNChildNodes = length (slices g), wUNChildNodes = Suc (length (slices g)),
      wWriteSet = [], DiffWaitWKV = b, wChoosedNode = ch, ChildWait = []\<rparr>)"
  by (simp_all add: new_wait_def)

lemma extends_new_wait:
  assumes "WaitUnChoosedTxCNs g k = None"
  shows "extends g (new_wait k b ch g)"
  using assms
  by (auto simp: extends_def wf_slices_def wf_refs_def ran_def split: if_splits)

lemma extends_append_slice:
  assumes "a < length (nodes g)"
  shows "extends g (append_slice s a g)"
proof -
  have "wf_slices g \<longrightarrow> wf_slices (append_slice s a g)"
  proof (cases "s < length (slices g)")
    case True
    then have "slices g ! s \<in> set (slices g)" by simp
    then show ?thesis using assms by (auto simp: append_slice_def wf_slices_def dest!: in_set_update)
  qed (simp add: wf_slices_def append_slice_def not_less list_update_beyond)
  then show ?thesis by (simp add: extends_def append_slice_def wf_refs_def)
qed

lemma extends_upd_wait:
  assumes "WaitUnChoosedTxCNs g k = Some w" "ChildWait w' = ChildWait w"
    "wNChildNodes w' = wNChildNodes w" "wUNChildNodes w' = wUNChildNodes w"
  shows "extends g (upd_wait k w' g)"
  using assms by (auto simp: extends_def wf_slices_def wf_refs_def ran_def split: if_splits)

lemma extends_add_reject_entry: "extends g (add_reject_entry a t g)"
  by (auto simp: add_reject_entry_def extends_new_wait split: option.split)

lemma extends_drop_tx: "extends g (drop_tx a t g)"
  unfolding drop_tx_def Let_def by (rule extends_trans [OF extends_add_reject_entry extends_drop_key])

lemma extends_ensure_wait: "extends g (ensure_wait k g)"
  by (auto simp: ensure_wait_def extends_new_wait split: option.split)

lemma extends_add_parent: "extends g (add_parent a k g)" "extends g (add_unparent a k g)"
  unfolding add_parent_def add_unparent_def by (rule extends_upd_node; simp)+

lemma extends_set_state: "extends g (upd_node a (State_update f) g)"
  by (rule extends_upd_node) simp_all

lemmas extends_intros =
  extends_reject_node extends_drop_tx extends_add_reject_entry extends_ensure_wait
  extends_add_parent extends_set_state extends_drop_key

text \<open>
  While \<open>ProcessTX\<close> links the node \<open>a\<close> of transaction \<open>t\<close>, the address and the identifier belong to each
  other in \<open>TxCNs\<close>; the entry itself may have been dropped again.
\<close>

definition linking :: "addr \<Rightarrow> string \<Rightarrow> TxConsensusGraph \<Rightarrow> bool" where
  "linking a t g \<longleftrightarrow>
     wf_graph g \<and> a < length (nodes g) \<and> (\<forall>u p. TxCNs g u = Some p \<longrightarrow> (u = t \<longleftrightarrow> p = a))"

lemma linking_extends:
  assumes "linking a t g" and "extends g h"
  shows "linking a t h"
proof -
  have "TxCNs g u = Some p" if "TxCNs h u = Some p" for u p
    using that assms(2) unfolding extends_def map_le_def by (metis domI)
  then show ?thesis
    using assms extends_wf extends_length unfolding linking_def by metis
qed

lemma upd_wait_upd_node:
  "upd_wait k w (upd_node a f g) = upd_node a f (upd_wait k w g)"
  by (simp add: upd_node_def)

lemma linking_register:
  assumes "linking a t g" and w: "WaitUnChoosedTxCNs g k = Some w"
    and w': "ChildWait w' = put t a (ChildWait w)"
      "wNChildNodes w' = wNChildNodes w" "wUNChildNodes w' = wUNChildNodes w"
  shows "linking a t (upd_node a (WaitPTX_update (put k True)) (upd_wait k w' g))" (is "linking a t ?h")
proof -
  have g: "wf_slices g" "wf_refs g" "waits_ok g" "a < length (nodes g)"
    "\<And>u p. TxCNs g u = Some p \<Longrightarrow> u = t \<longleftrightarrow> p = a"
    using assms(1) by (auto simp: linking_def wf_graph_def)
  have "wf_slices ?h"
    using g(1) by (auto simp: wf_slices_def dest!: in_set_update) (use g(4) nth_mem in blast)+
  moreover have "wf_refs ?h"
    using g(2) w w' by (auto simp: wf_refs_def ran_def split: if_splits)
  moreover have "waits_ok ?h" unfolding waits_ok_def
  proof (intro allI impI ballI)
    fix u p l assume u: "TxCNs ?h u = Some p" and l: "l \<in> fst ` set (WaitPTX (node ?h p))"
    have u': "TxCNs g u = Some p" using u by simp
    have l': "l \<in> fst ` set (WaitPTX (node g p)) \<or> p = a \<and> l = k"
      using l g(4) by (cases "p = a") (auto simp: keys_put)
    show "\<exists>v. WaitUnChoosedTxCNs ?h l = Some v \<and> map_of (ChildWait v) u = Some p"
      using l' waits_okD [OF g(3) u', of l] g(5) [OF u'] w w'(1) by (cases "l = k") auto
  qed
  ultimately show ?thesis using g by (auto simp: linking_def)
qed

lemma merge_wait_frame [simp]:
  "ChildWait (merge_wait kvs w) = ChildWait w"
  "wNChildNodes (merge_wait kvs w) = wNChildNodes w"
  "wUNChildNodes (merge_wait kvs w) = wUNChildNodes w"
  "ChildNum (merge_wait kvs w) = ChildNum w"
  "wChoosedNode (merge_wait kvs w) = wChoosedNode w"
  by (induction kvs w rule: merge_wait.induct) (auto split: option.split)

lemma ensure_wait_entry: "\<exists>w. WaitUnChoosedTxCNs (ensure_wait k g) k = Some w"
  by (auto simp: ensure_wait_def split: option.split)

lemma append_slice_frame [simp]:
  "nodes (append_slice s a g) = nodes g"
  "slices (append_slice s a g) = (slices g)[s := slices g ! s @ [a]]"
  "GState (append_slice s a g) = GState g"
  "TxCNs (append_slice s a g) = TxCNs g"
  "WaitUnChoosedTxCNs (append_slice s a g) = WaitUnChoosedTxCNs g"
  "ReadyBatch (append_slice s a g) = ReadyBatch g"
  "NumGCommittedNode (append_slice s a g) = NumGCommittedNode g"
  by (simp_all add: append_slice_def)

lemma linking_absent_parent:
  assumes "linking a t g"
  shows "linking a t (fst (absent_parent a t k ptx g))"
proof -
  obtain w where w: "WaitUnChoosedTxCNs (ensure_wait k g) k = Some w"
    using ensure_wait_entry by blast
  define w1 where "w1 = w\<lparr>ChildNum := ChildNum w + 1, ChildWait := put t a (ChildWait w)\<rparr>"
  define g2 where "g2 = upd_node a (WaitPTX_update (put k True)) (upd_wait k w1 (ensure_wait k g))"
  have g2: "linking a t g2"
    unfolding g2_def w1_def
    by (rule linking_register [OF linking_extends [OF assms extends_ensure_wait] w]) simp_all
  define g3 where "g3 = add_parent a k (append_slice (wNChildNodes w1) a g2)"
  have e: "extends g2 g3"
    unfolding g3_def using g2
    by (intro extends_trans [OF extends_append_slice extends_add_parent(1)]) (simp add: linking_def)
  have "WaitUnChoosedTxCNs g3 k = Some w1"
    by (simp add: g3_def g2_def add_parent_def)
  then have "extends g2 (upd_wait k (merge_wait (KV ptx) w1) g3)"
    by (intro extends_trans [OF e extends_upd_wait]) simp_all
  then show ?thesis
    using linking_extends [OF g2] extends_reject_node
    by (simp add: absent_parent_def w w1_def g2_def g3_def Let_def)
qed

lemma inherit_waits_ok:
  assumes "linking a t g" and "\<And>k. k \<in> set ks \<Longrightarrow> \<exists>w. WaitUnChoosedTxCNs g k = Some w"
  shows "\<exists>g'. inherit_waits a t ks g = Inr g' \<and> linking a t g'"
  using assms
proof (induction ks arbitrary: g)
  case Nil
  then show ?case by simp
next
  case (Cons k ks)
  then obtain w where w: "WaitUnChoosedTxCNs g k = Some w" by auto
  let ?g1 = "upd_wait k (w\<lparr>ChildWait := put t a (ChildWait w)\<rparr>)
               (upd_node a (WaitPTX_update (put k True)) g)"
  have "linking a t ?g1"
    unfolding upd_wait_upd_node by (rule linking_register [OF Cons.prems(1) w]) simp_all
  moreover have "\<exists>w. WaitUnChoosedTxCNs ?g1 l = Some w" if "l \<in> set ks" for l
    using Cons.prems(2) that by auto
  ultimately show ?case using Cons.IH w by simp
qed

lemma linking_inherit:
  assumes "linking a t g" and "extends g h" and p: "TxCNs g u = Some p"
  shows "\<exists>g'. inherit_waits a t (map fst (WaitPTX (node g p))) h = Inr g' \<and> linking a t g'"
proof (rule inherit_waits_ok [OF linking_extends [OF assms(1,2)]])
  fix k assume "k \<in> set (map fst (WaitPTX (node g p)))"
  then have "k \<in> fst ` set (WaitPTX (node g p))" by simp
  then show "\<exists>w. WaitUnChoosedTxCNs h k = Some w"
    using waits_okD [OF wf_graphD(3) _ , of g u p k] assms unfolding linking_def extends_def by blast
qed

lemma linking_present_parent:
  assumes g: "linking a t g" and p: "TxCNs g k = Some p"
  shows "\<exists>g' b. present_parent a t k ptx p g = Inr (g', b) \<and> linking a t g'"
proof -
  define g1 where "g1 = (if write_mismatch ptx (WriteSet (ChoosedNode (node g p)))
                         then drop_tx a t (reject_node a g) else g)"
  have e1: "extends g g1"
    unfolding g1_def by (simp add: extends_trans [OF extends_reject_node extends_drop_tx])
  have a1: "a < length (nodes g1)" using linking_extends [OF g e1] by (simp add: linking_def)
  have "p < length (nodes g)" using g p by (auto simp: linking_def intro: wf_graph_tx)
  then have w1: "WaitPTX (node g1 p) = WaitPTX (node g p)" using e1 by (simp add: extends_def)
  have "extends g1 (add_parent a k (append_slice (NChildNodes (node g1 p)) a g1))"
    by (rule extends_trans [OF extends_append_slice [OF a1] extends_add_parent(1)])
  then obtain g3 where g3: "inherit_waits a t (map fst (WaitPTX (node g1 p)))
      (add_parent a k (append_slice (NChildNodes (node g1 p)) a g1)) = Inr g3" "linking a t g3"
    using linking_inherit [OF g extends_trans [OF e1] p] unfolding w1 by blast
  obtain g4 where g4: "inherit_waits a t (map fst (WaitPTX (node g1 p))) (reject_node a g1) = Inr g4"
      "linking a t g4"
    using linking_inherit [OF g extends_trans [OF e1 extends_reject_node] p] unfolding w1 by blast
  have "linking a t g1" "linking a t (drop_tx a t g1)" "linking a t (drop_tx a t (reject_node a g1))"
    "linking a t (reject_node a g1)"
    using linking_extends [OF linking_extends [OF g e1]] extends_trans [OF extends_reject_node extends_drop_tx]
      extends_drop_tx extends_reject_node linking_extends [OF g e1] by blast+
  then show ?thesis
    using g3 g4 unfolding present_parent_def g1_def [symmetric] Let_def by auto
qed

lemma linking_ptx_loop:
  "linking a t g \<Longrightarrow> \<exists>g'. ptx_loop a t ps g = Inr g' \<and> linking a t g'"
proof (induction ps arbitrary: g)
  case Nil
  then show ?case by simp
next
  case (Cons q ps)
  obtain k ptx where q: "q = (k, ptx)" by force
  show ?case
  proof (cases "TxCNs g k")
    case None
    then show ?thesis
      using Cons.IH linking_absent_parent [OF Cons.prems, of k ptx]
      by (cases "absent_parent a t k ptx g") (auto simp: q)
  next
    case (Some p)
    obtain g1 b where g1: "present_parent a t k ptx p g = Inr (g1, b)" "linking a t g1"
      using linking_present_parent [OF Cons.prems Some] by blast
    then show ?thesis using Cons.IH [OF g1(2)] Some by (cases b) (simp_all add: q)
  qed
qed

lemma linking_unptx_step:
  assumes "linking a t g"
  shows "linking a t (unptx_step a k g)"
proof -
  have e: "extends g (ensure_wait k g)" by (rule extends_ensure_wait)
  have "extends h (add_unparent a k (append_slice s a h))" if "linking a t h" for h s
    using that by (intro extends_trans [OF extends_append_slice extends_add_parent(2)])
      (simp add: linking_def)
  then have "linking a t (add_unparent a k (append_slice s a h))" if "linking a t h" for h s
    using that linking_extends by blast
  then show ?thesis
    using assms linking_extends [OF assms e]
    by (auto simp: unptx_step_def Let_def split: option.split)
qed

lemma linking_unptx_loop: "linking a t g \<Longrightarrow> linking a t (fold (unptx_step a) ks g)"
  by (induction ks arbitrary: g) (simp_all add: linking_unptx_step)

text \<open>A node that \<open>ProcessTX\<close> may be called with: in the store, and not reachable from the maps yet.\<close>

definition fresh_node :: "addr \<Rightarrow> TxConsensusGraph \<Rightarrow> bool" where
  "fresh_node a g \<longleftrightarrow> a < length (nodes g) \<and> a \<notin> ran (TxCNs g) \<and> WaitPTX (node g a) = []"

lemma fresh_extends:
  assumes "extends g h" "fresh_node a g"
  shows "fresh_node a h"
proof -
  have "TxCNs g u = Some p" if "TxCNs h u = Some p" for u p
    using that assms(1) unfolding extends_def map_le_def by (metis domI)
  then show ?thesis using assms unfolding fresh_node_def extends_def ran_def by auto
qed

lemma extends_admit: "extends g (admit a t g)"
proof -
  have s: "extends h (if c then upd_node a (State_update (\<lambda>_. 4)) h else h)" for c h
    by (simp add: extends_set_state)
  define g1 where "g1 = (if ConsensusState (ChoosedNode (node g a)) = 3
                         then upd_node a (State_update (\<lambda>_. 4)) g else g)"
  have e1: "extends g g1" unfolding g1_def by (rule s)
  show ?thesis
  proof (cases "WaitUnChoosedTxCNs g1 t")
    case None
    then have "extends g1 (admit a t g)"
      unfolding admit_def Let_def g1_def [symmetric]
      by (simp add: extends_new_wait)
    then show ?thesis by (rule extends_trans [OF e1])
  next
    case (Some w)
    define g2 where "g2 = (if DiffWaitWKV w then upd_node a (State_update (\<lambda>_. 4)) g1 else g1)"
    have e2: "extends g g2" unfolding g2_def by (rule extends_trans [OF e1 s])
    have w2: "WaitUnChoosedTxCNs g2 t = Some w" using Some by (simp add: g2_def)
    have "extends g2 (upd_wait t (w\<lparr>DiffWaitWKV := True\<rparr>) (upd_node a (State_update (\<lambda>_. 4)) g2))"
      by (rule extends_trans [OF extends_set_state extends_upd_wait]) (simp_all add: w2)
    then have "extends g2 (admit a t g)"
      unfolding admit_def Let_def g1_def [symmetric] Some option.case g2_def [symmetric] by simp
    then show ?thesis by (rule extends_trans [OF e2])
  qed
qed

lemma admit_ChoosedNode [simp]: "ChoosedNode (node (admit a t g) p) = ChoosedNode (node g p)"
proof -
  have u: "ChoosedNode (node (upd_node a (State_update f) h) p) = ChoosedNode (node h p)" for f h
    unfolding upd_node_frame by (rule nth_update_field) simp
  show ?thesis
    by (simp add: admit_def Let_def u del: upd_node_frame(1) split: option.split)
qed

text \<open>The outcomes of \<open>rkv_consensus\<close> other than the panic.\<close>

lemma rkv_consensus_cases:
  assumes "rkv_consensus rng a t g = Inr h"
  obtains (same) "h = g"
    | (reject) "h = add_reject_entry a t (reject_node a g)"
    | (keep) f where "h = upd_node a (ChoosedNode_update (PTx_update f)) g"
        "ConsensusState (ChoosedNode (node g a)) = 2"
  using assms by (auto simp: rkv_consensus_def split: if_splits)

lemma rkv_consensus_other:
  "ConsensusState (ChoosedNode (node g a)) \<noteq> 2 \<Longrightarrow> rkv_consensus rng a t g = Inr g"
  by (simp add: rkv_consensus_def)

lemma extends_rkv_consensus:
  assumes "rkv_consensus rng a t g = Inr h"
  shows "extends g h"
  using assms
proof (cases rule: rkv_consensus_cases)
  case reject
  then show ?thesis by (simp add: extends_trans [OF extends_reject_node extends_add_reject_entry])
next
  case (keep f)
  show ?thesis unfolding keep(1) by (rule extends_upd_node) simp_all
qed simp

lemma linking_start:
  assumes "wf_graph g" "fresh_node a g"
  shows "linking a t (g\<lparr>TxCNs := (TxCNs g)(t \<mapsto> a)\<rparr>)"
proof -
  define h where "h = g\<lparr>TxCNs := (TxCNs g)(t \<mapsto> a)\<rparr>"
  have h: "TxCNs h = (TxCNs g)(t \<mapsto> a)" "nodes h = nodes g" "slices h = slices g"
    "WaitUnChoosedTxCNs h = WaitUnChoosedTxCNs g" by (simp_all add: h_def)
  have a: "a < length (nodes g)" "WaitPTX (node g a) = []" "\<And>u. TxCNs g u \<noteq> Some a"
    using assms(2) by (auto simp: fresh_node_def ran_def)
  have "waits_ok h" unfolding waits_ok_def h
  proof (intro allI impI ballI)
    fix u p k assume "((TxCNs g)(t \<mapsto> a)) u = Some p" and "k \<in> fst ` set (WaitPTX (node g p))"
    then show "\<exists>w. WaitUnChoosedTxCNs g k = Some w \<and> map_of (ChildWait w) u = Some p"
      using waits_okD [OF wf_graphD(3) [OF assms(1)], of u p k] a(2) by (cases "u = t") auto
  qed
  moreover have "wf_refs h" "wf_slices h"
    using assms(1) a(1) by (auto simp: wf_graph_def wf_refs_def wf_slices_def ran_def h)
  moreover have "\<forall>u p. TxCNs h u = Some p \<longrightarrow> (u = t \<longleftrightarrow> p = a)"
    using a(3) by (auto simp: h(1))
  moreover have "a < length (nodes h)" using a(1) by (simp add: h)
  ultimately have "linking a t h" unfolding linking_def wf_graph_def by (intro conjI)
  then show ?thesis unfolding h_def .
qed

text \<open>The state in which \<open>link\<close> starts its loop over the parents, and that the rest of it returns.\<close>

lemma link_loop_ok:
  assumes "wf_graph g" "fresh_node a g"
  shows "\<exists>g'. bindE (ptx_loop a t ps (g\<lparr>TxCNs := (TxCNs g)(t \<mapsto> a)\<rparr>))
      (\<lambda>g2. Inr (if State (node g2 a) \<noteq> 4 then fold (unptx_step a) (ks g2) g2 else g2)) = Inr g'
    \<and> linking a t g'"
proof -
  obtain g2 where g2: "ptx_loop a t ps (g\<lparr>TxCNs := (TxCNs g)(t \<mapsto> a)\<rparr>) = Inr g2" "linking a t g2"
    using linking_ptx_loop [OF linking_start [OF assms]] by blast
  then have "linking a t (fold (unptx_step a) (ks g2) g2)" by (simp add: linking_unptx_loop)
  then show ?thesis using g2 by simp
qed

lemma link_ok:
  assumes wf: "wf_graph g" and f: "fresh_node a g" and r: "rkv_consensus rng a t g = Inr g1"
  shows "\<exists>g'. link rng a t g = Inr g' \<and> wf_graph g' \<and> a < length (nodes g')"
proof -
  have w1: "wf_graph g1" by (rule extends_wf [OF extends_rkv_consensus [OF r] wf])
  have f1: "fresh_node a g1" by (rule fresh_extends [OF extends_rkv_consensus [OF r] f])
  obtain g2 where g2: "bindE (ptx_loop a t (rng (PTx (ChoosedNode (node g1 a)))) (g1\<lparr>TxCNs := (TxCNs g1)(t \<mapsto> a)\<rparr>))
      (\<lambda>g2. Inr (if State (node g2 a) \<noteq> 4
        then fold (unptx_step a) (map fst (rng (UNPTx (ChoosedNode (node g2 a))))) g2 else g2)) = Inr g2"
      "linking a t g2"
    using link_loop_ok [OF w1 f1, of t "rng (PTx (ChoosedNode (node g1 a)))"
        "\<lambda>g2. map fst (rng (UNPTx (ChoosedNode (node g2 a))))"] by blast
  have ok: "wf_graph g2" "a < length (nodes g2)" using g2(2) by (simp_all add: linking_def)
  consider "link rng a t g = Inr g" | "link rng a t g = Inr g1" | "link rng a t g = Inr g2"
    using g2(1) unfolding link_def r bindE_simps by (metis (no_types, lifting))
  then show ?thesis using wf f w1 f1 ok by cases (auto simp: fresh_node_def)
qed

lemma link_wf:
  assumes wf: "wf_graph g" and f: "fresh_node a g" and l: "link rng a t g = Inr h"
  shows "wf_graph h" and "a < length (nodes h)"
proof -
  have "wf_graph h \<and> a < length (nodes h)"
  proof (cases "rkv_consensus rng a t g")
    case (Inl e)
    then have "h = g" using l by (auto simp: link_def split: if_splits)
    then show ?thesis using wf f by (simp add: fresh_node_def)
  next
    case (Inr g1)
    then show ?thesis using link_ok [OF wf f Inr] l by auto
  qed
  then show "wf_graph h" and "a < length (nodes h)" by simp_all
qed

text \<open>The loop of lines 547 to 549, which deletes a resolved transaction from \<open>WaitPTX\<close>.\<close>

abbreviation drop_waits :: "string \<Rightarrow> addr list \<Rightarrow> TxConsensusGraph \<Rightarrow> TxConsensusGraph" where
  "drop_waits t cs g \<equiv> fold (\<lambda>c. upd_node c (WaitPTX_update (del t))) cs g"

lemma drop_waits_frame [simp]:
  "length (nodes (drop_waits t cs g)) = length (nodes g)"
  "slices (drop_waits t cs g) = slices g"
  "TxCNs (drop_waits t cs g) = TxCNs g"
  "WaitUnChoosedTxCNs (drop_waits t cs g) = WaitUnChoosedTxCNs g"
  "GState (drop_waits t cs g) = GState g"
  "ReadyBatch (drop_waits t cs g) = ReadyBatch g"
  "NumGCommittedNode (drop_waits t cs g) = NumGCommittedNode g"
  by (induction cs arbitrary: g) simp_all

lemma drop_waits_node:
  "p < length (nodes g) \<Longrightarrow>
     node (drop_waits t cs g) p =
       (if p \<in> set cs then (node g p)\<lparr>WaitPTX := del t (WaitPTX (node g p))\<rparr> else node g p)"
proof (induction cs arbitrary: g)
  case (Cons c cs)
  then show ?case
    using Cons.IH [of "upd_node c (WaitPTX_update (del t)) g"]
    by (cases "p = c") (simp_all add: delete_idem)
qed simp

lemma drop_waits_field:
  assumes "\<And>n m. F (n\<lparr>WaitPTX := m\<rparr>) = F n" and "p < length (nodes g)"
  shows "F (node (drop_waits t cs g) p) = F (node g p)"
  using assms drop_waits_node [of p g t cs] by simp

lemma resolve_wait_wf:
  assumes wf: "wf_graph g" and a: "a < length (nodes g)"
  shows "wf_graph (resolve_wait a t g)" and "length (nodes (resolve_wait a t g)) = length (nodes g)"
proof -
  show "length (nodes (resolve_wait a t g)) = length (nodes g)"
    by (simp add: resolve_wait_def Let_def split: option.split)
  show "wf_graph (resolve_wait a t g)"
  proof (cases "WaitUnChoosedTxCNs g t")
    case None
    then show ?thesis using wf by (simp add: resolve_wait_def)
  next
    case (Some w)
    define g1 where
      "g1 = upd_node a (\<lambda>n. n\<lparr>NChildNodes := wNChildNodes w, UNChildNodes := wUNChildNodes w\<rparr>) g"
    have g1: "TxCNs g1 = TxCNs g" "slices g1 = slices g" "length (nodes g1) = length (nodes g)"
      "WaitUnChoosedTxCNs g1 = WaitUnChoosedTxCNs g" by (simp_all add: g1_def)
    have wptx: "WaitPTX (node g1 p) = WaitPTX (node g p)" for p
      unfolding g1_def upd_node_frame by (rule nth_update_field) simp
    have refs: "wNChildNodes w < length (slices g)" "wUNChildNodes w < length (slices g)"
      using wf Some by (auto simp: wf_graph_def wf_refs_def ran_def)
    have sl1: "wf_slices g1"
      using wf_graphD(1) [OF wf] refs a unfolding wf_slices_def g1
      by (auto simp: g1_def dest!: in_set_update)
    have wf1: "wf_graph g1"
      using wf sl1 unfolding wf_graph_def wf_refs_def waits_ok_def g1 wptx by blast
    show ?thesis
    proof (cases "State (node g1 a) = 4")
      case True
      have "extends (g1\<lparr>NumChangedState := NumChangedState g1 + ChildNum w\<rparr>)
          (upd_wait t (w\<lparr>wChoosedNode := Some a\<rparr>)
             (g1\<lparr>NumChangedState := NumChangedState g1 + ChildNum w\<rparr>))"
        using Some by (intro extends_upd_wait) (simp_all add: g1)
      then show ?thesis
        using extends_wf [OF extends_trans [OF extends_GState_etc] wf1] True Some
        unfolding resolve_wait_def g1_def [symmetric] by (simp add: Let_def g1_def)
    next
      case False
      define h where "h = (drop_waits t (map snd (ChildWait w)) g1)
                            \<lparr>WaitUnChoosedTxCNs := (WaitUnChoosedTxCNs g1)(t := None)\<rparr>"
      have h: "TxCNs h = TxCNs g" "slices h = slices g" "length (nodes h) = length (nodes g)"
        "WaitUnChoosedTxCNs h = (WaitUnChoosedTxCNs g)(t := None)" by (simp_all add: h_def g1)
      have nh: "node h p = node (drop_waits t (map snd (ChildWait w)) g1) p" for p
        by (simp add: h_def)
      have "waits_ok h" unfolding waits_ok_def
      proof (intro allI impI ballI)
        fix u p k assume u: "TxCNs h u = Some p" and k: "k \<in> fst ` set (WaitPTX (node h p))"
        have u1: "TxCNs g1 u = Some p" using u by (simp add: h g1)
        have p: "p < length (nodes g1)" using wf1 u1 by (rule wf_graph_tx)
        have k1: "k \<in> fst ` set (WaitPTX (node g1 p))"
          "p \<in> snd ` set (ChildWait w) \<Longrightarrow> k \<noteq> t"
          using k unfolding nh drop_waits_node [OF p] by (auto simp: keys_del split: if_splits)
        obtain v where v: "WaitUnChoosedTxCNs g1 k = Some v" "map_of (ChildWait v) u = Some p"
          using waits_okD [OF wf_graphD(3) [OF wf1] u1 k1(1)] by blast
        have "k \<noteq> t"
        proof
          assume "k = t"
          then have "map_of (ChildWait w) u = Some p" using v Some by (simp add: g1)
          then have "p \<in> snd ` set (ChildWait w)" by (force dest: map_of_SomeD)
          then show False using k1(2) \<open>k = t\<close> by simp
        qed
        then show "\<exists>w. WaitUnChoosedTxCNs h k = Some w \<and> map_of (ChildWait w) u = Some p"
          using v by (simp add: h g1)
      qed
      moreover have "wf_refs h" using wf_graphD(2) [OF wf] unfolding wf_refs_def h
        by (auto simp: ran_def)
      moreover have "wf_slices h"
      proof -
        have "NChildNodes (node h p) = NChildNodes (node g1 p)"
          "UNChildNodes (node h p) = UNChildNodes (node g1 p)" if "p < length (nodes g1)" for p
          unfolding nh using that by (simp_all add: drop_waits_field)
        then show ?thesis
          using sl1 unfolding wf_slices_def h g1 by (metis g1(3) h(3) in_set_conv_nth)
      qed
      moreover have "resolve_wait a t g = h"
        unfolding resolve_wait_def Some option.case g1_def [symmetric] Let_def h_def using False by simp
      ultimately show ?thesis by auto
    qed
  qed
qed

lemma finish_ok:
  assumes "wf_graph g" "a < length (nodes g)"
  shows "\<exists>g'. finish a g = Inr g' \<and> wf_graph g' \<and> length (nodes g') = length (nodes g)"
proof -
  have c: "same_shape g (commit_node a g)" using assms(2) by (rule same_shape_commit)
  then obtain h where h: "run_Delete a (commit_node a g) = Inr h" "same_shape (commit_node a g) h"
    using run_Delete_returns [of "commit_node a g" a] same_shape_wf [OF c] assms
    by (auto simp: wf_graph_def)
  then have sh: "same_shape g h" using c by (blast intro: same_shape_trans)
  obtain h' where h': "run_Delete a g = Inr h'" "same_shape g h'"
    using run_Delete_returns [of g a] assms by (auto simp: wf_graph_def)
  show ?thesis
    using assms(1) h(1) h'(1) same_shape_wf_graph [OF sh] same_shape_wf_graph [OF h'(2)]
      same_shape_length [OF sh] same_shape_length [OF h'(2)]
    by (simp add: finish_def)
qed

lemma ProcessTX_ok:
  assumes "wf_graph g" "fresh_node a g" "ConsensusState (ChoosedNode (node g a)) \<noteq> 2"
  shows "\<exists>g'. ProcessTX rng a g = Inr g' \<and> wf_graph g'"
proof -
  let ?t = "TxId (ChoosedNode (node g a))"
  have r: "rkv_consensus rng a ?t (admit a ?t g) = Inr (admit a ?t g)"
    using assms(3) by (intro rkv_consensus_other) simp
  obtain g1 where g1: "link rng a ?t (admit a ?t g) = Inr g1" "wf_graph g1" "a < length (nodes g1)"
    using link_ok [OF extends_wf [OF extends_admit assms(1)] fresh_extends [OF extends_admit assms(2)] r]
    by blast
  define g2 where "g2 = (if WaitUnChoosedTxCNs g ?t \<noteq> None then resolve_wait a ?t g1 else g1)"
  have "wf_graph g2" "a < length (nodes g2)"
    unfolding g2_def using g1 resolve_wait_wf [OF g1(2,3)] by auto
  then obtain g3 where "finish a g2 = Inr g3" "wf_graph g3" using finish_ok by blast
  then show ?thesis unfolding ProcessTX_def Let_def g1(1) g2_def by simp
qed

lemma new_txcn_fresh:
  assumes "wf_graph g"
  shows "wf_graph (new_txcn gv g)" and "fresh_node (length (nodes g)) (new_txcn gv g)"
proof -
  have r: "p < length (nodes g)" if "TxCNs g t = Some p" for t p
    using assms that by (rule wf_graph_tx)
  have "waits_ok (new_txcn gv g)"
    using wf_graphD(3) [OF assms] r unfolding waits_ok_def
    by (simp add: new_txcn_def nth_append)
  moreover have "wf_slices (new_txcn gv g)" "wf_refs (new_txcn gv g)"
    using assms by (fastforce simp: wf_graph_def wf_slices_def wf_refs_def new_txcn_def)+
  ultimately show "wf_graph (new_txcn gv g)" by blast
  show "fresh_node (length (nodes g)) (new_txcn gv g)"
    using r by (fastforce simp: fresh_node_def new_txcn_def ran_def)
qed

end
