(* ===== verification/CE_Log.thy ===== *)
theory CE_Log
  imports CE_Invariant
begin

text \<open>
  The log of the conflict graph: what \<open>Delete\<close> and \<open>ProcessTX\<close> append to \<open>ReadyBatch\<close>. The specification
  is a sequence of committed transactions whose writes are replayed one after the other. The
  lemmas show that the cascade of \<open>Delete\<close> refines it: \<open>ReadyBatch\<close> grows by the committed nodes,
  \<open>GState\<close> is the replay of the same sequence, and a node is in the sequence at most once.
\<close>

subsection \<open>What a cascade commits\<close>

definition replay :: "GVNode list \<Rightarrow> (string \<rightharpoonup> string) \<Rightarrow> (string \<rightharpoonup> string)" where
  "replay gvs m = fold (\<lambda>gv. write_state (WriteSet gv)) gvs m"

lemma replay_simps [simp]:
  "replay [] m = m"
  "replay (gv # gvs) m = replay gvs (write_state (WriteSet gv) m)"
  "replay (gvs @ hvs) m = replay hvs (replay gvs m)"
  by (simp_all add: replay_def)

abbreviation txs :: "TxConsensusGraph \<Rightarrow> addr list \<Rightarrow> GVNode list" where
  "txs g cs \<equiv> map (\<lambda>c. ChoosedNode (node g c)) cs"

text \<open>
  \<open>commits g h cs\<close>: from \<open>g\<close> to \<open>h\<close> exactly the nodes \<open>cs\<close> are committed, in this order. They are
  the nodes whose count of parents reaches zero, each of them once.
\<close>

definition commits :: "TxConsensusGraph \<Rightarrow> TxConsensusGraph \<Rightarrow> addr list \<Rightarrow> bool" where
  "commits g h cs \<longleftrightarrow>
     same_shape g h \<and>
     ReadyBatch h = ReadyBatch g @ map TxResult (txs g cs) \<and>
     NumGCommittedNode h = NumGCommittedNode g + int (length cs) \<and>
     GState h = replay (txs g cs) (GState g) \<and>
     distinct cs \<and>
     set cs = {c. c < length (nodes g) \<and> 0 < ParentNum (node g c) \<and> ParentNum (node h c) \<le> 0} \<and>
     (\<forall>c < length (nodes g). ParentNum (node h c) \<le> ParentNum (node g c))"

lemma commits_shape: "commits g h cs \<Longrightarrow> same_shape g h"
  by (simp add: commits_def)

lemma commits_refl: "commits g g []"
  by (auto simp: commits_def)

lemma txs_same_shape:
  assumes "same_shape g h" "set cs \<subseteq> {..<length (nodes g)}"
  shows "txs h cs = txs g cs"
  using assms same_shape_node(1) by (auto simp: subset_iff)

lemma commits_bound: "commits g h cs \<Longrightarrow> set cs \<subseteq> {..<length (nodes g)}"
  by (auto simp: commits_def)

lemma commits_trans:
  assumes "commits f g cs" "commits g h ds"
  shows "commits f h (cs @ ds)"
proof -
  have len: "length (nodes g) = length (nodes f)"
    using assms(1) by (simp add: commits_def same_shape_length)
  have t: "txs g ds = txs f ds"
    using txs_same_shape [OF commits_shape [OF assms(1)]] commits_bound [OF assms(2)] len by simp
  have sets: "set cs = {c. c < length (nodes f) \<and> 0 < ParentNum (node f c) \<and> ParentNum (node g c) \<le> 0}"
    "set ds = {c. c < length (nodes f) \<and> 0 < ParentNum (node g c) \<and> ParentNum (node h c) \<le> 0}"
    using assms len by (auto simp: commits_def)
  have le: "\<forall>c < length (nodes f). ParentNum (node g c) \<le> ParentNum (node f c)"
    "\<forall>c < length (nodes f). ParentNum (node h c) \<le> ParentNum (node g c)"
    using assms len by (auto simp: commits_def)
  have "set (cs @ ds) = {c. c < length (nodes f) \<and> 0 < ParentNum (node f c) \<and> ParentNum (node h c) \<le> 0}"
    unfolding set_append sets using le by (auto; fastforce)
  moreover have "distinct (cs @ ds)"
    using assms sets by (auto simp: commits_def)
  moreover have "\<forall>c < length (nodes f). ParentNum (node h c) \<le> ParentNum (node f c)"
    using le by (meson order_trans)
  ultimately show ?thesis
    using assms t same_shape_trans unfolding commits_def by (auto simp del: set_append)
qed

lemma commits_no_count:
  assumes "same_shape g h" "ReadyBatch h = ReadyBatch g" "GState h = GState g"
    "NumGCommittedNode h = NumGCommittedNode g"
    "\<And>c. c < length (nodes g) \<Longrightarrow> ParentNum (node h c) = ParentNum (node g c)"
  shows "commits g h []"
  using assms by (auto simp: commits_def)

text \<open>What \<open>Delete\<close> is called with: a committed node whose writes are still to be made, or a rejected one.\<close>

definition settle :: "addr \<Rightarrow> TxConsensusGraph \<Rightarrow> TxConsensusGraph" where
  "settle d g =
     (if State (node g d) = 1
      then g\<lparr>GState := write_state (WriteSet (ChoosedNode (node g d))) (GState g)\<rparr> else g)"

lemma settle_frame [simp]:
  "nodes (settle d g) = nodes g" "slices (settle d g) = slices g"
  "ReadyBatch (settle d g) = ReadyBatch g" "NumGCommittedNode (settle d g) = NumGCommittedNode g"
  "same_shape g (settle d g)"
  by (simp_all add: settle_def same_shape_def)

definition logs :: "(addr \<Rightarrow> TxConsensusGraph \<Rightarrow> TxConsensusGraph option) \<Rightarrow> bool" where
  "logs rec \<longleftrightarrow>
     (\<forall>d g g'. wf_slices g \<longrightarrow> d < length (nodes g) \<longrightarrow> rec d g = Some g' \<longrightarrow>
        (\<exists>cs. commits (settle d g) g' cs))"

lemma logsD:
  "logs rec \<Longrightarrow> wf_slices g \<Longrightarrow> d < length (nodes g) \<Longrightarrow> rec d g = Some g' \<Longrightarrow>
     \<exists>cs. commits (settle d g) g' cs"
  unfolding logs_def by blast

lemma count_down_logs:
  assumes "logs rec" "wf_slices g" "c < length (nodes g)" "count_down rec f c g = Some g'"
    and f: "\<And>n. node_shape (f n) = node_shape n" "\<And>n. ParentNum (f n) = ParentNum n - 1"
  shows "\<exists>cs. commits g g' cs"
proof -
  let ?g1 = "upd_node c f g" and ?g2 = "commit_node c (upd_node c f g)"
  have s1: "same_shape g ?g1" using assms(3) f(1) by (rule same_shape_upd)
  have s2: "same_shape ?g1 ?g2" using assms(3) by (intro same_shape_commit) simp
  have ch: "ChoosedNode (f n) = ChoosedNode n" for n using f(1) [of n] by (simp add: node_shape_def)
  show ?thesis
  proof (cases "ParentNum (node ?g1 c) = 0")
    case False
    have "ParentNum (node ?g1 x) = (if x = c then ParentNum (node g x) - 1 else ParentNum (node g x))" for x
      using assms(3) f(2) by simp
    moreover have "ParentNum (node g c) \<noteq> 1" using False assms(3) f(2) by simp
    ultimately have "commits g ?g1 []"
      using s1 unfolding commits_def by (auto split: if_splits)
    then show ?thesis using False assms(4) by (auto simp: count_down_def)
  next
    case True
    have "wf_slices ?g2" using s1 s2 assms(2) same_shape_trans same_shape_wf by blast
    then obtain cs where cs: "commits (settle c ?g2) g' cs"
      using logsD [OF assms(1), of ?g2 c g'] True assms(3,4) by (auto simp: count_down_def)
    have pn: "ParentNum (node g c) = 1" using True assms(3) f(2) by simp
    let ?g3 = "settle c ?g2"
    have pn3: "ParentNum (node ?g3 x) = (if x = c then 0 else ParentNum (node g x))" for x
      using assms(3) f(2) pn by simp
    have "same_shape g ?g3" using s1 s2 same_shape_trans settle_frame(5) by blast
    then have "commits g ?g3 [c]"
      unfolding commits_def using assms(3) pn pn3 ch by (auto simp: settle_def split: if_splits)
    then show ?thesis using cs commits_trans by blast
  qed
qed

lemma n_child_reject_logs:
  assumes "logs rec" "wf_slices g" "c < length (nodes g)" "n_child_reject rec c g = Some g'"
  shows "\<exists>cs. commits g g' cs"
proof (cases "State (node g c) = 4")
  case True
  then show ?thesis using assms(4) commits_refl by (auto simp: n_child_reject_def)
next
  case False
  let ?g1 = "upd_node c (State_update (\<lambda>_. 4)) g"
  have s1: "same_shape g ?g1" using assms(3) by (intro same_shape_upd) (simp_all add: node_shape_def)
  have "settle c ?g1 = ?g1" using assms(3) by (simp add: settle_def)
  then obtain cs where cs: "commits ?g1 g' cs"
    using logsD [OF assms(1), of ?g1 c g'] same_shape_wf [OF s1 assms(2)] False assms(3,4)
    by (auto simp: n_child_reject_def)
  have "commits g ?g1 []"
    using s1 by (rule commits_no_count) (simp_all add: nth_update_field)
  then show ?thesis using commits_trans [OF _ cs] by fastforce
qed

lemma loop_logs:
  assumes "foldM f cs g = Some g'" "wf_slices g" "\<And>c. c \<in> set cs \<Longrightarrow> c < length (nodes g)"
    and step: "\<And>c h h'. wf_slices h \<Longrightarrow> c < length (nodes h) \<Longrightarrow> f c h = Some h' \<Longrightarrow> \<exists>ds. commits h h' ds"
  shows "\<exists>ds. commits g g' ds"
proof (rule foldM_rel [OF assms(1)])
  show "\<exists>ds. commits g g ds" using commits_refl by blast
next
  fix c h h' assume c: "c \<in> set cs" "\<exists>ds. commits g h ds" "f c h = Some h'"
  then obtain ds where ds: "commits g h ds" by blast
  have "wf_slices h" using commits_shape [OF ds] assms(2) by (rule same_shape_wf)
  moreover have "c < length (nodes h)"
    using assms(3) c(1) same_shape_length [OF commits_shape [OF ds]] by simp
  ultimately show "\<exists>ds. commits g h' ds" using step c(3) ds commits_trans by blast
qed

lemma Delete_logs: "logs (Delete fuel)"
proof (induction fuel)
  case 0
  then show ?case by (simp add: logs_def)
next
  case (Suc fuel)
  show ?case unfolding logs_def
  proof (intro allI impI)
    fix d g g' assume wf: "wf_slices g" and d: "d < length (nodes g)" and D: "Delete (Suc fuel) d g = Some g'"
    let ?t = "TxId (ChoosedNode (node g d))" and ?g0 = "settle d g"
    have D': "(case foldM (un_child (Delete fuel) ?t) (unchildren ?g0 d) ?g0 of None \<Rightarrow> None
       | Some g1 \<Rightarrow> if State (node g1 d) = 4
           then foldM (n_child_reject (Delete fuel)) (nchildren g1 d) g1
           else foldM (n_child_commit (Delete fuel) ?t) (nchildren g1 d) g1) = Some g'"
      using D unfolding Delete.simps Let_def settle_def .
    then obtain g1 where g1: "foldM (un_child (Delete fuel) ?t) (unchildren ?g0 d) ?g0 = Some g1"
      by (auto split: option.splits)
    have wf0: "wf_slices ?g0" using settle_frame(5) wf by (rule same_shape_wf)
    obtain ds where ds: "commits ?g0 g1 ds"
      using loop_logs [OF g1 wf0] count_down_logs [OF Suc.IH] wf_slices_child(2) [OF wf0] d
      by (auto simp: child_count_down node_shape_def)
    have wf1: "wf_slices g1" using commits_shape [OF ds] wf0 by (rule same_shape_wf)
    have d1: "d < length (nodes g1)" using d same_shape_length [OF commits_shape [OF ds]] by simp
    have "\<exists>es. commits g1 g' es"
    proof (cases "State (node g1 d) = 4")
      case True
      then have "foldM (n_child_reject (Delete fuel)) (nchildren g1 d) g1 = Some g'"
        using D' g1 by simp
      then show ?thesis using wf1 wf_slices_child(1) [OF wf1 d1] n_child_reject_logs [OF Suc.IH]
        by (rule loop_logs)
    next
      case False
      then have "foldM (n_child_commit (Delete fuel) ?t) (nchildren g1 d) g1 = Some g'"
        using D' g1 by simp
      then show ?thesis using wf1 wf_slices_child(1) [OF wf1 d1]
        by (rule loop_logs) (auto simp: child_count_down node_shape_def intro!: count_down_logs [OF Suc.IH])
    qed
    then show "\<exists>cs. commits (settle d g) g' cs" using ds commits_trans by blast
  qed
qed

lemma run_Delete_logs:
  assumes "wf_slices g" "d < length (nodes g)" "run_Delete d g = Inr g'"
  shows "\<exists>cs. commits (settle d g) g' cs"
  using logsD [OF Delete_logs assms(1,2)] assms(3)
  by (auto simp: run_Delete_def simp del: Delete.simps split: option.splits)

subsection \<open>Linking commits nothing\<close>

text \<open>
  \<open>quiet a g h\<close>: neither the log, the state nor the transactions change, and no count of parents but
  that of \<open>a\<close>, which may grow. Of a transaction agreed on by its reads (\<open>ConsensusState\<close> 2) the parents are
  left out of the \<open>content\<close>: \<open>rkv_consensus\<close> rewrites them.
\<close>

definition content :: "TxConsensusNode \<Rightarrow> GVNode" where
  "content n =
     (if ConsensusState (ChoosedNode n) = 2 then (ChoosedNode n)\<lparr>PTx := []\<rparr> else ChoosedNode n)"

definition payload :: "TxConsensusNode \<Rightarrow> Envelope \<times> (string, GVWriteKV) gomap" where
  "payload n = (TxResult (ChoosedNode n), WriteSet (ChoosedNode n))"

lemma content_cong: "ChoosedNode m = ChoosedNode n \<Longrightarrow> content m = content n"
  by (simp add: content_def)

lemma content_eq:
  assumes "content m = content n"
  shows "TxResult (ChoosedNode m) = TxResult (ChoosedNode n)"
    "WriteSet (ChoosedNode m) = WriteSet (ChoosedNode n)"
    "payload m = payload n"
    "ConsensusState (ChoosedNode n) \<noteq> 2 \<Longrightarrow> ChoosedNode m = ChoosedNode n"
proof -
  have c: "TxResult (ChoosedNode n) = TxResult (content n)" "WriteSet (ChoosedNode n) = WriteSet (content n)"
    "ConsensusState (ChoosedNode n) = ConsensusState (content n)" for n by (simp_all add: content_def)
  show "TxResult (ChoosedNode m) = TxResult (ChoosedNode n)"
    "WriteSet (ChoosedNode m) = WriteSet (ChoosedNode n)" using c(1,2) assms by metis+
  then show "payload m = payload n" by (simp add: payload_def)
  assume n: "ConsensusState (ChoosedNode n) \<noteq> 2"
  then have "ConsensusState (ChoosedNode m) \<noteq> 2" using c(3) assms by metis
  then show "ChoosedNode m = ChoosedNode n" using assms n by (simp add: content_def)
qed

definition quiet :: "addr \<Rightarrow> TxConsensusGraph \<Rightarrow> TxConsensusGraph \<Rightarrow> bool" where
  "quiet a g h \<longleftrightarrow>
     ReadyBatch h = ReadyBatch g \<and> GState h = GState g \<and> NumGCommittedNode h = NumGCommittedNode g \<and>
     length (nodes h) = length (nodes g) \<and>
     (\<forall>p < length (nodes g). content (node h p) = content (node g p)) \<and>
     (\<forall>p < length (nodes g). p \<noteq> a \<longrightarrow> ParentNum (node h p) = ParentNum (node g p)) \<and>
     ParentNum (node g a) \<le> ParentNum (node h a)"

lemma quiet_refl [simp]: "quiet a g g"
  by (simp add: quiet_def)

lemma quiet_trans: "quiet a f g \<Longrightarrow> quiet a g h \<Longrightarrow> quiet a f h"
  unfolding quiet_def by auto

lemma quiet_upd_own:
  assumes "content (f (node g a)) = content (node g a)" "\<And>n. ParentNum n \<le> ParentNum (f n)"
  shows "quiet a g (upd_node a f g)"
proof -
  have "content ((nodes g)[a := f (node g a)] ! p) = content (node g p)" for p
    using assms(1) by (rule nth_update_field)
  moreover have "ParentNum (node g a) \<le> ParentNum ((nodes g)[a := f (node g a)] ! a)"
    using assms(2) by (cases "a < length (nodes g)") (simp_all add: not_less list_update_beyond)
  ultimately show ?thesis by (simp add: quiet_def)
qed

lemma quiet_upd_wait [simp]: "quiet a g (upd_wait k w g)"
  by (simp add: quiet_def)

lemma quiet_upd_key [simp]: "quiet a g (g\<lparr>TxCNs := m\<rparr>)" "quiet a g (g\<lparr>WaitUnChoosedTxCNs := w\<rparr>)"
  "quiet a g (g\<lparr>NumChangedState := x\<rparr>)" "quiet a g (g\<lparr>slices := s\<rparr>)"
  by (simp_all add: quiet_def)

lemma quiet_append_slice [simp]: "quiet a g (append_slice s c g)"
  by (simp add: append_slice_def)

lemma quiet_new_wait [simp]: "quiet a g (new_wait k b ch g)"
  unfolding new_wait_def by (rule quiet_trans [OF quiet_upd_key(4) quiet_upd_wait])

lemma quiet_set_state [simp]: "quiet a g (upd_node a (State_update f) g)"
  by (rule quiet_upd_own) (simp_all add: content_def)

lemma quiet_reject_node [simp]: "quiet a g (reject_node a g)"
  unfolding reject_node_def by (rule quiet_trans [OF quiet_upd_key(3) quiet_set_state])

lemma quiet_entries [simp]:
  "quiet a g (add_reject_entry b t g)" "quiet a g (ensure_wait k g)"
  by (auto simp: add_reject_entry_def ensure_wait_def split: option.split)

lemma quiet_drop_tx [simp]: "quiet a g (drop_tx b t g)"
  unfolding drop_tx_def Let_def by (rule quiet_trans [OF quiet_entries(1) quiet_upd_key(1)])

lemma quiet_parents [simp]: "quiet a g (add_parent a k g)" "quiet a g (add_unparent a k g)"
  unfolding add_parent_def add_unparent_def by (rule quiet_upd_own; simp add: content_def)+

lemma quiet_wait_own [simp]: "quiet a g (upd_node a (WaitPTX_update f) g)"
  by (rule quiet_upd_own) (simp_all add: content_def)

lemma quiet_upd_waits: "quiet a g (upd_node c (WaitPTX_update f) g)"
proof -
  have "content ((nodes g)[c := WaitPTX_update f (node g c)] ! p) = content (node g p)"
    "ParentNum ((nodes g)[c := WaitPTX_update f (node g c)] ! p) = ParentNum (node g p)" for p
    by (rule nth_update_field, simp add: content_def)+
  then show ?thesis by (simp add: quiet_def)
qed

lemma quiet_drop_waits: "quiet a g (drop_waits t cs g)"
  by (induction cs arbitrary: g) (auto intro: quiet_trans quiet_upd_waits)

lemma quiet_absent_parent: "quiet a g (fst (absent_parent a t k ptx g))"
proof -
  let ?g1 = "ensure_wait k g"
  let ?w = "the (WaitUnChoosedTxCNs ?g1 k)"
  let ?w1 = "?w\<lparr>ChildNum := ChildNum ?w + 1, ChildWait := put t a (ChildWait ?w)\<rparr>"
  let ?g2 = "upd_node a (WaitPTX_update (put k True)) (upd_wait k ?w1 ?g1)"
  have g2: "quiet a g ?g2"
    by (rule quiet_trans [OF quiet_trans [OF quiet_entries(2) quiet_upd_wait] quiet_wait_own])
  have "quiet a g (upd_wait k (merge_wait (KV ptx) ?w1) (add_parent a k (append_slice (wNChildNodes ?w1) a ?g2)))"
    by (rule quiet_trans [OF quiet_trans [OF quiet_trans [OF g2 quiet_append_slice] quiet_parents(1)] quiet_upd_wait])
  then show ?thesis
    using quiet_trans [OF g2 quiet_reject_node] unfolding absent_parent_def Let_def by simp
qed

lemma quiet_inherit_waits: "inherit_waits a t ks g = Inr h \<Longrightarrow> quiet a g h"
proof (induction ks arbitrary: g)
  case (Cons k ks)
  then obtain w where w: "WaitUnChoosedTxCNs g k = Some w" by (auto split: option.splits)
  then have "quiet a (upd_wait k (w\<lparr>ChildWait := put t a (ChildWait w)\<rparr>)
               (upd_node a (WaitPTX_update (put k True)) g)) h"
    using Cons by simp
  then show ?case using quiet_trans [OF quiet_trans [OF quiet_wait_own quiet_upd_wait]] by blast
qed simp

lemma quiet_present_parent:
  assumes "present_parent a t k ptx p g = Inr (h, b)"
  shows "quiet a g h"
proof -
  define g1 where "g1 = (if write_mismatch ptx (WriteSet (ChoosedNode (node g p)))
                         then drop_tx a t (reject_node a g) else g)"
  have g1: "quiet a g g1"
    unfolding g1_def by (auto intro: quiet_trans [OF quiet_reject_node quiet_drop_tx])
  have "quiet a g1 (drop_tx a t (reject_node a g1))"
    "quiet a g1 (add_parent a k (append_slice s a g1))" for s
    using quiet_trans [OF quiet_reject_node quiet_drop_tx] quiet_trans [OF quiet_append_slice quiet_parents(1)]
    by blast+
  then have "quiet a g1 h"
    using assms unfolding present_parent_def Let_def g1_def [symmetric]
    by (auto split: if_splits intro: quiet_trans dest: quiet_inherit_waits quiet_trans [OF quiet_reject_node quiet_inherit_waits])
  then show ?thesis using g1 quiet_trans by blast
qed

lemma quiet_ptx_loop: "ptx_loop a t ps g = Inr h \<Longrightarrow> quiet a g h"
proof (induction ps arbitrary: g)
  case (Cons q ps)
  obtain k ptx where q: "q = (k, ptx)" by force
  obtain g1 b where g1: "(case TxCNs g k of None \<Rightarrow> Inr (absent_parent a t k ptx g)
        | Some p \<Rightarrow> present_parent a t k ptx p g) = Inr (g1, b)"
      "(if b then Inr g1 else ptx_loop a t ps g1) = Inr h"
    using Cons.prems q by auto
  have "quiet a g g1"
    using g1(1) quiet_absent_parent [of a g t k ptx] quiet_present_parent
    by (auto split: option.splits)
  moreover have "quiet a g1 h" using g1(2) Cons.IH by (auto split: if_splits)
  ultimately show ?case by (rule quiet_trans)
qed simp

lemma quiet_unptx_loop: "quiet a g (fold (unptx_step a) ks g)"
proof (induction ks arbitrary: g)
  case (Cons k ks)
  have "quiet a h (add_unparent a k (append_slice s a h))" for s h
    by (rule quiet_trans [OF quiet_append_slice quiet_parents(2)])
  then have "quiet a g (unptx_step a k g)"
    unfolding unptx_step_def Let_def by (auto split: option.split intro: quiet_trans [OF quiet_entries(2)])
  then show ?case using Cons quiet_trans by fastforce
qed simp

lemma quiet_rkv_consensus:
  assumes "rkv_consensus rng a t g = Inr h"
  shows "quiet a g h"
  using assms
proof (cases rule: rkv_consensus_cases)
  case reject
  then show ?thesis by (simp add: quiet_trans [OF quiet_reject_node quiet_entries(1)])
next
  case (keep f)
  show ?thesis unfolding keep(1) using keep(2) by (intro quiet_upd_own) (simp_all add: content_def)
qed simp

lemma quiet_admit: "quiet a g (admit a t g)"
proof -
  have s: "quiet a h (if c then upd_node a (State_update (\<lambda>_. 4)) h else h)" for c h by simp
  define g1 where "g1 = (if ConsensusState (ChoosedNode (node g a)) = 3
                         then upd_node a (State_update (\<lambda>_. 4)) g else g)"
  have g1: "quiet a g g1" unfolding g1_def by (rule s)
  have "quiet a g1 (admit a t g)"
  proof (cases "WaitUnChoosedTxCNs g1 t")
    case None
    then show ?thesis unfolding admit_def Let_def g1_def [symmetric] by simp
  next
    case (Some w)
    define g2 where "g2 = (if DiffWaitWKV w then upd_node a (State_update (\<lambda>_. 4)) g1 else g1)"
    have "quiet a g1 g2" unfolding g2_def by (rule s)
    moreover have "quiet a g2 (admit a t g)"
      unfolding admit_def Let_def g1_def [symmetric] Some option.case g2_def [symmetric]
      using quiet_trans [OF quiet_set_state quiet_upd_wait] by simp
    ultimately show ?thesis by (rule quiet_trans)
  qed
  then show ?thesis by (rule quiet_trans [OF g1])
qed

lemma quiet_link:
  assumes "link rng a t g = Inr h"
  shows "quiet a g h"
proof -
  have r: "quiet a g (g1\<lparr>TxCNs := (TxCNs g1)(t \<mapsto> a)\<rparr>)" if "rkv_consensus rng a t g = Inr g1" for g1
    by (rule quiet_trans [OF quiet_rkv_consensus [OF that] quiet_upd_key(1)])
  show ?thesis
    using assms unfolding link_def
    by (auto split: if_splits dest!: quiet_ptx_loop intro: quiet_rkv_consensus
        intro: quiet_trans [OF r] quiet_trans [OF r quiet_trans [OF _ quiet_unptx_loop]])
qed

lemma quiet_resolve_wait: "quiet a g (resolve_wait a t g)"
proof (cases "WaitUnChoosedTxCNs g t")
  case (Some w)
  define g1 where
    "g1 = upd_node a (\<lambda>n. n\<lparr>NChildNodes := wNChildNodes w, UNChildNodes := wUNChildNodes w\<rparr>) g"
  have g1: "quiet a g g1" unfolding g1_def by (rule quiet_upd_own) (simp_all add: content_def)
  have "quiet a g1 (resolve_wait a t g)"
    unfolding resolve_wait_def Some option.case g1_def [symmetric] Let_def
    using quiet_trans [OF quiet_drop_waits quiet_upd_key(2)] quiet_trans [OF quiet_upd_key(3) quiet_upd_wait]
    by simp
  then show ?thesis by (rule quiet_trans [OF g1])
qed (simp add: resolve_wait_def)

subsection \<open>The log of a run\<close>

text \<open>
  \<open>logged ls g\<close>: the nodes \<open>ls\<close> have been committed in this order. The state is what replaying their
  writes gives, the counter is their number, and none of them is there twice.
\<close>

definition logged :: "addr list \<Rightarrow> TxConsensusGraph \<Rightarrow> bool" where
  "logged ls g \<longleftrightarrow>
     GState g = replay (txs g ls) Map.empty \<and>
     NumGCommittedNode g = int (length ls) \<and>
     distinct ls \<and>
     (\<forall>c \<in> set ls. c < length (nodes g) \<and> ParentNum (node g c) \<le> 0)"

lemma replay_cong:
  "map WriteSet gvs = map WriteSet hvs \<Longrightarrow> replay gvs m = replay hvs m"
proof (induction gvs arbitrary: hvs m)
  case (Cons gv gvs)
  then obtain hv hvs' where "hvs = hv # hvs'" by (cases hvs) auto
  then show ?case using Cons by simp
qed simp

lemma quiet_payload:
  assumes "quiet a g h" "set cs \<subseteq> {..<length (nodes g)}"
  shows "map TxResult (txs h cs) = map TxResult (txs g cs)"
    and "replay (txs h cs) m = replay (txs g cs) m"
proof -
  have "TxResult (ChoosedNode (node h c)) = TxResult (ChoosedNode (node g c))"
    "WriteSet (ChoosedNode (node h c)) = WriteSet (ChoosedNode (node g c))" if "c \<in> set cs" for c
    using content_eq(1,2) [of "node h c" "node g c"] assms that by (auto simp: quiet_def subset_iff)
  then show "map TxResult (txs h cs) = map TxResult (txs g cs)"
    and "replay (txs h cs) m = replay (txs g cs) m"
    by (auto intro!: replay_cong)
qed

lemma logged_quiet:
  assumes "logged ls g" "quiet a g h" "a \<notin> set ls"
  shows "logged ls h"
proof -
  have "set ls \<subseteq> {..<length (nodes g)}" using assms(1) by (auto simp: logged_def)
  then show ?thesis
    using assms quiet_payload(2) [OF assms(2), of ls] unfolding logged_def quiet_def
    by auto
qed

lemma logged_commits:
  assumes "logged ls g" "commits g h cs"
  shows "logged (ls @ cs) h"
proof -
  have l: "GState g = replay (txs g ls) Map.empty" "NumGCommittedNode g = int (length ls)" "distinct ls"
    "\<And>c. c \<in> set ls \<Longrightarrow> c < length (nodes g) \<and> ParentNum (node g c) \<le> 0"
    using assms(1) by (simp_all add: logged_def)
  have c: "GState h = replay (txs g cs) (GState g)"
    "NumGCommittedNode h = NumGCommittedNode g + int (length cs)" "distinct cs"
    "set cs = {c. c < length (nodes g) \<and> 0 < ParentNum (node g c) \<and> ParentNum (node h c) \<le> 0}"
    "\<And>c. c < length (nodes g) \<Longrightarrow> ParentNum (node h c) \<le> ParentNum (node g c)"
    using assms(2) by (simp_all add: commits_def)
  have s: "same_shape g h" using assms(2) by (rule commits_shape)
  have e: "txs h (ls @ cs) = txs g (ls @ cs)"
    by (rule txs_same_shape [OF s]) (use l(4) c(4) in auto)
  have "set ls \<inter> set cs = {}" using l(4) c(4) by fastforce
  moreover have "d < length (nodes h) \<and> ParentNum (node h d) \<le> 0" if d: "d \<in> set (ls @ cs)" for d
  proof (cases "d \<in> set ls")
    case True
    then have "ParentNum (node h d) \<le> 0" using l(4) c(5) order_trans by blast
    then show ?thesis using l(4) [OF True] same_shape_length [OF s] by simp
  next
    case False
    then have "d \<in> set cs" using d by simp
    then show ?thesis using same_shape_length [OF s] unfolding c(4) by simp
  qed
  ultimately show ?thesis using l c(1-3) unfolding logged_def e by simp
qed

lemma commits_env:
  assumes "commits g h cs"
  shows "ReadyBatch h = ReadyBatch g @ map TxResult (txs h cs)"
  using assms txs_same_shape [OF commits_shape commits_bound, OF assms assms] by (simp add: commits_def)

lemma logged_commit_node:
  assumes "logged ls g" "a < length (nodes g)" "a \<notin> set ls" "ParentNum (node g a) \<le> 0"
  shows "logged (ls @ [a]) (settle a (commit_node a g))"
proof -
  have c: "ChoosedNode (node (commit_node a g) p) = ChoosedNode (node g p)" for p
    unfolding commit_node_frame by (rule nth_update_field) simp
  have n: "ParentNum (node (commit_node a g) p) = ParentNum (node g p)" for p
    unfolding commit_node_frame by (rule nth_update_field) simp
  let ?h = "settle a (commit_node a g)"
  have e: "txs ?h (ls @ [a]) = txs g (ls @ [a])" unfolding settle_frame c ..
  have "GState ?h = replay (txs g (ls @ [a])) Map.empty"
    "NumGCommittedNode ?h = int (length (ls @ [a]))" "distinct (ls @ [a])"
    using assms by (simp_all add: logged_def settle_def)
  moreover have "\<forall>c \<in> set (ls @ [a]). c < length (nodes ?h) \<and> ParentNum (node ?h c) \<le> 0"
    using assms unfolding logged_def settle_frame n by simp
  ultimately show ?thesis unfolding logged_def e by blast
qed

lemma finish_logs:
  assumes "wf_slices g" "a < length (nodes g)" "logged ls g" "a \<notin> set ls" "finish a g = Inr h"
  shows "\<exists>cs. logged (ls @ cs) h \<and> ReadyBatch h = ReadyBatch g @ map TxResult (txs h cs) \<and> same_shape g h"
proof -
  consider (commit) "State (node g a) \<noteq> 4" "ParentNum (node g a) = 0" "run_Delete a (commit_node a g) = Inr h"
    | (reject) "State (node g a) = 4" "run_Delete a g = Inr h"
    | (wait) "h = g"
    using assms(5) by (auto simp: finish_def split: if_splits)
  then show ?thesis
  proof cases
    case commit
    let ?g1 = "commit_node a g"
    have s: "same_shape g ?g1" using assms(2) by (rule same_shape_commit)
    obtain cs where cs: "commits (settle a ?g1) h cs"
      using run_Delete_logs [OF same_shape_wf [OF s assms(1)] _ commit(3)] assms(2) by auto
    have l: "logged (ls @ [a]) (settle a ?g1)"
      using assms commit(2) by (intro logged_commit_node) simp_all
    have sh: "same_shape g h"
      using s settle_frame(5) commits_shape [OF cs] same_shape_trans by blast
    have "ReadyBatch h = ReadyBatch g @ map TxResult (txs h (a # cs))"
      using commits_env [OF cs] same_shape_node(1) [OF sh assms(2)] by simp
    moreover have "logged (ls @ a # cs) h" using logged_commits [OF l cs] by simp
    ultimately show ?thesis using sh by blast
  next
    case reject
    have "settle a g = g" using reject(1) by (simp add: settle_def)
    then obtain cs where cs: "commits g h cs"
      using run_Delete_logs [OF assms(1,2) reject(2)] by auto
    then show ?thesis using logged_commits [OF assms(3) cs] commits_env [OF cs] commits_shape by blast
  next
    case wait
    then show ?thesis using assms(3) by (intro exI [of _ "[]"]) simp
  qed
qed

lemma ProcessTX_logs:
  assumes "wf_graph g" "fresh_node a g" "logged ls g" "a \<notin> set ls" "ProcessTX rng a g = Inr h"
  shows "\<exists>cs. logged (ls @ cs) h \<and> ReadyBatch h = ReadyBatch g @ map TxResult (txs h cs)
           \<and> length (nodes h) = length (nodes g)
           \<and> (\<forall>p < length (nodes g). content (node h p) = content (node g p))"
proof -
  let ?t = "TxId (ChoosedNode (node g a))"
  obtain g1 where g1: "link rng a ?t (admit a ?t g) = Inr g1"
    using assms(5) by (auto simp: ProcessTX_def Let_def)
  have wf1: "wf_graph g1" "a < length (nodes g1)"
    using link_wf [OF extends_wf [OF extends_admit assms(1)] fresh_extends [OF extends_admit assms(2)] g1]
    by simp_all
  define g2 where "g2 = (if WaitUnChoosedTxCNs g ?t \<noteq> None then resolve_wait a ?t g1 else g1)"
  have h: "finish a g2 = Inr h" using assms(5) g1 unfolding ProcessTX_def Let_def g2_def by simp
  have wf2: "wf_graph g2" "a < length (nodes g2)"
    unfolding g2_def using wf1 resolve_wait_wf [OF wf1] by auto
  have "quiet a g1 g2" unfolding g2_def by (simp add: quiet_resolve_wait)
  then have q: "quiet a g g2"
    using quiet_trans [OF quiet_trans [OF quiet_admit quiet_link [OF g1]]] by blast
  obtain cs where cs: "logged (ls @ cs) h" "ReadyBatch h = ReadyBatch g2 @ map TxResult (txs h cs)"
      "same_shape g2 h"
    using finish_logs [OF wf_graphD(1) [OF wf2(1)] wf2(2) logged_quiet [OF assms(3) q assms(4)] assms(4) h]
    by blast
  have "content (node h p) = content (node g p)" if "p < length (nodes g)" for p
    using q that content_cong [of "node h p" "node g2 p"] same_shape_node(1) [OF cs(3)]
    by (simp add: quiet_def)
  then show ?thesis using cs q same_shape_length [OF cs(3)] by (auto simp: quiet_def)
qed

end
