(* ===== verification/CE_Order.thy ===== *)
theory CE_Order
  imports CE_Log
begin

text \<open>
  The invariant behind the order of commits. Every transaction that was not rejected on arrival has,
  for each parent in its \<open>PTx\<close>, either a committed node of that parent or a place in a child list that
  belongs to the parent; \<open>ParentNum\<close> counts the places in the lists of parents that have not committed.
  So a node whose count is zero has all its parents in the log, and the cascade of \<open>Delete\<close> appends it
  after them.
\<close>

subsection \<open>The invariant\<close>

abbreviation tid :: "TxConsensusGraph \<Rightarrow> addr \<Rightarrow> string" where
  "tid g d \<equiv> TxId (ChoosedNode (node g d))"

text \<open>
  Ownership of the child lists: no two nodes share one, no two waiting entries share one, and a
  node shares one with a waiting entry only if it is the rejected transaction that the entry
  waited for.
\<close>

definition own :: "TxConsensusGraph \<Rightarrow> bool" where
  "own g \<longleftrightarrow>
     (\<forall>a < length (nodes g). \<forall>b < length (nodes g).
        NChildNodes (node g a) = NChildNodes (node g b) \<longrightarrow> a = b) \<and>
     (\<forall>k w l v. WaitUnChoosedTxCNs g k = Some w \<longrightarrow> WaitUnChoosedTxCNs g l = Some v \<longrightarrow>
        wNChildNodes w = wNChildNodes v \<longrightarrow> k = l) \<and>
     (\<forall>k w d. WaitUnChoosedTxCNs g k = Some w \<longrightarrow> d < length (nodes g) \<longrightarrow>
        wNChildNodes w = NChildNodes (node g d) \<longrightarrow> tid g d = k \<and> wChoosedNode w = Some d) \<and>
     (\<forall>k w b. WaitUnChoosedTxCNs g k = Some w \<longrightarrow> wChoosedNode w = Some b \<longrightarrow>
        b < length (nodes g) \<and> tid g b = k) \<and>
     (\<forall>k p. TxCNs g k = Some p \<longrightarrow> p < length (nodes g) \<and> tid g p = k)"

text \<open>There are no anti-dependency edges: the lists of the second kind, at the odd indices, are empty.\<close>

definition un_free :: "TxConsensusGraph \<Rightarrow> bool" where
  "un_free g \<longleftrightarrow>
     even (length (slices g)) \<and>
     (\<forall>n \<in> set (nodes g). even (NChildNodes n) \<and> odd (UNChildNodes n)) \<and>
     (\<forall>w \<in> ran (WaitUnChoosedTxCNs g). even (wNChildNodes w) \<and> odd (wUNChildNodes w)) \<and>
     (\<forall>s < length (slices g). odd s \<longrightarrow> slices g ! s = [])"

text \<open>
  Accounting: the count of parents of a node is the number of its entries in the child lists whose
  owner is not committed, and of those that a running \<open>Delete\<close> has still to visit.
\<close>

definition closed :: "TxConsensusGraph \<Rightarrow> sref set" where
  "closed g = {NChildNodes (node g d) | d. d < length (nodes g) \<and> State (node g d) = 1}"

definition pend :: "TxConsensusGraph \<Rightarrow> addr \<Rightarrow> nat" where
  "pend g c = (\<Sum>s \<in> {..<length (slices g)} - closed g. count_list (slices g ! s) c)"

definition acct :: "addr list \<Rightarrow> TxConsensusGraph \<Rightarrow> bool" where
  "acct M g \<longleftrightarrow>
     (\<forall>c < length (nodes g). ParentNum (node g c) = int (pend g c + count_list M c))"

text \<open>A parent \<open>k\<close> of \<open>c\<close> is committed, or \<open>c\<close> is in the child list of \<open>k\<close>.\<close>

definition belongs :: "TxConsensusGraph \<Rightarrow> string \<Rightarrow> sref \<Rightarrow> bool" where
  "belongs g k s \<longleftrightarrow>
     (\<exists>d < length (nodes g). tid g d = k \<and> NChildNodes (node g d) = s) \<or>
     (\<exists>w. WaitUnChoosedTxCNs g k = Some w \<and> wNChildNodes w = s)"

definition dep_ok :: "TxConsensusGraph \<Rightarrow> addr \<Rightarrow> string \<Rightarrow> bool" where
  "dep_ok g c k \<longleftrightarrow>
     (\<exists>d < length (nodes g). tid g d = k \<and> State (node g d) = 1) \<or>
     (\<exists>s < length (slices g). c \<in> set (slices g ! s) \<and> belongs g k s)"

definition parents :: "TxConsensusGraph \<Rightarrow> addr \<Rightarrow> string set" where
  "parents g c = fst ` set (PTx (ChoosedNode (node g c))) - {tid g c}"

definition deps :: "addr set \<Rightarrow> TxConsensusGraph \<Rightarrow> bool" where
  "deps A g \<longleftrightarrow> (\<forall>c \<in> A. c < length (nodes g) \<and> (\<forall>k \<in> parents g c. dep_ok g c k))"

text \<open>In a log, every accepted transaction comes after its parents.\<close>

definition in_order :: "addr set \<Rightarrow> addr list \<Rightarrow> TxConsensusGraph \<Rightarrow> bool" where
  "in_order A ls g \<longleftrightarrow>
     (\<forall>i < length ls. ls ! i \<in> A \<longrightarrow> (\<forall>k \<in> parents g (ls ! i). \<exists>j < i. tid g (ls ! j) = k))"

definition order_inv ::
  "Envelope list \<Rightarrow> addr set \<Rightarrow> addr list \<Rightarrow> addr list \<Rightarrow> TxConsensusGraph \<Rightarrow> bool" where
  "order_inv out A ls M g \<longleftrightarrow>
     wf_slices g \<and> own g \<and> un_free g \<and> acct M g \<and> deps A g \<and> in_order A ls g \<and> distinct ls \<and>
     set ls = {c. c < length (nodes g) \<and> State (node g c) = 1} \<and>
     (\<forall>c \<in> set ls. ParentNum (node g c) = 0) \<and>
     (\<forall>c < length (nodes g). State (node g c) \<in> {1, 3, 4}) \<and>
     out @ ReadyBatch g = map TxResult (txs g ls)"

lemma order_invD:
  assumes "order_inv out A ls M g"
  shows "wf_slices g" "own g" "un_free g" "acct M g" "deps A g" "in_order A ls g" "distinct ls"
    "set ls = {c. c < length (nodes g) \<and> State (node g c) = 1}"
    "\<And>c. c \<in> set ls \<Longrightarrow> ParentNum (node g c) = 0"
    "out @ ReadyBatch g = map TxResult (txs g ls)"
    "\<And>c. c < length (nodes g) \<Longrightarrow> State (node g c) \<in> {1, 3, 4}"
  using assms by (auto simp: order_inv_def)

lemma order_invI:
  assumes "wf_slices g" "own g" "un_free g" "acct M g" "deps A g" "in_order A ls g" "distinct ls"
    "set ls = {c. c < length (nodes g) \<and> State (node g c) = 1}"
    "\<And>c. c \<in> set ls \<Longrightarrow> ParentNum (node g c) = 0"
    "out @ ReadyBatch g = map TxResult (txs g ls)"
    "\<And>c. c < length (nodes g) \<Longrightarrow> State (node g c) \<in> {1, 3, 4}"
  shows "order_inv out A ls M g"
  using assms by (auto simp: order_inv_def)

subsection \<open>Consequences\<close>

lemma ownD:
  assumes "own g"
  shows "a < length (nodes g) \<Longrightarrow> b < length (nodes g) \<Longrightarrow>
      NChildNodes (node g a) = NChildNodes (node g b) \<Longrightarrow> a = b"
    and "WaitUnChoosedTxCNs g k = Some w \<Longrightarrow> WaitUnChoosedTxCNs g l = Some v \<Longrightarrow>
      wNChildNodes w = wNChildNodes v \<Longrightarrow> k = l"
    and "WaitUnChoosedTxCNs g k = Some w \<Longrightarrow> d < length (nodes g) \<Longrightarrow>
      wNChildNodes w = NChildNodes (node g d) \<Longrightarrow> tid g d = k \<and> wChoosedNode w = Some d"
    and "WaitUnChoosedTxCNs g k = Some w \<Longrightarrow> wChoosedNode w = Some b \<Longrightarrow>
      b < length (nodes g) \<and> tid g b = k"
    and "TxCNs g k = Some p \<Longrightarrow> p < length (nodes g) \<and> tid g p = k"
  using assms unfolding own_def by blast+

text \<open>An entry in an open list counts.\<close>

lemma count_list_pos: "c \<in> set xs \<Longrightarrow> 0 < count_list xs c"
  by (metis count_list_0_iff neq0_conv)

lemma pend_pos:
  assumes "s < length (slices g)" "s \<notin> closed g" "c \<in> set (slices g ! s)"
  shows "0 < pend g c"
proof -
  have "count_list (slices g ! s) c \<le> pend g c"
    unfolding pend_def using assms by (intro member_le_sum) auto
  then show ?thesis using count_list_pos [OF assms(3)] by simp
qed

lemma not_closed:
  assumes "own g" "d < length (nodes g)" "State (node g d) \<noteq> 1"
  shows "NChildNodes (node g d) \<notin> closed g"
  using assms ownD(1) [OF assms(1)] unfolding closed_def by blast

text \<open>A node none of whose counted entries is left has its parents committed.\<close>

lemma dep_committed:
  assumes own: "own g" and dep: "dep_ok g c k" and zero: "pend g c = 0"
  shows "\<exists>d < length (nodes g). tid g d = k \<and> State (node g d) = 1"
proof -
  consider (committed) "\<exists>d < length (nodes g). tid g d = k \<and> State (node g d) = 1"
    | (edge) s where "s < length (slices g)" "c \<in> set (slices g ! s)" "belongs g k s"
    using dep by (auto simp: dep_ok_def)
  then show ?thesis
  proof cases
    case edge
    have "s \<in> closed g"
      using pend_pos [OF edge(1) _ edge(2)] zero by (cases "s \<in> closed g") simp_all
    then obtain d where d: "d < length (nodes g)" "State (node g d) = 1" "s = NChildNodes (node g d)"
      by (auto simp: closed_def)
    consider (node) e where "e < length (nodes g)" "tid g e = k" "NChildNodes (node g e) = s"
      | (wait) w where "WaitUnChoosedTxCNs g k = Some w" "wNChildNodes w = s"
      using edge(3) by (auto simp: belongs_def)
    then have "tid g d = k"
    proof cases
      case node
      then have "e = d" using d ownD(1) [OF own, of e d] by simp
      then show ?thesis using node by simp
    next
      case wait
      then show ?thesis using ownD(3) [OF own wait(1) d(1)] d(3) by simp
    qed
    then show ?thesis using d by blast
  qed simp
qed

subsection \<open>Updates of one node\<close>

text \<open>What the invariant reads of a node and of a graph.\<close>

lemma tid_upd:
  assumes "ChoosedNode (f (node g c)) = ChoosedNode (node g c)"
  shows "ChoosedNode (node (upd_node c f g) p) = ChoosedNode (node g p)"
  unfolding upd_node_frame using assms by (rule nth_update_field)

text \<open>An update that keeps the transaction and the child lists keeps ownership.\<close>

definition same_links :: "TxConsensusGraph \<Rightarrow> TxConsensusGraph \<Rightarrow> bool" where
  "same_links g h \<longleftrightarrow>
     length (nodes h) = length (nodes g) \<and> slices h = slices g \<and> TxCNs h = TxCNs g \<and>
     (\<forall>k. map_option (\<lambda>w. (wNChildNodes w, wUNChildNodes w, wChoosedNode w)) (WaitUnChoosedTxCNs h k)
        = map_option (\<lambda>w. (wNChildNodes w, wUNChildNodes w, wChoosedNode w)) (WaitUnChoosedTxCNs g k)) \<and>
     (\<forall>p < length (nodes g). ChoosedNode (node h p) = ChoosedNode (node g p) \<and>
        NChildNodes (node h p) = NChildNodes (node g p) \<and> UNChildNodes (node h p) = UNChildNodes (node g p))"

lemma same_linksD:
  assumes "same_links g h"
  shows "length (nodes h) = length (nodes g)" "slices h = slices g" "TxCNs h = TxCNs g"
    "p < length (nodes g) \<Longrightarrow> ChoosedNode (node h p) = ChoosedNode (node g p)"
    "p < length (nodes g) \<Longrightarrow> NChildNodes (node h p) = NChildNodes (node g p)"
    "p < length (nodes g) \<Longrightarrow> UNChildNodes (node h p) = UNChildNodes (node g p)"
  using assms by (auto simp: same_links_def)

lemma same_links_wait_eq:
  assumes "same_links g h"
  shows "map_option (\<lambda>w. (wNChildNodes w, wUNChildNodes w, wChoosedNode w)) (WaitUnChoosedTxCNs h k)
       = map_option (\<lambda>w. (wNChildNodes w, wUNChildNodes w, wChoosedNode w)) (WaitUnChoosedTxCNs g k)"
  using assms by (simp add: same_links_def)

lemma same_links_wait:
  assumes "same_links g h" "WaitUnChoosedTxCNs h k = Some w"
  shows "\<exists>v. WaitUnChoosedTxCNs g k = Some v \<and> wNChildNodes w = wNChildNodes v \<and>
    wUNChildNodes w = wUNChildNodes v \<and> wChoosedNode w = wChoosedNode v"
  using same_links_wait_eq [OF assms(1), of k] assms(2) by (cases "WaitUnChoosedTxCNs g k") simp_all

lemma same_links_wait':
  assumes "same_links g h" "WaitUnChoosedTxCNs g k = Some v"
  shows "\<exists>w. WaitUnChoosedTxCNs h k = Some w \<and> wNChildNodes w = wNChildNodes v \<and>
    wUNChildNodes w = wUNChildNodes v \<and> wChoosedNode w = wChoosedNode v"
  using same_links_wait_eq [OF assms(1), of k] assms(2) by (cases "WaitUnChoosedTxCNs h k") simp_all

lemma same_links_own:
  assumes l: "same_links g h" and o: "own g"
  shows "own h"
  unfolding own_def
proof (intro conjI allI impI)
  note d = same_linksD [OF l] and w = same_links_wait [OF l] and o' = ownD [OF o]
  { fix a b assume "a < length (nodes h)" "b < length (nodes h)"
      "NChildNodes (node h a) = NChildNodes (node h b)"
    then show "a = b" using d(1) d(5) [of a] d(5) [of b] o'(1) [of a b] by simp }
  { fix k x m v assume x: "WaitUnChoosedTxCNs h k = Some x" "WaitUnChoosedTxCNs h m = Some v"
      "wNChildNodes x = wNChildNodes v"
    then show "k = m" using w [OF x(1)] w [OF x(2)] o'(2) by auto }
  { fix k x e assume x: "WaitUnChoosedTxCNs h k = Some x" "e < length (nodes h)"
      "wNChildNodes x = NChildNodes (node h e)"
    obtain v where "WaitUnChoosedTxCNs g k = Some v" "wNChildNodes x = wNChildNodes v"
        "wChoosedNode x = wChoosedNode v" using w [OF x(1)] by blast
    moreover have "e < length (nodes g)" using x(2) d(1) by simp
    ultimately show "tid h e = k" "wChoosedNode x = Some e"
      using x(3) o'(3) [of k v e] d(4,5) by simp_all }
  { fix k x b assume x: "WaitUnChoosedTxCNs h k = Some x" "wChoosedNode x = Some b"
    then have "b < length (nodes g) \<and> tid g b = k" using o'(4) w [OF x(1)] by auto
    then show "b < length (nodes h)" "tid h b = k" using d(1,4) by simp_all }
  { fix k p assume "TxCNs h k = Some p"
    then have "TxCNs g k = Some p" using d(3) by simp
    then show "p < length (nodes h)" "tid h p = k" using d(1) d(4) [of p] o'(5) [of k p] by simp_all }
qed


lemma nodes_all:
  assumes "length (nodes h) = length (nodes g)" "\<And>p. p < length (nodes g) \<Longrightarrow> F (node h p) = F (node g p)"
  shows "(\<forall>n \<in> set (nodes h). P (F n)) \<longleftrightarrow> (\<forall>n \<in> set (nodes g). P (F n))"
proof -
  have "map F (nodes h) = map F (nodes g)" using assms by (intro nth_equalityI) simp_all
  then have "F ` set (nodes h) = F ` set (nodes g)" by (metis list.set_map)
  then show ?thesis by (metis (no_types, lifting) image_iff)
qed

lemma same_links_wf_slices:
  assumes "same_links g h" "wf_slices g"
  shows "wf_slices h"
proof -
  note d = same_linksD [OF assms(1)]
  have "\<forall>n \<in> set (nodes h). NChildNodes n < length (slices g)"
    "\<forall>n \<in> set (nodes h). UNChildNodes n < length (slices g)"
    using assms(2) nodes_all [OF d(1), of NChildNodes "\<lambda>x. x < length (slices g)"]
      nodes_all [OF d(1), of UNChildNodes "\<lambda>x. x < length (slices g)"] d(5,6)
    unfolding wf_slices_def by simp_all
  then show ?thesis using assms(2) unfolding wf_slices_def d(1,2) by simp
qed

lemma same_links_un_free:
  assumes l: "same_links g h" and u: "un_free g"
  shows "un_free h"
proof -
  note d = same_linksD [OF l]
  have "\<forall>n \<in> set (nodes h). even (NChildNodes n)" "\<forall>n \<in> set (nodes h). odd (UNChildNodes n)"
    using u nodes_all [OF d(1), of NChildNodes even] nodes_all [OF d(1), of UNChildNodes odd] d(5,6)
    unfolding un_free_def by simp_all
  moreover have "\<forall>w \<in> ran (WaitUnChoosedTxCNs h). even (wNChildNodes w) \<and> odd (wUNChildNodes w)"
  proof
    fix w assume "w \<in> ran (WaitUnChoosedTxCNs h)"
    then obtain k where "WaitUnChoosedTxCNs h k = Some w" by (auto simp: ran_def)
    then obtain v where "WaitUnChoosedTxCNs g k = Some v" "wNChildNodes w = wNChildNodes v"
        "wUNChildNodes w = wUNChildNodes v" using same_links_wait [OF l] by blast
    then show "even (wNChildNodes w) \<and> odd (wUNChildNodes w)"
      using u by (auto simp: un_free_def ran_def)
  qed
  ultimately show ?thesis using u unfolding un_free_def d(2) by simp
qed

text \<open>The relation between two states of a graph that keeps every edge: what grows is the store, the
  child lists, the waiting entries and the set of committed nodes.\<close>

definition grows :: "TxConsensusGraph \<Rightarrow> TxConsensusGraph \<Rightarrow> bool" where
  "grows g h \<longleftrightarrow>
     length (nodes g) \<le> length (nodes h) \<and> length (slices g) \<le> length (slices h) \<and>
     (\<forall>p < length (nodes g). ChoosedNode (node h p) = ChoosedNode (node g p) \<and>
        NChildNodes (node h p) = NChildNodes (node g p) \<and>
        (State (node g p) = 1 \<longrightarrow> State (node h p) = 1)) \<and>
     (\<forall>s < length (slices g). set (slices g ! s) \<subseteq> set (slices h ! s)) \<and>
     (\<forall>k v. WaitUnChoosedTxCNs g k = Some v \<longrightarrow>
        (\<exists>w. WaitUnChoosedTxCNs h k = Some w \<and> wNChildNodes w = wNChildNodes v))"

lemma growsD:
  assumes "grows g h"
  shows "length (nodes g) \<le> length (nodes h)" "length (slices g) \<le> length (slices h)"
    "p < length (nodes g) \<Longrightarrow> ChoosedNode (node h p) = ChoosedNode (node g p)"
    "p < length (nodes g) \<Longrightarrow> NChildNodes (node h p) = NChildNodes (node g p)"
    "p < length (nodes g) \<Longrightarrow> State (node g p) = 1 \<Longrightarrow> State (node h p) = 1"
    "s < length (slices g) \<Longrightarrow> set (slices g ! s) \<subseteq> set (slices h ! s)"
    "WaitUnChoosedTxCNs g k = Some v \<Longrightarrow>
       \<exists>w. WaitUnChoosedTxCNs h k = Some w \<and> wNChildNodes w = wNChildNodes v"
  using assms unfolding grows_def by blast+

lemma grows_belongs:
  assumes l: "grows g h" and b: "belongs g k s"
  shows "belongs h k s"
proof -
  note d = growsD [OF l]
  consider (node) e where "e < length (nodes g)" "tid g e = k" "NChildNodes (node g e) = s"
    | (wait) w where "WaitUnChoosedTxCNs g k = Some w" "wNChildNodes w = s"
    using b by (auto simp: belongs_def)
  then show ?thesis
  proof cases
    case node
    then show ?thesis using d(1) d(3,4) [OF node(1)] unfolding belongs_def by (intro disjI1 exI [of _ e]) simp
  next
    case wait
    then show ?thesis using d(7) [OF wait(1)] by (auto simp: belongs_def)
  qed
qed

lemma grows_dep_ok:
  assumes l: "grows g h" and c: "dep_ok g c k"
  shows "dep_ok h c k"
proof -
  note d = growsD [OF l]
  consider (committed) e where "e < length (nodes g)" "tid g e = k" "State (node g e) = 1"
    | (edge) s where "s < length (slices g)" "c \<in> set (slices g ! s)" "belongs g k s"
    using c by (auto simp: dep_ok_def)
  then show ?thesis
  proof cases
    case committed
    then show ?thesis using d(1) d(3,5) [OF committed(1)] unfolding dep_ok_def
      by (intro disjI1 exI [of _ e]) simp
  next
    case edge
    then show ?thesis using grows_belongs [OF l edge(3)] d(2) d(6) [OF edge(1)]
      unfolding dep_ok_def by (intro disjI2 exI [of _ s]) auto
  qed
qed

lemma grows_parents: "grows g h \<Longrightarrow> c < length (nodes g) \<Longrightarrow> parents h c = parents g c"
  using growsD(3) [of g h c] by (simp add: parents_def)

lemma grows_deps:
  assumes l: "grows g h" and c: "deps A g"
  shows "deps A h"
  using c grows_dep_ok [OF l] grows_parents [OF l] growsD(1) [OF l] unfolding deps_def by fastforce

lemma grows_in_order:
  assumes l: "grows g h" and o: "in_order A ls g" and b: "\<And>c. c \<in> set ls \<Longrightarrow> c < length (nodes g)"
  shows "in_order A ls h"
  unfolding in_order_def
proof (intro allI impI ballI)
  fix i k assume i: "i < length ls" "ls ! i \<in> A" "k \<in> parents h (ls ! i)"
  then have "k \<in> parents g (ls ! i)" using grows_parents [OF l] b by simp
  then obtain j where "j < i" "tid g (ls ! j) = k" using o i unfolding in_order_def by blast
  then show "\<exists>j < i. tid h (ls ! j) = k"
    using growsD(3) [OF l] b i(1) by (intro exI [of _ j]) simp
qed

lemma same_links_grows:
  assumes l: "same_links g h"
    and st: "\<And>p. p < length (nodes g) \<Longrightarrow> State (node g p) = 1 \<Longrightarrow> State (node h p) = 1"
  shows "grows g h"
proof -
  note d = same_linksD [OF l]
  have "\<exists>w. WaitUnChoosedTxCNs h k = Some w \<and> wNChildNodes w = wNChildNodes v"
    if "WaitUnChoosedTxCNs g k = Some v" for k v
    using same_links_wait' [OF l that] by blast
  then show ?thesis unfolding grows_def using d st by simp
qed

text \<open>An update that changes neither the links nor which nodes are committed.\<close>

lemma same_links_pend:
  assumes l: "same_links g h"
    and st: "\<And>p. p < length (nodes g) \<Longrightarrow> State (node h p) = 1 \<longleftrightarrow> State (node g p) = 1"
  shows "closed h = closed g" and "pend h c = pend g c"
proof -
  note d = same_linksD [OF l]
  show "closed h = closed g"
  proof (rule set_eqI)
    fix s
    have "(\<exists>e < length (nodes g). State (node h e) = 1 \<and> s = NChildNodes (node h e))
      \<longleftrightarrow> (\<exists>e < length (nodes g). State (node g e) = 1 \<and> s = NChildNodes (node g e))"
      using st d(5) by auto
    then show "s \<in> closed h \<longleftrightarrow> s \<in> closed g" by (auto simp: closed_def d(1))
  qed
  then show "pend h c = pend g c" by (simp add: pend_def d(2))
qed

lemma order_inv_transfer:
  assumes inv: "order_inv out A ls M g" and l: "same_links g h" and r: "ReadyBatch h = ReadyBatch g"
    and st: "\<And>p. p < length (nodes g) \<Longrightarrow> State (node h p) = 1 \<longleftrightarrow> State (node g p) = 1"
    and ac: "acct N h" and z: "\<And>c. c \<in> set ls \<Longrightarrow> ParentNum (node h c) = 0"
    and s3: "\<And>c. c < length (nodes g) \<Longrightarrow> State (node h c) \<in> {1, 3, 4}"
  shows "order_inv out A ls N h"
proof -
  note i = order_invD [OF inv] and d = same_linksD [OF l]
  have b: "c < length (nodes g)" if "c \<in> set ls" for c using that i(8) by simp
  have t: "txs h ls = txs g ls" using b d(4) by simp
  have s: "set ls = {c. c < length (nodes h) \<and> State (node h c) = 1}"
    unfolding i(8) d(1) using st by blast
  have gr: "grows g h" by (rule same_links_grows [OF l]) (simp add: st)
  show ?thesis
    by (rule order_invI [OF same_links_wf_slices [OF l i(1)] same_links_own [OF l i(2)]
          same_links_un_free [OF l i(3)] ac grows_deps [OF gr i(5)] grows_in_order [OF gr i(6) b] i(7) s z])
       (use s3 in \<open>simp_all add: r t i(10) d(1)\<close>)
qed

subsection \<open>The cascade keeps the invariant\<close>

lemma same_links_upd:
  assumes "\<And>n. ChoosedNode (f n) = ChoosedNode n" "\<And>n. NChildNodes (f n) = NChildNodes n"
    "\<And>n. UNChildNodes (f n) = UNChildNodes n"
  shows "same_links g (upd_node c f g)"
proof -
  have "ChoosedNode ((nodes g)[c := f (node g c)] ! p) = ChoosedNode (node g p)"
    "NChildNodes ((nodes g)[c := f (node g c)] ! p) = NChildNodes (node g p)"
    "UNChildNodes ((nodes g)[c := f (node g c)] ! p) = UNChildNodes (node g p)" for p
    by (rule nth_update_field, rule assms)+
  then show ?thesis by (simp add: same_links_def)
qed

lemma same_links_commit: "same_links g (commit_node c g)"
proof -
  have "same_links g (g\<lparr>NumGCommittedNode := x, ReadyBatch := b\<rparr>)" for x b by (simp add: same_links_def)
  moreover have "same_links (g\<lparr>NumGCommittedNode := x, ReadyBatch := b\<rparr>) (commit_node c g)"
    if "x = NumGCommittedNode g + 1" "b = ReadyBatch g @ [TxResult (ChoosedNode (node g c))]" for x b
    unfolding commit_node_def that by (rule same_links_upd) simp_all
  ultimately show ?thesis unfolding same_links_def by auto
qed

lemma order_inv_open:
  assumes inv: "order_inv out A ls M g" and d: "d < length (nodes g)" "d \<notin> set ls"
    and c: "c \<in> set (nchildren g d)"
  shows "c \<notin> set ls"
proof
  note i = order_invD [OF inv]
  assume "c \<in> set ls"
  then have z: "ParentNum (node g c) = 0" "c < length (nodes g)" using i(8,9) by auto
  have "NChildNodes (node g d) < length (slices g)" using i(1) d(1) by (auto simp: wf_slices_def)
  then have "0 < pend g c"
    using not_closed [OF i(2) d(1)] d i(8) c by (intro pend_pos) auto
  then show False using z i(4) by (simp add: acct_def)
qed

lemma pend_commit:
  assumes own: "own g" and wf: "wf_slices g" and c: "c < length (nodes g)" "State (node g c) \<noteq> 1"
  shows "pend g x = pend (commit_node c g) x + count_list (nchildren g c) x"
proof -
  let ?s = "NChildNodes (node g c)" and ?I = "{..<length (slices g)}"
  have n: "NChildNodes (node (commit_node c g) p) = NChildNodes (node g p)" for p
    unfolding commit_node_frame by (rule nth_update_field) simp
  have st: "State (node (commit_node c g) p) = (if p = c then 1 else State (node g p))" for p
    using c(1) by simp
  have cl: "closed (commit_node c g) = insert ?s (closed g)"
  proof (rule set_eqI)
    fix s
    have "s \<in> closed (commit_node c g) \<longleftrightarrow>
        (\<exists>d < length (nodes g). State (node (commit_node c g) d) = 1 \<and> NChildNodes (node g d) = s)"
      unfolding closed_def n by auto
    also have "\<dots> \<longleftrightarrow> s = ?s \<or> (\<exists>d < length (nodes g). State (node g d) = 1 \<and> NChildNodes (node g d) = s)"
      unfolding st using c by (metis (full_types))
    finally show "s \<in> closed (commit_node c g) \<longleftrightarrow> s \<in> insert ?s (closed g)"
      unfolding closed_def by auto
  qed
  have s: "?s \<in> ?I - closed g" using not_closed [OF own c] wf c(1) by (auto simp: wf_slices_def)
  have "pend g x = count_list (slices g ! ?s) x + (\<Sum>s \<in> ?I - closed g - {?s}. count_list (slices g ! s) x)"
    unfolding pend_def using s by (simp add: sum.remove)
  moreover have "?I - closed g - {?s} = ?I - closed (commit_node c g)" using cl by auto
  ultimately show ?thesis unfolding pend_def by simp
qed

lemma order_inv_commit:
  assumes inv: "order_inv out A ls M g" and c: "c < length (nodes g)" "c \<notin> set ls"
    and z: "ParentNum (node g c) = 0"
  shows "order_inv out A (ls @ [c]) (nchildren g c @ M) (commit_node c g)"
proof -
  note i = order_invD [OF inv]
  let ?h = "commit_node c g"
  have l: "same_links g ?h" by (rule same_links_commit)
  note d = same_linksD [OF l]
  have s: "State (node g c) \<noteq> 1" using c i(8) by auto
  have st: "State (node ?h p) = (if p = c then 1 else State (node g p))" for p using c(1) by simp
  have pn: "ParentNum (node ?h p) = ParentNum (node g p)" for p
    unfolding commit_node_frame by (rule nth_update_field) simp
  have ch: "ChoosedNode (node ?h p) = ChoosedNode (node g p)" for p
    unfolding commit_node_frame by (rule nth_update_field) simp
  have b: "\<And>p. p \<in> set ls \<Longrightarrow> p < length (nodes g)" using i(8) by simp
  have pz: "pend g c = 0" using i(4) c(1) z by (simp add: acct_def)
  have "acct (nchildren g c @ M) ?h"
    using i(4) pend_commit [OF i(2,1) c(1) s] unfolding acct_def pn by simp
  moreover have "in_order A (ls @ [c]) ?h"
    unfolding in_order_def
  proof (intro allI impI ballI)
    fix j k assume j: "j < length (ls @ [c])" "(ls @ [c]) ! j \<in> A" "k \<in> parents ?h ((ls @ [c]) ! j)"
    show "\<exists>m < j. tid ?h ((ls @ [c]) ! m) = k"
    proof (cases "j < length ls")
      case True
      then have "k \<in> parents g (ls ! j)" "ls ! j \<in> A" using j ch by (simp_all add: parents_def nth_append)
      then obtain m where "m < j" "tid g (ls ! m) = k" using i(6) True unfolding in_order_def by blast
      then show ?thesis using True ch by (intro exI [of _ m]) (simp add: nth_append)
    next
      case False
      then have jc: "j = length ls" "c \<in> A" "k \<in> parents g c" using j ch by (simp_all add: parents_def nth_append)
      then have "dep_ok g c k" using i(5) by (auto simp: deps_def)
      then obtain e where "e < length (nodes g)" "tid g e = k" "State (node g e) = 1"
        using dep_committed [OF i(2) _ pz] by blast
      then obtain m where "m < length ls" "ls ! m = e" using i(8) by (metis (mono_tags) in_set_conv_nth mem_Collect_eq)
      then show ?thesis using jc ch \<open>tid g e = k\<close> by (intro exI [of _ m]) (simp add: nth_append)
    qed
  qed
  moreover have "set (ls @ [c]) = {p. p < length (nodes ?h) \<and> State (node ?h p) = 1}"
    unfolding st d(1) using i(8) c(1) by auto
  moreover have "\<And>p. p \<in> set (ls @ [c]) \<Longrightarrow> ParentNum (node ?h p) = 0"
    unfolding pn using i(9) z by auto
  moreover have "out @ ReadyBatch ?h = map TxResult (txs ?h (ls @ [c]))"
    unfolding ch using i(10) by (simp add: append_assoc [symmetric] del: append_assoc)
  moreover have "deps A ?h"
    by (rule grows_deps [OF same_links_grows [OF l] i(5)]) (unfold st, simp)
  moreover have "State (node ?h p) \<in> {1, 3, 4}" if "p < length (nodes ?h)" for p
    unfolding st using i(11) that by auto
  ultimately show ?thesis
    using same_links_wf_slices [OF l i(1)] same_links_own [OF l i(2)] same_links_un_free [OF l i(3)] i(7) c(2)
    by (intro order_invI) simp_all
qed


text \<open>
  The contract of \<open>Delete\<close>. Called with a committed node, whose children have still to be visited, it
  extends the log by what it commits; called with a node that is not committed, it commits
  nothing.
\<close>

definition keeps_order :: "(addr \<Rightarrow> TxConsensusGraph \<Rightarrow> TxConsensusGraph option) \<Rightarrow> bool" where
  "keeps_order rec \<longleftrightarrow>
     (\<forall>d g g' out A ls M. d < length (nodes g) \<longrightarrow> rec d g = Some g' \<longrightarrow>
        (State (node g d) = 1 \<longrightarrow> order_inv out A ls (nchildren g d @ M) g \<longrightarrow>
           (\<exists>cs. order_inv out A (ls @ cs) M g')) \<and>
        (State (node g d) = 4 \<longrightarrow> order_inv out A ls M g \<longrightarrow> order_inv out A ls M g'))"

lemma keeps_orderD:
  assumes "keeps_order rec" "d < length (nodes g)" "rec d g = Some g'"
  shows "State (node g d) = 1 \<Longrightarrow> order_inv out A ls (nchildren g d @ M) g \<Longrightarrow>
      \<exists>cs. order_inv out A (ls @ cs) M g'"
    and "State (node g d) = 4 \<Longrightarrow> order_inv out A ls M g \<Longrightarrow> order_inv out A ls M g'"
  using assms unfolding keeps_order_def by blast+

lemma n_child_commit_order:
  assumes k: "keeps_order rec" and inv: "order_inv out A ls (c # M) g" and c: "c < length (nodes g)"
    and r: "n_child_commit rec t c g = Some g'"
  shows "\<exists>cs. order_inv out A (ls @ cs) M g'"
proof -
  note i = order_invD [OF inv]
  let ?f = "\<lambda>n. n\<lparr>ParentTxConsensusNode := del t (ParentTxConsensusNode n), ParentNum := ParentNum n - 1\<rparr>"
  let ?g1 = "upd_node c ?f g"
  have pos: "0 < ParentNum (node g c)" using i(4) c by (simp add: acct_def)
  then have cl: "c \<notin> set ls" using i(9) by force
  have l: "same_links g ?g1" by (rule same_links_upd) simp_all
  have st: "State (node ?g1 p) = State (node g p)" for p
    unfolding upd_node_frame by (rule nth_update_field) simp
  have pn: "ParentNum (node ?g1 p) = (if p = c then ParentNum (node g p) - 1 else ParentNum (node g p))" for p
    using c by simp
  have ac: "acct M ?g1"
    using i(4) same_links_pend(2) [OF l, unfolded st] unfolding acct_def pn by auto
  have "ParentNum (node ?g1 p) = 0" if "p \<in> set ls" for p unfolding pn using that cl i(9) by auto
  then have inv1: "order_inv out A ls M ?g1"
    by (intro order_inv_transfer [OF inv l _ _ ac]) (unfold st, use i(11) in simp_all)
  show ?thesis
  proof (cases "ParentNum (node ?g1 c) = 0")
    case False
    then have "g' = ?g1" using r by (simp add: n_child_commit_def)
    then show ?thesis using inv1 by (intro exI [of _ "[]"]) simp
  next
    case True
    let ?g2 = "commit_node c ?g1"
    have r2: "rec c ?g2 = Some g'" using r True unfolding n_child_commit_def Let_def by simp
    have c1: "c < length (nodes ?g1)" and c2: "c < length (nodes ?g2)" using c by simp_all
    have "nchildren ?g2 c = nchildren ?g1 c" using c by simp
    moreover have "order_inv out A (ls @ [c]) (nchildren ?g1 c @ M) ?g2"
      by (rule order_inv_commit [OF inv1 c1 cl True])
    moreover have "State (node ?g2 c) = 1" using c by simp
    ultimately obtain cs where "order_inv out A ((ls @ [c]) @ cs) M g'"
      using keeps_orderD(1) [OF k c2 r2, of out A "ls @ [c]" M] by metis
    then show ?thesis by auto
  qed
qed


lemma n_child_reject_order:
  assumes k: "keeps_order rec" and inv: "order_inv out A ls M g" and c: "c < length (nodes g)" "c \<notin> set ls"
    and r: "n_child_reject rec c g = Some g'"
  shows "order_inv out A ls M g'"
proof (cases "State (node g c) = 4")
  case True
  then show ?thesis using inv r by (simp add: n_child_reject_def)
next
  case False
  note i = order_invD [OF inv]
  let ?g1 = "upd_node c (State_update (\<lambda>_. 4)) g"
  have l: "same_links g ?g1" by (rule same_links_upd) simp_all
  have "State (node g c) \<noteq> 1" using c i(8) by auto
  then have st: "State (node ?g1 p) = 1 \<longleftrightarrow> State (node g p) = 1" for p
    using c(1) by (cases "p = c") simp_all
  have pn: "ParentNum (node ?g1 p) = ParentNum (node g p)" for p
    unfolding upd_node_frame by (rule nth_update_field) simp
  have ac: "acct M ?g1" using i(4) same_links_pend(2) [OF l st] unfolding acct_def pn by simp
  have "State (node ?g1 p) \<in> {1, 3, 4}" if "p < length (nodes g)" for p
    using i(11) [OF that] c(1) by (cases "p = c") simp_all
  then have "order_inv out A ls M ?g1"
    by (intro order_inv_transfer [OF inv l _ st ac]) (unfold pn, use i(9) in simp_all)
  then show ?thesis
    using keeps_orderD(2) [OF k, of c ?g1 g'] False c(1) r by (simp add: n_child_reject_def)
qed

lemma commit_loop_order:
  assumes k: "keeps_order rec"
  shows "order_inv out A ls (cs @ M) g \<Longrightarrow> (\<And>c. c \<in> set cs \<Longrightarrow> c < length (nodes g)) \<Longrightarrow>
    foldM (n_child_commit rec t) cs g = Some g' \<Longrightarrow> logs rec \<Longrightarrow> \<exists>ds. order_inv out A (ls @ ds) M g'"
proof (induction cs arbitrary: ls g)
  case Nil
  then show ?case by (intro exI [of _ "[]"]) simp
next
  case (Cons c cs)
  obtain g1 where g1: "n_child_commit rec t c g = Some g1" "foldM (n_child_commit rec t) cs g1 = Some g'"
    using Cons.prems(3) by (auto split: option.splits)
  have c: "c < length (nodes g)" using Cons.prems(2) by simp
  have wf: "wf_slices g" using order_invD(1) [OF Cons.prems(1)] .
  obtain ds where ds: "order_inv out A (ls @ ds) (cs @ M) g1"
    using n_child_commit_order [OF k _ c g1(1), of out A ls "cs @ M"] Cons.prems(1) by auto
  obtain es where "commits g g1 es"
    using count_down_logs [OF Cons.prems(4) wf c g1(1) [unfolded child_count_down(2)]]
    by (auto simp: node_shape_def)
  then have len: "length (nodes g1) = length (nodes g)"
    by (rule same_shape_length [OF commits_shape])
  obtain fs where "order_inv out A ((ls @ ds) @ fs) M g'"
    using Cons.IH [OF ds _ g1(2) Cons.prems(4)] Cons.prems(2) len by auto
  then show ?case by auto
qed

lemma reject_loop_order:
  assumes k: "keeps_order rec"
  shows "order_inv out A ls M g \<Longrightarrow> (\<And>c. c \<in> set cs \<Longrightarrow> c < length (nodes g) \<and> c \<notin> set ls) \<Longrightarrow>
    foldM (n_child_reject rec) cs g = Some g' \<Longrightarrow> logs rec \<Longrightarrow> order_inv out A ls M g'"
proof (induction cs arbitrary: g)
  case (Cons c cs)
  obtain g1 where g1: "n_child_reject rec c g = Some g1" "foldM (n_child_reject rec) cs g1 = Some g'"
    using Cons.prems(3) by (auto split: option.splits)
  have c: "c < length (nodes g)" "c \<notin> set ls" using Cons.prems(2) by simp_all
  have wf: "wf_slices g" using order_invD(1) [OF Cons.prems(1)] .
  have "order_inv out A ls M g1" by (rule n_child_reject_order [OF k Cons.prems(1) c g1(1)])
  moreover obtain es where "commits g g1 es" using n_child_reject_logs [OF Cons.prems(4) wf c(1) g1(1)] by blast
  then have "length (nodes g1) = length (nodes g)" by (rule same_shape_length [OF commits_shape])
  ultimately show ?case using Cons.IH g1(2) Cons.prems(2,4) by simp
qed simp

lemma order_inv_GState: "order_inv out A ls M (g\<lparr>GState := m\<rparr>) \<longleftrightarrow> order_inv out A ls M g"
  by (simp add: order_inv_def wf_slices_def own_def un_free_def acct_def pend_def closed_def deps_def
      dep_ok_def belongs_def parents_def in_order_def)

lemma Delete_order: "keeps_order (Delete fuel)"
proof (induction fuel)
  case 0
  then show ?case by (simp add: keeps_order_def)
next
  case (Suc fuel)
  { fix d g g' out A ls M
    assume d: "d < length (nodes g)" and D: "Delete (Suc fuel) d g = Some g'"
      and inv: "order_inv out A ls M g" and o: "order_inv out A ls M (settle d g)"
    let ?t = "tid g d" and ?g0 = "settle d g"
    have "UNChildNodes (node g d) < length (slices g)" "odd (UNChildNodes (node g d))"
      using order_invD(1,3) [OF inv] d by (auto simp: wf_slices_def un_free_def)
    then have "unchildren ?g0 d = []" using order_invD(3) [OF inv] by (simp add: un_free_def)
    then have "(if State (node g d) = 4 then foldM (n_child_reject (Delete fuel)) (nchildren g d) ?g0
        else foldM (n_child_commit (Delete fuel) ?t) (nchildren g d) ?g0) = Some g'"
      using D unfolding Delete.simps Let_def settle_def [symmetric] by (simp split: if_splits) }
  note unfold = this
  show ?case unfolding keeps_order_def
  proof (intro allI impI conjI)
    fix d g g' out A ls M
    assume d: "d < length (nodes g)" and D: "Delete (Suc fuel) d g = Some g'"
    { assume s: "State (node g d) = 1" and inv: "order_inv out A ls (nchildren g d @ M) g"
      have o: "order_inv out A ls (nchildren g d @ M) (settle d g)"
        using inv by (simp add: settle_def order_inv_GState)
      have "foldM (n_child_commit (Delete fuel) (tid g d)) (nchildren g d) (settle d g) = Some g'"
        using unfold [OF d D inv o] s by simp
      then show "\<exists>cs. order_inv out A (ls @ cs) M g'"
        using commit_loop_order [OF Suc.IH o _ _ Delete_logs] wf_slices_child(1) [OF order_invD(1) [OF inv] d]
        by simp }
    { assume s: "State (node g d) = 4" and inv: "order_inv out A ls M g"
      have o: "settle d g = g" using s by (simp add: settle_def)
      have f: "foldM (n_child_reject (Delete fuel)) (nchildren g d) g = Some g'"
        using unfold [OF d D inv] s inv unfolding o by simp
      have "d \<notin> set ls" using s order_invD(8) [OF inv] by simp
      then show "order_inv out A ls M g'"
        using reject_loop_order [OF Suc.IH inv _ f Delete_logs] order_inv_open [OF inv d]
          wf_slices_child(1) [OF order_invD(1) [OF inv] d] by simp }
  qed
qed

lemma run_Delete_order:
  assumes "d < length (nodes g)" "run_Delete d g = Inr g'"
  shows "State (node g d) = 1 \<Longrightarrow> order_inv out A ls (nchildren g d @ M) g \<Longrightarrow>
      \<exists>cs. order_inv out A (ls @ cs) M g'"
    and "State (node g d) = 4 \<Longrightarrow> order_inv out A ls M g \<Longrightarrow> order_inv out A ls M g'"
proof -
  have "Delete (Suc (cascade_bound g)) d g = Some g'"
    using assms(2) by (auto simp: run_Delete_def simp del: Delete.simps split: option.splits)
  then show "State (node g d) = 1 \<Longrightarrow> order_inv out A ls (nchildren g d @ M) g \<Longrightarrow>
      \<exists>cs. order_inv out A (ls @ cs) M g'"
    and "State (node g d) = 4 \<Longrightarrow> order_inv out A ls M g \<Longrightarrow> order_inv out A ls M g'"
    using keeps_orderD [OF Delete_order assms(1)] by blast+
qed

lemma finish_order:
  assumes inv: "order_inv out A ls [] g" and a: "a < length (nodes g)" "a \<notin> set ls"
    and f: "finish a g = Inr g'"
  shows "\<exists>cs. order_inv out A (ls @ cs) [] g'"
proof -
  consider (commit) "ParentNum (node g a) = 0" "run_Delete a (commit_node a g) = Inr g'"
    | (reject) "State (node g a) = 4" "run_Delete a g = Inr g'" | (wait) "g' = g"
    using f by (auto simp: finish_def split: if_splits)
  then show ?thesis
  proof cases
    case commit
    have "order_inv out A (ls @ [a]) (nchildren g a @ []) (commit_node a g)"
      by (rule order_inv_commit [OF inv a commit(1)])
    moreover have "nchildren (commit_node a g) a = nchildren g a" "State (node (commit_node a g) a) = 1"
      using a(1) by simp_all
    ultimately obtain cs where "order_inv out A ((ls @ [a]) @ cs) [] g'"
      using run_Delete_order(1) [of a "commit_node a g" g' out A "ls @ [a]" "[]"] commit(2) a(1) by auto
    then show ?thesis by auto
  next
    case reject
    then show ?thesis using run_Delete_order(2) [OF a(1) reject(2,1) inv] by (intro exI [of _ "[]"]) simp
  next
    case wait
    then show ?thesis using inv by (intro exI [of _ "[]"]) simp
  qed
qed

end
