(* ===== verification/CE_Linking.thy ===== *)
theory CE_Linking
  imports CE_Order
begin

text \<open>
  \<open>ProcessTX\<close> keeps the invariant of the commit order while it links a new node: visiting the parents,
  creating and completing the entries of awaited transactions, and taking over the child lists of
  the entry when the awaited transaction arrives.
\<close>

subsection \<open>Linking keeps the invariant\<close>

text \<open>
  The state of \<open>ProcessTX\<close> while it links the node \<open>a\<close> of transaction \<open>t\<close>: the parents in \<open>K\<close> have been
  visited, and unless the node has been rejected each of them is committed or has it as a child;
  \<open>E\<close> says that the transaction was waited for.
\<close>

definition linked ::
  "Envelope list \<Rightarrow> addr set \<Rightarrow> addr list \<Rightarrow> bool \<Rightarrow> addr \<Rightarrow> GVNode \<Rightarrow> string \<Rightarrow> string set \<Rightarrow> TxConsensusGraph \<Rightarrow> bool" where
  "linked out A ls E a gv t K g \<longleftrightarrow>
     order_inv out A ls [] g \<and> wf_refs g \<and> a < length (nodes g) \<and> a \<notin> set ls \<and> a \<notin> A \<and>
     tid g a = t \<and> ChoosedNode (node g a) = gv \<and>
     set (nchildren g a) \<subseteq> {a} \<and>
     (State (node g a) \<noteq> 4 \<longrightarrow> (\<forall>k \<in> K. k \<noteq> t \<longrightarrow> dep_ok g a k)) \<and>
     (E \<longrightarrow> (\<exists>w. WaitUnChoosedTxCNs g t = Some w \<and> wChoosedNode w = None))"

lemma linkedD:
  assumes "linked out A ls E a gv t K g"
  shows "order_inv out A ls [] g" "wf_refs g" "a < length (nodes g)" "a \<notin> set ls" "a \<notin> A" "tid g a = t"
    "set (nchildren g a) \<subseteq> {a}"
    "State (node g a) \<noteq> 4 \<Longrightarrow> k \<in> K \<Longrightarrow> k \<noteq> t \<Longrightarrow> dep_ok g a k"
    "E \<Longrightarrow> \<exists>w. WaitUnChoosedTxCNs g t = Some w \<and> wChoosedNode w = None"
    "ChoosedNode (node g a) = gv"
  using assms by (auto simp: linked_def)

lemma same_links_wf_refs:
  assumes l: "same_links g h" and r: "wf_refs g"
  shows "wf_refs h"
proof -
  note d = same_linksD [OF l]
  have "wNChildNodes w < length (slices g) \<and> wUNChildNodes w < length (slices g)"
    if "w \<in> ran (WaitUnChoosedTxCNs h)" for w
  proof -
    obtain k where "WaitUnChoosedTxCNs h k = Some w" using \<open>w \<in> ran _\<close> by (auto simp: ran_def)
    then obtain v where "WaitUnChoosedTxCNs g k = Some v" "wNChildNodes w = wNChildNodes v"
        "wUNChildNodes w = wUNChildNodes v" using same_links_wait [OF l] by blast
    then show ?thesis using r by (auto simp: wf_refs_def ran_def)
  qed
  then show ?thesis using r unfolding wf_refs_def d(1,2,3) by blast
qed

lemma linked_same:
  assumes lk: "linked out A ls E a gv t K g" and l: "same_links g h" and r: "ReadyBatch h = ReadyBatch g"
    and st: "\<And>p. p < length (nodes g) \<Longrightarrow> State (node h p) = 1 \<longleftrightarrow> State (node g p) = 1"
    and s3: "\<And>p. p < length (nodes g) \<Longrightarrow> State (node h p) \<in> {1, 3, 4}"
    and s4: "State (node g a) = 4 \<Longrightarrow> State (node h a) = 4"
    and pn: "\<And>p. p < length (nodes g) \<Longrightarrow> ParentNum (node h p) = ParentNum (node g p)"
  shows "linked out A ls E a gv t K h"
proof -
  note i = linkedD [OF lk] and d = same_linksD [OF l]
  note o = order_invD [OF i(1)]
  have b: "p < length (nodes g)" if "p \<in> set ls" for p using that o(8) by simp
  have ac: "acct [] h"
    using o(4) same_links_pend(2) [OF l st] pn unfolding acct_def d(1) by simp
  have z: "ParentNum (node h c) = 0" if "c \<in> set ls" for c
    using that pn [OF b [OF that]] o(9) by simp
  have "order_inv out A ls [] h" by (rule order_inv_transfer [OF i(1) l r st ac z s3])
  moreover have "dep_ok h a k" if "State (node h a) \<noteq> 4" "k \<in> K" "k \<noteq> t" for k
    using grows_dep_ok [OF same_links_grows [OF l]] st i(8) that s4 by blast
  moreover have "\<exists>w. WaitUnChoosedTxCNs h t = Some w \<and> wChoosedNode w = None" if E
    using i(9) [OF that] same_links_wait' [OF l] by metis
  ultimately show ?thesis
    using i(1-7,10) same_links_wf_refs [OF l i(2)] d(1,2) d(4,5) [OF i(3)] unfolding linked_def by simp
qed

text \<open>Updates of the node itself.\<close>

lemma linked_upd:
  assumes lk: "linked out A ls E a gv t K g"
    and f: "\<And>n. ChoosedNode (f n) = ChoosedNode n" "\<And>n. NChildNodes (f n) = NChildNodes n"
      "\<And>n. UNChildNodes (f n) = UNChildNodes n" "\<And>n. ParentNum (f n) = ParentNum n"
    and s: "\<And>n. State (f n) = State n \<or> State (f n) = 4"
  shows "linked out A ls E a gv t K (upd_node a f g)"
proof -
  note i = linkedD [OF lk]
  note o = order_invD [OF i(1)]
  let ?h = "upd_node a f g"
  have st: "State (node ?h p) = State (node g p) \<or> p = a \<and> State (node ?h p) = 4" for p
    using i(3) s by (cases "p = a") simp_all
  have pn: "ParentNum (node ?h p) = ParentNum (node g p)" for p
    unfolding upd_node_frame by (rule nth_update_field) (rule f(4))
  have ne: "State (node g a) \<noteq> 1" using i(3,4) o(8) by auto
  show ?thesis
  proof (rule linked_same [OF lk same_links_upd])
    show "State (node ?h p) = 1 \<longleftrightarrow> State (node g p) = 1" for p using st [of p] ne by auto
    show "State (node ?h p) \<in> {1, 3, 4}" if "p < length (nodes g)" for p using st [of p] o(11) [OF that] by auto
    show "State (node g a) = 4 \<Longrightarrow> State (node ?h a) = 4" using st [of a] by auto
  qed (use f pn in simp_all)
qed

lemma same_links_upd_wait:
  assumes "WaitUnChoosedTxCNs g k = Some w" "wNChildNodes w' = wNChildNodes w"
    "wUNChildNodes w' = wUNChildNodes w" "wChoosedNode w' = wChoosedNode w"
  shows "same_links g (upd_wait k w' g)"
  using assms by (simp add: same_links_def)

lemma linked_upd_wait:
  assumes lk: "linked out A ls E a gv t K g" and "WaitUnChoosedTxCNs g k = Some w"
    "wNChildNodes w' = wNChildNodes w" "wUNChildNodes w' = wUNChildNodes w" "wChoosedNode w' = wChoosedNode w"
  shows "linked out A ls E a gv t K (upd_wait k w' g)"
  by (rule linked_same [OF lk same_links_upd_wait [OF assms(2-)]])
     (use order_invD(11) [OF linkedD(1) [OF lk]] in simp_all)

lemma linked_NumChangedState: "linked out A ls E a gv t K (g\<lparr>NumChangedState := x\<rparr>) \<longleftrightarrow> linked out A ls E a gv t K g"
  by (simp add: linked_def order_inv_def wf_slices_def own_def un_free_def acct_def pend_def closed_def deps_def
      dep_ok_def belongs_def parents_def in_order_def wf_refs_def)

lemma linked_reject:
  assumes "linked out A ls E a gv t K g"
  shows "linked out A ls E a gv t K (reject_node a g)" and "State (node (reject_node a g) a) = 4"
proof -
  have "linked out A ls E a gv t K (g\<lparr>NumChangedState := NumChangedState g + 1\<rparr>)"
    using assms by (simp only: linked_NumChangedState)
  then show "linked out A ls E a gv t K (reject_node a g)"
    unfolding reject_node_def by (rule linked_upd) simp_all
  show "State (node (reject_node a g) a) = 4" using linkedD(3) [OF assms] by (simp add: reject_node_def)
qed

lemma linked_rejected:
  "linked out A ls E a gv t K g \<Longrightarrow> State (node g a) = 4 \<Longrightarrow> linked out A ls E a gv t K' g"
  unfolding linked_def by blast

lemma linked_insert:
  "linked out A ls E a gv t K g \<Longrightarrow> k = t \<or> dep_ok g a k \<Longrightarrow> linked out A ls E a gv t (insert k K) g"
  by (auto simp: linked_def)

text \<open>Changes of \<open>TxCNs\<close>.\<close>

lemma order_inv_TxCNs:
  assumes "order_inv out A ls M g" "\<And>k p. m k = Some p \<Longrightarrow> p < length (nodes g) \<and> tid g p = k"
  shows "order_inv out A ls M (g\<lparr>TxCNs := m\<rparr>)"
proof -
  let ?h = "g\<lparr>TxCNs := m\<rparr>"
  have sel: "nodes ?h = nodes g" "WaitUnChoosedTxCNs ?h = WaitUnChoosedTxCNs g" "TxCNs ?h = m"
    "slices ?h = slices g" "ReadyBatch ?h = ReadyBatch g" by simp_all
  note i = order_invD [OF assms(1)]
  have o: "own ?h"
    unfolding own_def sel
  proof (intro conjI)
    show "\<forall>k p. m k = Some p \<longrightarrow> p < length (nodes g) \<and> tid g p = k" using assms(2) by simp
  qed (insert i(2) [unfolded own_def], elim conjE, assumption)+
  have "pend ?h = pend g" by (simp add: fun_eq_iff pend_def closed_def)
  then have a: "acct M ?h" using i(4) by (simp add: acct_def)
  have "grows g ?h" by (simp add: grows_def)
  then have "deps A ?h" "in_order A ls ?h"
    using grows_deps i(5) grows_in_order [OF _ i(6)] i(8) by blast+
  then show ?thesis
    using i(1,3,7-11) o a by (intro order_invI) (simp_all add: wf_slices_def un_free_def)
qed

lemma linked_TxCNs:
  assumes lk: "linked out A ls E a gv t K g" and m: "m = (TxCNs g)(t := None) \<or> m = (TxCNs g)(t \<mapsto> a)"
  shows "linked out A ls E a gv t K (g\<lparr>TxCNs := m\<rparr>)"
proof -
  note i = linkedD [OF lk]
  have p: "p < length (nodes g) \<and> tid g p = k" if "m k = Some p" for k p
    using that m i(3,6) ownD(5) [OF order_invD(2) [OF i(1)], of k p] by (auto split: if_splits)
  then have "wf_refs (g\<lparr>TxCNs := m\<rparr>)" using i(2) by (auto simp: wf_refs_def ran_def)
  then show ?thesis
    using order_inv_TxCNs [OF i(1) p] i
    by (simp add: linked_def dep_ok_def belongs_def)
qed

lemma pend_append:
  assumes "slices h = slices g @ [[], []]" "closed h = closed g"
  shows "pend h c = pend g c"
proof -
  let ?n = "length (slices g)"
  have "pend h c = (\<Sum>s \<in> {..<?n + 2} - closed g. count_list ((slices g @ [[], []]) ! s) c)"
    unfolding pend_def assms by simp
  also have "\<dots> = (\<Sum>s \<in> {..<?n} - closed g. count_list ((slices g @ [[], []]) ! s) c)"
  proof (rule sum.mono_neutral_right)
    show "\<forall>s \<in> ({..<?n + 2} - closed g) - ({..<?n} - closed g). count_list ((slices g @ [[], []]) ! s) c = 0"
    proof
      fix s assume "s \<in> ({..<?n + 2} - closed g) - ({..<?n} - closed g)"
      then have "s = ?n \<or> s = Suc ?n" by auto
      then show "count_list ((slices g @ [[], []]) ! s) c = 0" by (auto simp: nth_append)
    qed
  qed auto
  also have "\<dots> = pend g c" unfolding pend_def by (rule sum.cong) (auto simp: nth_append)
  finally show ?thesis .
qed

lemma un_free_slices:
  assumes "un_free g"
  shows "\<forall>s < length (slices g @ [[], []]). odd s \<longrightarrow> (slices g @ [[], []]) ! s = []"
  using assms by (auto simp: un_free_def nth_append less_Suc_eq numeral_2_eq_2)

text \<open>A waiting entry for a transaction without one, with lists of its own.\<close>

lemma order_inv_new_wait:
  assumes inv: "order_inv out A ls M g" and wf: "wf_refs g" and k: "WaitUnChoosedTxCNs g k = None"
    and ch: "\<And>e. ch = Some e \<Longrightarrow> e < length (nodes g) \<and> tid g e = k"
  shows "order_inv out A ls M (new_wait k b ch g)"
proof -
  let ?h = "new_wait k b ch g" and ?n = "length (slices g)"
  note i = order_invD [OF inv] and f = new_wait_frame
  have bd: "wNChildNodes w < ?n" if "WaitUnChoosedTxCNs g j = Some w" for j w
    using wf that by (auto simp: wf_refs_def ran_def)
  have nd: "NChildNodes (node g e) < ?n" if "e < length (nodes g)" for e
    using i(1) that by (auto simp: wf_slices_def)
  have w: "WaitUnChoosedTxCNs ?h j = Some w \<Longrightarrow>
      (j = k \<and> wNChildNodes w = ?n \<and> wChoosedNode w = ch) \<or> (j \<noteq> k \<and> WaitUnChoosedTxCNs g j = Some w)" for j w
    by (auto split: if_splits)
  have own: "own ?h" unfolding own_def
  proof (intro conjI allI impI)
    { fix c d assume "c < length (nodes ?h)" "d < length (nodes ?h)"
        "NChildNodes (node ?h c) = NChildNodes (node ?h d)"
      then show "c = d" using ownD(1) [OF i(2), of c d] by simp }
    { fix j v l u assume x: "WaitUnChoosedTxCNs ?h j = Some v" "WaitUnChoosedTxCNs ?h l = Some u"
        "wNChildNodes v = wNChildNodes u"
      show "j = l" using w [OF x(1)] w [OF x(2)] x(3) ownD(2) [OF i(2)] bd [of j v] bd [of l u]
        by (elim disjE conjE) simp_all }
    { fix j v e assume x: "WaitUnChoosedTxCNs ?h j = Some v" "e < length (nodes ?h)"
        "wNChildNodes v = NChildNodes (node ?h e)"
      then have "WaitUnChoosedTxCNs g j = Some v" using w [OF x(1)] nd [of e] by auto
      then show "tid ?h e = j" "wChoosedNode v = Some e" using ownD(3) [OF i(2), of j v e] x by simp_all }
    { fix j v e assume x: "WaitUnChoosedTxCNs ?h j = Some v" "wChoosedNode v = Some e"
      then show "e < length (nodes ?h)" "tid ?h e = j"
        using w [OF x(1)] ownD(4) [OF i(2), of j v e] ch [of e] by auto }
    { fix j p assume "TxCNs ?h j = Some p"
      then show "p < length (nodes ?h)" "tid ?h p = j" using ownD(5) [OF i(2), of j p] by simp_all }
  qed
  have cl: "closed ?h = closed g" by (simp add: closed_def)
  have ac: "acct M ?h" using i(4) pend_append [OF f(2) cl] by (simp add: acct_def)
  have gr: "grows g ?h" using k by (auto simp: grows_def nth_append)
  have un: "un_free ?h"
    using i(3) un_free_slices [OF i(3)] by (auto simp: un_free_def ran_def split: if_splits)
  have "wf_slices ?h" using i(1) by (auto simp: wf_slices_def)
  then show ?thesis
    using own un ac grows_deps [OF gr i(5)] grows_in_order [OF gr i(6)] i(7-11)
    by (intro order_invI) (simp_all add: new_wait_def)
qed

lemma linked_new_wait:
  assumes lk: "linked out A ls E a gv t K g" and k: "WaitUnChoosedTxCNs g k = None"
    and ch: "ch = None \<or> ch = Some a \<and> k = t"
  shows "linked out A ls E a gv t K (new_wait k b ch g)"
proof -
  note i = linkedD [OF lk]
  let ?h = "new_wait k b ch g"
  have "order_inv out A ls [] ?h"
    using i(3,6) ch by (intro order_inv_new_wait [OF i(1,2) k]) auto
  moreover have "wf_refs ?h" using i(2) by (auto simp: wf_refs_def ran_def split: if_splits)
  moreover have "grows g ?h" using k by (auto simp: grows_def nth_append)
  moreover have "NChildNodes (node g a) < length (slices g)"
    using order_invD(1) [OF i(1)] i(3) by (auto simp: wf_slices_def)
  then have "nchildren ?h a = nchildren g a" by (simp add: nth_append)
  moreover have "\<exists>w. WaitUnChoosedTxCNs ?h t = Some w \<and> wChoosedNode w = None" if E
    using i(9) [OF that] k by auto
  ultimately show ?thesis using i(1-8,10) grows_dep_ok [of g ?h a] unfolding linked_def by auto
qed

text \<open>A new edge: the node is appended to an open list, and counts it.\<close>

lemma count_list_append1: "count_list (xs @ [a]) x = count_list xs x + (if x = a then 1 else 0)"
  by (induction xs) auto

lemma linked_add_edge:
  assumes lk: "linked out A ls E a gv t K g"
    and s: "s < length (slices g)" "even s" "s \<notin> closed g" and b: "belongs g k s"
  shows "linked out A ls E a gv t (insert k K) (add_parent a k (append_slice s a g))"
proof -
  note l = linkedD [OF lk]
  note i = order_invD [OF l(1)]
  let ?h = "add_parent a k (append_slice s a g)"
  have sl: "slices ?h = (slices g)[s := slices g ! s @ [a]]"
    and fr: "TxCNs ?h = TxCNs g" "WaitUnChoosedTxCNs ?h = WaitUnChoosedTxCNs g"
      "ReadyBatch ?h = ReadyBatch g" "length (nodes ?h) = length (nodes g)"
    by (simp_all add: add_parent_def)
  have nd: "ChoosedNode (node ?h p) = ChoosedNode (node g p)" "NChildNodes (node ?h p) = NChildNodes (node g p)"
      "UNChildNodes (node ?h p) = UNChildNodes (node g p)" "State (node ?h p) = State (node g p)" for p
    unfolding add_parent_def upd_node_frame append_slice_frame by (rule nth_update_field, simp)+
  have pn: "ParentNum (node ?h p) = ParentNum (node g p) + (if p = a then 1 else 0)" for p
    using l(3) by (simp add: add_parent_def)
  have own: "own ?h" using i(2) unfolding own_def fr nd .
  have cl: "closed ?h = closed g" unfolding closed_def fr nd ..
  have pend: "pend ?h x = pend g x + (if x = a then 1 else 0)" for x
  proof -
    let ?I = "{..<length (slices g)} - closed g"
    have "pend ?h x = (\<Sum>r \<in> ?I. count_list (slices g ! r) x + (if r = s \<and> x = a then 1 else 0))"
      unfolding pend_def cl sl using s(1)
      by (intro sum.cong) (auto simp: nth_list_update count_list_append1)
    also have "\<dots> = pend g x + (\<Sum>r \<in> ?I. if r = s \<and> x = a then 1 else 0)"
      by (simp add: pend_def sum.distrib)
    also have "(\<Sum>r \<in> ?I. if r = s \<and> x = a then 1 else 0) = (if x = a then 1 else 0::nat)"
      using s by (cases "x = a") simp_all
    finally show ?thesis .
  qed
  have ac: "acct [] ?h" using i(4) unfolding acct_def fr pn pend by auto
  have inset: "set (slices g ! r) \<subseteq> set (slices ?h ! r)" for r
    unfolding sl using s(1) by (cases "r = s") auto
  have gr: "grows g ?h" unfolding grows_def fr nd using sl inset by simp
  have un: "un_free ?h"
  proof -
    have "\<forall>n \<in> set (nodes ?h). even (NChildNodes n)" "\<forall>n \<in> set (nodes ?h). odd (UNChildNodes n)"
      using i(3) nodes_all [OF fr(4), of NChildNodes even] nodes_all [OF fr(4), of UNChildNodes odd] nd
      unfolding un_free_def by simp_all
    moreover have "slices ?h ! r = []" if "r < length (slices g)" "odd r" for r
    proof -
      have "r \<noteq> s" using that(2) s(2) by blast
      then show ?thesis using i(3) that unfolding sl un_free_def by simp
    qed
    ultimately show ?thesis using i(3) unfolding un_free_def fr by (simp add: sl)
  qed
  have wf: "wf_slices ?h"
    using extends_trans [OF extends_append_slice [OF l(3)] extends_add_parent(1)] i(1)
    by (auto simp: extends_def)
  have z: "ParentNum (node ?h c) = 0" if "c \<in> set ls" for c using that l(4) i(9) pn [of c] by auto
  have "order_inv out A ls [] ?h"
    using own un ac wf grows_deps [OF gr i(5)] grows_in_order [OF gr i(6)] i(7,8,10,11) z
    by (intro order_invI) (simp_all add: fr nd)
  moreover have "dep_ok ?h a k"
  proof -
    have "a \<in> set (slices ?h ! s)" unfolding sl using s(1) by simp
    then show ?thesis using s(1) grows_belongs [OF gr b] growsD(2) [OF gr] unfolding dep_ok_def by auto
  qed
  moreover have "wf_refs ?h" using l(2) unfolding wf_refs_def fr sl by simp
  moreover have "set (nchildren ?h a) \<subseteq> {a}"
    using l(7) s(1) unfolding nd sl by (cases "s = NChildNodes (node g a)") simp_all
  ultimately show ?thesis
    using l grows_dep_ok [OF gr, of a] unfolding linked_def fr nd by auto
qed

lemma linked_add_reject_entry:
  "linked out A ls E a gv t K g \<Longrightarrow> linked out A ls E a gv t K (add_reject_entry a t g)"
  by (auto simp: add_reject_entry_def linked_new_wait split: option.split)

lemma linked_drop_tx:
  assumes "linked out A ls E a gv t K g"
  shows "linked out A ls E a gv t K (drop_tx a t g)"
proof -
  have "linked out A ls E a gv t K (add_reject_entry a t g)" using assms by (rule linked_add_reject_entry)
  then show ?thesis unfolding drop_tx_def Let_def by (rule linked_TxCNs) simp
qed

lemma linked_ensure_wait:
  "linked out A ls E a gv t K g \<Longrightarrow> linked out A ls E a gv t K (ensure_wait k g)"
  by (auto simp: ensure_wait_def linked_new_wait split: option.split)

lemma drop_tx_node: "nodes (drop_tx a t g) = nodes g"
  by (simp add: drop_tx_def Let_def add_reject_entry_def split: option.split)

lemma linked_absent_parent:
  assumes lk: "linked out A ls E a gv t K g"
  shows "linked out A ls E a gv t (insert k K) (fst (absent_parent a t k ptx g))"
    and "snd (absent_parent a t k ptx g) \<Longrightarrow> State (node (fst (absent_parent a t k ptx g)) a) = 4"
proof -
  let ?g1 = "ensure_wait k g"
  obtain w where w: "WaitUnChoosedTxCNs ?g1 k = Some w" using ensure_wait_entry by blast
  let ?w1 = "w\<lparr>ChildNum := ChildNum w + 1, ChildWait := put t a (ChildWait w)\<rparr>"
  let ?g2 = "upd_node a (WaitPTX_update (put k True)) (upd_wait k ?w1 ?g1)"
  have l1: "linked out A ls E a gv t K (upd_wait k ?w1 ?g1)"
    by (rule linked_upd_wait [OF linked_ensure_wait [OF lk] w]) simp_all
  have l2: "linked out A ls E a gv t K ?g2" by (rule linked_upd [OF l1]) simp_all
  have w2: "WaitUnChoosedTxCNs ?g2 k = Some ?w1" by simp
  have eq: "absent_parent a t k ptx g =
      (if wChoosedNode ?w1 = None
       then (upd_wait k (merge_wait (KV ptx) ?w1) (add_parent a k (append_slice (wNChildNodes ?w1) a ?g2)), False)
       else (reject_node a ?g2, True))"
    unfolding absent_parent_def Let_def w option.sel ..
  have "linked out A ls E a gv t (insert k K)
      (upd_wait k (merge_wait (KV ptx) ?w1) (add_parent a k (append_slice (wNChildNodes ?w1) a ?g2)))"
    if n: "wChoosedNode ?w1 = None"
  proof -
    note o = order_invD [OF linkedD(1) [OF l2]]
    have s: "wNChildNodes ?w1 < length (slices ?g2)" "even (wNChildNodes ?w1)"
      using linkedD(2) [OF l2] o(3) w2 unfolding wf_refs_def un_free_def by (metis ranI)+
    have "wNChildNodes ?w1 \<notin> closed ?g2"
      using ownD(3) [OF o(2) w2] n by (force simp: closed_def)
    moreover have "belongs ?g2 k (wNChildNodes ?w1)" using w2 unfolding belongs_def by blast
    ultimately have l3: "linked out A ls E a gv t (insert k K) (add_parent a k (append_slice (wNChildNodes ?w1) a ?g2))"
      using linked_add_edge [OF l2 s] by blast
    have w3: "WaitUnChoosedTxCNs (add_parent a k (append_slice (wNChildNodes ?w1) a ?g2)) k = Some ?w1"
      by (simp add: add_parent_def)
    show ?thesis by (rule linked_upd_wait [OF l3 w3]) simp_all
  qed
  then show "linked out A ls E a gv t (insert k K) (fst (absent_parent a t k ptx g))"
    using linked_rejected [OF linked_reject [OF l2]] unfolding eq by simp
  show "snd (absent_parent a t k ptx g) \<Longrightarrow> State (node (fst (absent_parent a t k ptx g)) a) = 4"
    using linked_reject(2) [OF l2] unfolding eq by (cases "wChoosedNode w") simp_all
qed

lemma linked_inherit_waits:
  "linked out A ls E a gv t K g \<Longrightarrow> inherit_waits a t ks g = Inr h \<Longrightarrow>
     linked out A ls E a gv t K h \<and> State (node h a) = State (node g a)"
proof (induction ks arbitrary: g)
  case (Cons k ks)
  then obtain w where w: "WaitUnChoosedTxCNs g k = Some w" by (auto split: option.splits)
  let ?g1 = "upd_node a (WaitPTX_update (put k True)) g"
  let ?g2 = "upd_wait k (w\<lparr>ChildWait := put t a (ChildWait w)\<rparr>) ?g1"
  have l1: "linked out A ls E a gv t K ?g1" by (rule linked_upd [OF Cons.prems(1)]) simp_all
  have w1: "WaitUnChoosedTxCNs ?g1 k = Some w" using w by simp
  have l2: "linked out A ls E a gv t K ?g2" by (rule linked_upd_wait [OF l1 w1]) simp_all
  have "inherit_waits a t ks ?g2 = Inr h" using Cons.prems(2) w by simp
  moreover have "State (node ?g2 a) = State (node g a)" using linkedD(3) [OF Cons.prems(1)] by simp
  ultimately show ?case using Cons.IH [OF l2] by simp
qed simp

lemma linked_present_parent:
  assumes lk: "linked out A ls E a gv t K g" and p: "TxCNs g k = Some p"
    and r: "present_parent a t k ptx p g = Inr (h, b)"
  shows "linked out A ls E a gv t (insert k K) h" and "b \<Longrightarrow> State (node h a) = 4"
proof -
  define g1 where "g1 = (if write_mismatch ptx (WriteSet (ChoosedNode (node g p)))
                         then drop_tx a t (reject_node a g) else g)"
  have l1: "linked out A ls E a gv t K g1"
    unfolding g1_def using lk linked_drop_tx [OF linked_reject(1) [OF lk]] by simp
  note o = order_invD [OF linkedD(1) [OF l1]]
  have "ChoosedNode (node g1 p) = ChoosedNode (node g p)" "length (nodes g1) = length (nodes g)"
    unfolding g1_def by (auto simp: drop_tx_node reject_node_def intro: nth_update_field)
  then have p1: "p < length (nodes g1)" "tid g1 p = k"
    using ownD(5) [OF order_invD(2) [OF linkedD(1) [OF lk]] p] by simp_all
  have rj: "linked out A ls E a gv t (insert k K) (reject_node a g1)" "State (node (reject_node a g1) a) = 4"
    using linked_rejected [OF linked_reject [OF l1]] linked_reject(2) [OF l1] by blast+
  have "linked out A ls E a gv t (insert k K) h \<and> (b \<longrightarrow> State (node h a) = 4)"
  proof -
    consider (c1) "State (node g1 p) = 1" | (c3) "State (node g1 p) = 3" | (c4) "State (node g1 p) = 4"
      using o(11) [OF p1(1)] by blast
    then show ?thesis
    proof cases
      case c1
      have "dep_ok g1 a k" using p1 c1 unfolding dep_ok_def by blast
      then have l2: "linked out A ls E a gv t (insert k K) g1" using linked_insert [OF l1] by blast
      define g2 where "g2 = (if state_mismatch ptx (GState g1) then reject_node a g1 else g1)"
      have l3: "linked out A ls E a gv t (insert k K) g2" unfolding g2_def using l2 rj by simp
      have "(if State (node g2 a) = 4 then Inr (drop_tx a t g2, True) else Inr (g2, False)) = (Inr (h, b) :: (TxConsensusGraph \<times> bool) go)"
        using r c1 unfolding present_parent_def Let_def g1_def [symmetric] g2_def [symmetric] by simp
      then show ?thesis using l3 linked_drop_tx [OF l3] by (auto simp: drop_tx_node split: if_splits)
    next
      case c3
      let ?s = "NChildNodes (node g1 p)"
      have "?s < length (slices g1)" "even ?s" using o(1,3) p1(1) by (auto simp: wf_slices_def un_free_def)
      moreover have "?s \<notin> closed g1" using not_closed [OF o(2) p1(1)] c3 by simp
      moreover have "belongs g1 k ?s" using p1 unfolding belongs_def by blast
      ultimately have "linked out A ls E a gv t (insert k K) (add_parent a k (append_slice ?s a g1))"
        by (rule linked_add_edge [OF l1])
      moreover have "inherit_waits a t (map fst (WaitPTX (node g1 p))) (add_parent a k (append_slice ?s a g1)) = Inr h"
          "\<not> b"
        using r c3 unfolding present_parent_def Let_def g1_def [symmetric] by auto
      ultimately show ?thesis using linked_inherit_waits by blast
    next
      case c4
      then have "inherit_waits a t (map fst (WaitPTX (node g1 p))) (reject_node a g1) = Inr h"
        using r unfolding present_parent_def Let_def g1_def [symmetric] by auto
      then show ?thesis using linked_inherit_waits [OF rj(1)] rj(2) by auto
    qed
  qed
  then show "linked out A ls E a gv t (insert k K) h" and "b \<Longrightarrow> State (node h a) = 4" by blast+
qed

lemma linked_ptx_loop:
  "linked out A ls E a gv t K g \<Longrightarrow> ptx_loop a t ps g = Inr h \<Longrightarrow>
     linked out A ls E a gv t (K \<union> fst ` set ps) h"
proof (induction ps arbitrary: K g)
  case (Cons q ps)
  obtain k ptx where q: "q = (k, ptx)" by force
  obtain g1 b where g1: "(case TxCNs g k of None \<Rightarrow> Inr (absent_parent a t k ptx g)
        | Some p \<Rightarrow> present_parent a t k ptx p g) = Inr (g1, b)"
      "(if b then Inr g1 else ptx_loop a t ps g1) = Inr h"
    using Cons.prems(2) q by auto
  have l1: "linked out A ls E a gv t (insert k K) g1 \<and> (b \<longrightarrow> State (node g1 a) = 4)"
  proof (cases "TxCNs g k")
    case None
    then show ?thesis using g1(1) linked_absent_parent [OF Cons.prems(1), of k ptx] by simp
  next
    case (Some p)
    then have "present_parent a t k ptx p g = Inr (g1, b)" using g1(1) by simp
    then show ?thesis using linked_present_parent [OF Cons.prems(1) Some] by blast
  qed
  show ?case
  proof (cases b)
    case True
    then show ?thesis using g1(2) l1 linked_rejected by auto
  next
    case False
    then have "linked out A ls E a gv t (insert k K \<union> fst ` set ps) h"
      using g1(2) l1 Cons.IH [of "insert k K" g1] by simp
    then show ?thesis by (simp add: q)
  qed
qed simp

lemma linked_admit:
  assumes lk: "linked out A ls E a gv t {} g"
  shows "linked out A ls E a gv t {} (admit a t g)"
proof -
  have s: "linked out A ls E a gv t {} (if c then upd_node a (State_update (\<lambda>_. 4)) h else h)"
    if "linked out A ls E a gv t {} h" for c h
    using that linked_upd [OF that, of "State_update (\<lambda>_. 4)"] by simp
  define g1 where "g1 = (if ConsensusState (ChoosedNode (node g a)) = 3
                         then upd_node a (State_update (\<lambda>_. 4)) g else g)"
  have l1: "linked out A ls E a gv t {} g1" unfolding g1_def by (rule s [OF lk])
  show ?thesis
  proof (cases "WaitUnChoosedTxCNs g1 t")
    case None
    then show ?thesis unfolding admit_def Let_def g1_def [symmetric]
      using l1 linked_new_wait [OF l1 None] by simp
  next
    case (Some w)
    define g2 where "g2 = (if DiffWaitWKV w then upd_node a (State_update (\<lambda>_. 4)) g1 else g1)"
    have l2: "linked out A ls E a gv t {} g2" unfolding g2_def by (rule s [OF l1])
    let ?g3 = "upd_node a (State_update (\<lambda>_. 4)) g2"
    have l3: "linked out A ls E a gv t {} ?g3" using s [OF l2, of True] by simp
    have "WaitUnChoosedTxCNs ?g3 t = Some w" using Some by (simp add: g2_def)
    then have "linked out A ls E a gv t {} (upd_wait t (w\<lparr>DiffWaitWKV := True\<rparr>) ?g3)"
      by (rule linked_upd_wait [OF l3]) simp_all
    then show ?thesis
      unfolding admit_def Let_def g1_def [symmetric] Some option.case g2_def [symmetric] using l2 by simp
  qed
qed

lemma admit_unchosen:
  assumes "a < length (nodes g)" "ConsensusState (ChoosedNode (node g a)) = 3"
  shows "State (node (admit a t g) a) = 4"
  using assms by (simp add: admit_def Let_def split: option.split)

text \<open>An order of visiting that visits exactly the entries of the map.\<close>

definition visits_all :: "ptx_order \<Rightarrow> bool" where
  "visits_all rng \<longleftrightarrow> (\<forall>m. fst ` set (rng m) = fst ` set m)"

lemma linked_link:
  assumes v: "visits_all rng" and lk: "linked out A ls E a gv t {} g"
    and cs: "ConsensusState (ChoosedNode (node g a)) \<noteq> 2" "UNPTx (ChoosedNode (node g a)) = []"
    and s: "ConsensusState (ChoosedNode (node g a)) = 3 \<Longrightarrow> State (node g a) = 4"
    and l: "link rng a t g = Inr h"
  shows "linked out A ls E a gv t (fst ` set (PTx (ChoosedNode (node g a)))) h"
    and "ChoosedNode (node h a) = ChoosedNode (node g a)"
proof -
  have "linked out A ls E a gv t (fst ` set (PTx (ChoosedNode (node g a)))) h
      \<and> ChoosedNode (node h a) = ChoosedNode (node g a)"
  proof (cases "State (node g a) = 4")
    case True
    then show ?thesis using l linked_rejected [OF lk True] by (simp add: link_def)
  next
    case False
    let ?ps = "rng (PTx (ChoosedNode (node g a)))"
    obtain g2 where g2: "ptx_loop a t ?ps (g\<lparr>TxCNs := (TxCNs g)(t \<mapsto> a)\<rparr>) = Inr g2"
      "h = (if State (node g2 a) \<noteq> 4
            then fold (unptx_step a) (map fst (rng (UNPTx (ChoosedNode (node g2 a))))) g2 else g2)"
      using l False s unfolding link_def rkv_consensus_other [OF cs(1)]
      by (cases "ConsensusState (ChoosedNode (node g a)) = 3") auto
    have "linked out A ls E a gv t {} (g\<lparr>TxCNs := (TxCNs g)(t \<mapsto> a)\<rparr>)" by (rule linked_TxCNs [OF lk]) simp
    from linked_ptx_loop [OF this g2(1)]
    have l2: "linked out A ls E a gv t (fst ` set (PTx (ChoosedNode (node g a)))) g2"
      using v by (simp add: visits_all_def)
    have c: "ChoosedNode (node g2 a) = ChoosedNode (node g a)"
      using linkedD(10) [OF l2] linkedD(10) [OF lk] by simp
    have "fst ` set (rng []) = {}" using v by (simp add: visits_all_def)
    then have "rng (UNPTx (ChoosedNode (node g2 a))) = []" unfolding c cs(2) by simp
    then have "h = g2" using g2(2) by simp
    then show ?thesis using l2 c by simp
  qed
  then show "linked out A ls E a gv t (fst ` set (PTx (ChoosedNode (node g a)))) h"
    and "ChoosedNode (node h a) = ChoosedNode (node g a)" by blast+
qed

subsection \<open>A transaction that was waited for\<close>

text \<open>The node takes over the child lists of the entry, which is removed or remembers the node.\<close>

definition take_over :: "addr \<Rightarrow> string \<Rightarrow> WaitTxConsensusNode \<Rightarrow> WaitTxConsensusNode option
    \<Rightarrow> TxConsensusGraph \<Rightarrow> TxConsensusGraph" where
  "take_over a t w x g =
     (upd_node a (\<lambda>n. n\<lparr>NChildNodes := wNChildNodes w, UNChildNodes := wUNChildNodes w\<rparr>) g)
       \<lparr>WaitUnChoosedTxCNs := (WaitUnChoosedTxCNs g)(t := x)\<rparr>"

lemma take_over_node:
  assumes "a < length (nodes g)"
  shows "ChoosedNode (node (take_over a t w x g) p) = ChoosedNode (node g p)"
    "State (node (take_over a t w x g) p) = State (node g p)"
    "ParentNum (node (take_over a t w x g) p) = ParentNum (node g p)"
    "NChildNodes (node (take_over a t w x g) p) = (if p = a then wNChildNodes w else NChildNodes (node g p))"
    "UNChildNodes (node (take_over a t w x g) p) = (if p = a then wUNChildNodes w else UNChildNodes (node g p))"
  using assms by (cases "p = a"; simp add: take_over_def)+

lemma take_over_frame:
  "length (nodes (take_over a t w x g)) = length (nodes g)" "slices (take_over a t w x g) = slices g"
  "TxCNs (take_over a t w x g) = TxCNs g" "ReadyBatch (take_over a t w x g) = ReadyBatch g"
  "WaitUnChoosedTxCNs (take_over a t w x g) = (WaitUnChoosedTxCNs g)(t := x)"
  by (simp_all add: take_over_def)

lemma take_over_dep:
  assumes lk: "linked out A ls E a gv t K g" and w: "WaitUnChoosedTxCNs g t = Some w"
    and x: "x = None \<or> (\<exists>w'. x = Some w' \<and> wNChildNodes w' = wNChildNodes w)"
    and d: "dep_ok g c k" and c: "c \<noteq> a \<or> k \<noteq> t"
  shows "dep_ok (take_over a t w x g) c k"
proof -
  let ?h = "take_over a t w x g"
  note i = linkedD [OF lk]
  note n = take_over_node [OF i(3)] and f = take_over_frame
  consider (committed) e where "e < length (nodes g)" "tid g e = k" "State (node g e) = 1"
    | (edge) s where "s < length (slices g)" "c \<in> set (slices g ! s)" "belongs g k s"
    using d by (auto simp: dep_ok_def)
  then show ?thesis
  proof cases
    case committed
    then show ?thesis unfolding dep_ok_def n f by blast
  next
    case edge
    consider (node) e where "e < length (nodes g)" "tid g e = k" "NChildNodes (node g e) = s"
      | (wait) v where "WaitUnChoosedTxCNs g k = Some v" "wNChildNodes v = s"
      using edge(3) by (auto simp: belongs_def)
    then have "belongs ?h k s"
    proof cases
      case node
      have "e \<noteq> a"
      proof
        assume "e = a"
        then have "c = a" "k = t" using i(6,7) edge(2) node(2,3) by auto
        then show False using c by simp
      qed
      then show ?thesis using node unfolding belongs_def f n by auto
    next
      case wait
      show ?thesis
      proof (cases "k = t")
        case True
        then have "s = wNChildNodes w" using wait w by simp
        then show ?thesis using True i(3,6) unfolding belongs_def f n by auto
      next
        case False
        then show ?thesis using wait unfolding belongs_def f by auto
      qed
    qed
    then show ?thesis using edge(1,2) unfolding dep_ok_def f by blast
  qed
qed


lemma take_over_own:
  assumes lk: "linked out A ls E a gv t K g" and w: "WaitUnChoosedTxCNs g t = Some w" "wChoosedNode w = None"
    and x: "x = None \<or> (\<exists>w'. x = Some w' \<and> wNChildNodes w' = wNChildNodes w \<and> wChoosedNode w' = Some a)"
  shows "own (take_over a t w x g)"
  unfolding own_def
proof (intro conjI allI impI)
  let ?h = "take_over a t w x g"
  note i = linkedD [OF lk]
  note o = ownD [OF order_invD(2) [OF i(1)]] and n = take_over_node [OF i(3)] and f = take_over_frame
  have free: "wNChildNodes w \<noteq> NChildNodes (node g e)" if "e < length (nodes g)" for e
    using o(3) [OF w(1) that] w(2) by auto
  have e: "k \<noteq> t \<and> WaitUnChoosedTxCNs g k = Some v \<or> k = t \<and> wNChildNodes v = wNChildNodes w \<and> wChoosedNode v = Some a"
    if "WaitUnChoosedTxCNs ?h k = Some v" for k v
    using that x unfolding f by (auto split: if_splits)
  { fix c d assume x: "c < length (nodes ?h)" "d < length (nodes ?h)"
      "NChildNodes (node ?h c) = NChildNodes (node ?h d)"
    have l: "c < length (nodes g)" "d < length (nodes g)" using x(1,2) unfolding f by simp_all
    show "c = d"
    proof (cases "c = a \<or> d = a")
      case True
      then show ?thesis using x(3) free [OF l(1)] free [OF l(2)] unfolding n by (metis (full_types))
    next
      case False
      then show ?thesis using x(3) unfolding n by (intro o(1) [OF l]) simp
    qed }
  { fix k v l u assume y: "WaitUnChoosedTxCNs ?h k = Some v" "WaitUnChoosedTxCNs ?h l = Some u"
      "wNChildNodes v = wNChildNodes u"
    consider "k = t" "l = t" | "k \<noteq> t" "WaitUnChoosedTxCNs g k = Some v" "wNChildNodes u = wNChildNodes w"
      | "l \<noteq> t" "WaitUnChoosedTxCNs g l = Some u" "wNChildNodes v = wNChildNodes w"
      | "WaitUnChoosedTxCNs g k = Some v" "WaitUnChoosedTxCNs g l = Some u"
      using e [OF y(1)] e [OF y(2)] by blast
    then show "k = l"
    proof cases
      case 2
      then show ?thesis using o(2) [OF w(1) 2(2)] y(3) by simp
    next
      case 3
      then show ?thesis using o(2) [OF w(1) 3(2)] y(3) by simp
    next
      case 4
      then show ?thesis using o(2) [OF 4] y(3) by blast
    qed simp }
  { fix k v d assume y: "WaitUnChoosedTxCNs ?h k = Some v" "d < length (nodes ?h)"
      "wNChildNodes v = NChildNodes (node ?h d)"
    have "tid g d = k \<and> wChoosedNode v = Some d"
      using e [OF y(1)]
    proof (elim disjE conjE)
      assume k: "k \<noteq> t" "WaitUnChoosedTxCNs g k = Some v"
      then have "d \<noteq> a" using y(3) o(2) [OF w(1) k(2)] unfolding n by (cases "d = a") auto
      then show ?thesis using y(2,3) o(3) [OF k(2), of d] unfolding f n by simp
    next
      assume k: "k = t" "wNChildNodes v = wNChildNodes w" "wChoosedNode v = Some a"
      then have "d = a" using y(2,3) free [of d] unfolding f n by (cases "d = a") simp_all
      then show ?thesis using k i(6) by simp
    qed
    then show "tid ?h d = k" "wChoosedNode v = Some d" unfolding n by simp_all }
  { fix k v b assume y: "WaitUnChoosedTxCNs ?h k = Some v" "wChoosedNode v = Some b"
    show "b < length (nodes ?h)" "tid ?h b = k"
      using e [OF y(1)] y(2) o(4) [of k v b] i(3,6) unfolding f n by auto }
  { fix k p assume "TxCNs ?h k = Some p"
    then show "p < length (nodes ?h)" "tid ?h p = k" using o(5) [of k p] unfolding f n by auto }
qed

lemma take_over_order:
  assumes lk: "linked out A ls E a gv t K g" and w: "WaitUnChoosedTxCNs g t = Some w" "wChoosedNode w = None"
    and x: "x = None \<or> (\<exists>w'. x = Some w' \<and> wNChildNodes w' = wNChildNodes w \<and>
              wUNChildNodes w' = wUNChildNodes w \<and> wChoosedNode w' = Some a)"
  shows "order_inv out A ls [] (take_over a t w x g)"
proof -
  let ?h = "take_over a t w x g"
  note i = linkedD [OF lk]
  note o = order_invD [OF i(1)] and n = take_over_node [OF i(3)] and f = take_over_frame
  have own: "own ?h" using x by (intro take_over_own [OF lk w]) blast
  have wl: "wNChildNodes w < length (slices g)" "wUNChildNodes w < length (slices g)"
    "even (wNChildNodes w)" "odd (wUNChildNodes w)"
    using i(2) o(3) w(1) by (auto simp: wf_refs_def un_free_def ran_def)
  have ns: "n = (node g a)\<lparr>NChildNodes := wNChildNodes w, UNChildNodes := wUNChildNodes w\<rparr> \<or> n \<in> set (nodes g)"
    if "n \<in> set (nodes ?h)" for n
    using that in_set_update unfolding take_over_def by fastforce
  have wf: "wf_slices ?h"
    using o(1) wl ns unfolding wf_slices_def f by fastforce
  have un: "un_free ?h"
  proof -
    have "\<forall>n \<in> set (nodes ?h). even (NChildNodes n) \<and> odd (UNChildNodes n)"
      using o(3) wl ns unfolding un_free_def by fastforce
    moreover have "even (wNChildNodes v) \<and> odd (wUNChildNodes v)" if v: "v \<in> ran (WaitUnChoosedTxCNs ?h)" for v
    proof -
      have "v \<in> ran (WaitUnChoosedTxCNs g) \<or> wNChildNodes v = wNChildNodes w \<and> wUNChildNodes v = wUNChildNodes w"
        using v x unfolding f by (auto simp: ran_def split: if_splits)
      then show ?thesis using o(3) wl by (auto simp: un_free_def)
    qed
    ultimately show ?thesis using o(3) unfolding un_free_def f by blast
  qed
  have "State (node g a) \<noteq> 1" using i(3,4) o(8) by auto
  then have cl: "closed ?h = closed g" unfolding closed_def f n by (auto split: if_splits)
  have "pend ?h c = pend g c" for c unfolding pend_def f cl ..
  then have ac: "acct [] ?h" using o(4) unfolding acct_def f n by simp
  have pr: "parents ?h c = parents g c" for c unfolding parents_def n ..
  have dp: "deps A ?h"
    unfolding deps_def f pr
  proof (intro ballI conjI)
    fix c assume c: "c \<in> A"
    then show "c < length (nodes g)" using o(5) by (simp add: deps_def)
    fix k assume "k \<in> parents g c"
    then have "dep_ok g c k" using o(5) c by (simp add: deps_def)
    then show "dep_ok ?h c k" using c i(5) x by (intro take_over_dep [OF lk w(1)]) auto
  qed
  have io: "in_order A ls ?h" using o(6) unfolding in_order_def pr n .
  show ?thesis
  proof (rule order_invI [OF wf own un ac dp io o(7)])
    show "set ls = {c. c < length (nodes ?h) \<and> State (node ?h c) = 1}" unfolding f n by (rule o(8))
    show "ParentNum (node ?h c) = 0" if "c \<in> set ls" for c unfolding n using that by (rule o(9))
    show "out @ ReadyBatch ?h = map TxResult (txs ?h ls)" unfolding f n by (rule o(10))
    show "State (node ?h c) \<in> {1, 3, 4}" if "c < length (nodes ?h)" for c
      unfolding n using that f(1) [of a t w x g] by (intro o(11)) simp
  qed
qed

lemma order_inv_neutral:
  assumes inv: "order_inv out A ls M g" and l: "same_links g h" and r: "ReadyBatch h = ReadyBatch g"
    and st: "\<And>p. p < length (nodes g) \<Longrightarrow> State (node h p) = State (node g p)"
    and pn: "\<And>p. p < length (nodes g) \<Longrightarrow> ParentNum (node h p) = ParentNum (node g p)"
  shows "order_inv out A ls M h"
proof -
  note o = order_invD [OF inv] and d = same_linksD [OF l]
  have s: "State (node h p) = 1 \<longleftrightarrow> State (node g p) = 1" if "p < length (nodes g)" for p
    using st [OF that] by simp
  have ac: "acct M h" using o(4) same_links_pend(2) [OF l s] pn unfolding acct_def d(1) by simp
  show ?thesis
  proof (rule order_inv_transfer [OF inv l r s ac])
    show "ParentNum (node h c) = 0" if "c \<in> set ls" for c
      using that pn [of c] o(8) o(9) [OF that] by simp
    show "State (node h c) \<in> {1, 3, 4}" if "c < length (nodes g)" for c
      using st [OF that] o(11) [OF that] by simp
  qed
qed

lemma resolve_wait_order:
  assumes lk: "linked out A ls True a gv t K g"
  defines "h \<equiv> resolve_wait a t g"
  shows "order_inv out A ls [] h" "ChoosedNode (node h a) = gv" "State (node h a) = State (node g a)"
    "length (nodes h) = length (nodes g)"
    "State (node g a) \<noteq> 4 \<Longrightarrow> k \<in> K \<Longrightarrow> k \<noteq> t \<Longrightarrow> dep_ok h a k"
proof -
  note i = linkedD [OF lk]
  obtain w where w: "WaitUnChoosedTxCNs g t = Some w" "wChoosedNode w = None" using i(9) by blast
  define x where "x = (if State (node g a) \<noteq> 4 then None else Some (w\<lparr>wChoosedNode := Some a\<rparr>))"
  let ?g0 = "take_over a t w x g"
  note n = take_over_node [OF i(3)] and f = take_over_frame
  have o: "order_inv out A ls [] ?g0" by (rule take_over_order [OF lk w]) (simp add: x_def)
  define g1 where
    "g1 = upd_node a (\<lambda>n. n\<lparr>NChildNodes := wNChildNodes w, UNChildNodes := wUNChildNodes w\<rparr>) g"
  have st1: "State (node g1 a) = State (node g a)" using i(3) by (simp add: g1_def)
  have h: "h = (if State (node g a) \<noteq> 4
      then (drop_waits t (map snd (ChildWait w)) g1)\<lparr>WaitUnChoosedTxCNs := (WaitUnChoosedTxCNs g1)(t := None)\<rparr>
      else upd_wait t (w\<lparr>wChoosedNode := Some a\<rparr>) (g1\<lparr>NumChangedState := NumChangedState g1 + ChildNum w\<rparr>))"
    unfolding h_def resolve_wait_def w(1) option.case g1_def [symmetric] Let_def st1 ..
  have n0: "nodes ?g0 = nodes g1" by (simp add: take_over_def g1_def)
  have len: "length (nodes h) = length (nodes ?g0)" unfolding h n0 by simp
  have nd': "F (node h p) = F (node ?g0 p)" if "\<And>n m. F (n\<lparr>WaitPTX := m\<rparr>) = F n" "p < length (nodes g)"
    for p and F :: "TxConsensusNode \<Rightarrow> int"
    using that drop_waits_field [OF that(1), of p g1] unfolding h n0 by (simp add: g1_def)
  have nn: "F (node h p) = F (node ?g0 p)" if "\<And>n m. F (n\<lparr>WaitPTX := m\<rparr>) = F n" "p < length (nodes g)"
    for p and F :: "TxConsensusNode \<Rightarrow> nat"
    using that drop_waits_field [OF that(1), of p g1] unfolding h n0 by (simp add: g1_def)
  have nc: "F (node h p) = F (node ?g0 p)" if "\<And>n m. F (n\<lparr>WaitPTX := m\<rparr>) = F n" "p < length (nodes g)"
    for p and F :: "TxConsensusNode \<Rightarrow> GVNode"
    using that drop_waits_field [OF that(1), of p g1] unfolding h n0 by (simp add: g1_def)
  have l: "same_links ?g0 h"
    unfolding same_links_def len f(1)
  proof (intro conjI allI impI)
    show "slices h = slices ?g0" "TxCNs h = TxCNs ?g0" unfolding h f by (simp_all add: g1_def)
    show "map_option (\<lambda>w. (wNChildNodes w, wUNChildNodes w, wChoosedNode w)) (WaitUnChoosedTxCNs h k)
      = map_option (\<lambda>w. (wNChildNodes w, wUNChildNodes w, wChoosedNode w)) (WaitUnChoosedTxCNs ?g0 k)" for k
      unfolding h f x_def by (simp add: g1_def)
  qed (simp_all add: nc nn)
  have r: "ReadyBatch h = ReadyBatch ?g0" unfolding h f by (simp add: g1_def)
  have st: "State (node h p) = State (node ?g0 p)" if "p < length (nodes ?g0)" for p
    using that nd' [of State p] unfolding f by simp
  show "order_inv out A ls [] h"
    by (rule order_inv_neutral [OF o l r st]) (use nd' [of ParentNum] in \<open>simp_all add: f\<close>)
  show "ChoosedNode (node h a) = gv" using nc [of ChoosedNode a] i(3,10) n(1) by simp
  show "State (node h a) = State (node g a)" using st [of a] i(3) n(2) by (simp add: f)
  show "length (nodes h) = length (nodes g)" using len f(1) [of a t w x g] by simp
  assume k: "State (node g a) \<noteq> 4" "k \<in> K" "k \<noteq> t"
  have "dep_ok ?g0 a k"
    using k by (intro take_over_dep [OF lk w(1) _ i(8)]) (simp_all add: x_def)
  then show "dep_ok h a k" using grows_dep_ok [OF same_links_grows [OF l]] st by simp
qed

lemma order_inv_accept:
  assumes inv: "order_inv out A ls [] g" and a: "a < length (nodes g)" "a \<notin> set ls"
    and d: "\<And>k. k \<in> parents g a \<Longrightarrow> dep_ok g a k"
  shows "order_inv out (insert a A) ls [] g"
proof -
  note o = order_invD [OF inv]
  have "deps (insert a A) g" using o(5) a d by (simp add: deps_def)
  moreover have "in_order (insert a A) ls g"
    using o(6) a(2) unfolding in_order_def by (metis insertE nth_mem)
  ultimately show ?thesis using o by (intro order_invI) simp_all
qed

subsection \<open>A new node\<close>

lemma new_txcn_order:
  assumes inv: "order_inv out A ls [] g" and wf: "wf_refs g"
    and fresh: "\<And>p. p < length (nodes g) \<Longrightarrow> tid g p \<noteq> TxId gv"
  shows "linked out A ls (WaitUnChoosedTxCNs g (TxId gv) \<noteq> None) (length (nodes g)) gv (TxId gv) {}
    (new_txcn gv g)"
proof -
  let ?a = "length (nodes g)" and ?h = "new_txcn gv g" and ?n = "length (slices g)"
  note o = order_invD [OF inv]
  have f: "slices ?h = slices g @ [[], []]" "TxCNs ?h = TxCNs g"
    "WaitUnChoosedTxCNs ?h = WaitUnChoosedTxCNs g" "ReadyBatch ?h = ReadyBatch g"
    "length (nodes ?h) = Suc ?a" by (simp_all add: new_txcn_def)
  have old: "node ?h p = node g p" if "p < ?a" for p using that by (simp add: new_txcn_def nth_append)
  have new: "ChoosedNode (node ?h ?a) = gv" "NChildNodes (node ?h ?a) = ?n" "State (node ?h ?a) = 3"
    "ParentNum (node ?h ?a) = 0" by (simp_all add: new_txcn_def)
  have nd: "NChildNodes (node g e) < ?n" if "e < ?a" for e using o(1) that by (auto simp: wf_slices_def)
  have bd: "wNChildNodes w < ?n" if "WaitUnChoosedTxCNs g j = Some w" for j w
    using wf that by (auto simp: wf_refs_def ran_def)
  have own: "own ?h" unfolding own_def f
  proof (intro conjI allI impI)
    note q = ownD [OF o(2)]
    { fix c d assume x: "c < Suc ?a" "d < Suc ?a" "NChildNodes (node ?h c) = NChildNodes (node ?h d)"
      consider "c = ?a" "d = ?a" | "c < ?a" "d = ?a" | "c = ?a" "d < ?a" | "c < ?a" "d < ?a"
        using x(1,2) by linarith
      then show "c = d"
      proof cases
        case 2
        then show ?thesis using x(3) nd [OF 2(1)] old [OF 2(1)] new by simp
      next
        case 3
        then show ?thesis using x(3) nd [OF 3(2)] old [OF 3(2)] new by simp
      next
        case 4
        then show ?thesis using x(3) q(1) [OF 4] old by simp
      qed simp }
    { fix k w l v assume "WaitUnChoosedTxCNs g k = Some w" "WaitUnChoosedTxCNs g l = Some v"
        "wNChildNodes w = wNChildNodes v"
      then show "k = l" by (rule q(2)) }
    { fix k w d assume x: "WaitUnChoosedTxCNs g k = Some w" "d < Suc ?a" "wNChildNodes w = NChildNodes (node ?h d)"
      have d: "d < ?a" using x bd [OF x(1)] new(2) by (cases "d = ?a") auto
      show "tid ?h d = k" "wChoosedNode w = Some d" using q(3) [OF x(1) d] x(3) old [OF d] by simp_all }
    { fix k w b assume x: "WaitUnChoosedTxCNs g k = Some w" "wChoosedNode w = Some b"
      show "b < Suc ?a" "tid ?h b = k" using q(4) [OF x] old [of b] by simp_all }
    { fix k p assume x: "TxCNs g k = Some p"
      show "p < Suc ?a" "tid ?h p = k" using q(5) [OF x] old [of p] by simp_all }
  qed
  have cl: "closed ?h = closed g"
    unfolding closed_def f using old new(3) by (auto simp: less_Suc_eq) (metis old)+
  have pd: "pend ?h c = pend g c" for c by (rule pend_append [OF f(1) cl])
  have "pend g ?a = 0"
  proof -
    have "count_list (slices g ! s) ?a = 0" if "s < ?n" for s
      using o(1) that by (auto simp: wf_slices_def count_list_0_iff)
    then show ?thesis by (simp add: pend_def)
  qed
  then have ac: "acct [] ?h"
    using o(4) old new(4) unfolding acct_def f pd by (auto simp: less_Suc_eq)
  have gr: "grows g ?h" unfolding grows_def f using old by (auto simp: nth_append)
  have un: "un_free ?h"
    using o(3) un_free_slices [OF o(3)] unfolding un_free_def f by (auto simp: new_txcn_def)
  have wfs: "wf_slices ?h" using o(1) by (fastforce simp: wf_slices_def new_txcn_def)
  have b: "c < ?a" if "c \<in> set ls" for c using that o(8) by simp
  have "order_inv out A ls [] ?h"
  proof (rule order_invI [OF wfs own un ac grows_deps [OF gr o(5)] grows_in_order [OF gr o(6) b] o(7)])
    show "set ls = {c. c < length (nodes ?h) \<and> State (node ?h c) = 1}"
      unfolding f o(8) using old new(3) by (auto simp: less_Suc_eq)
    show "ParentNum (node ?h c) = 0" if "c \<in> set ls" for c using old [OF b [OF that]] o(9) [OF that] by simp
    show "out @ ReadyBatch ?h = map TxResult (txs ?h ls)" using o(10) old b by (simp add: f)
    show "State (node ?h c) \<in> {1, 3, 4}" if "c < length (nodes ?h)" for c
      using that o(11) [of c] old [of c] new(3) unfolding f by (cases "c = ?a") auto
  qed
  moreover have "wf_refs ?h" using wf unfolding wf_refs_def f by fastforce
  moreover have "?a \<notin> set ls" using b by blast
  moreover have "?a \<notin> A" using o(5) by (auto simp: deps_def)
  moreover have "nchildren ?h ?a = []" unfolding new(2) f by simp
  moreover have "wChoosedNode w = None" if "WaitUnChoosedTxCNs g (TxId gv) = Some w" for w
    using ownD(4) [OF o(2) that] fresh by (cases "wChoosedNode w") auto
  ultimately show ?thesis unfolding linked_def f by (auto simp: new)
qed

end
