(* ===== verification/Example_Txs.thy ===== *)
theory Example_Txs
  imports PartialOrder
begin

text \<open>
  Concrete inputs on which the properties are instantiated: three transactions of a chaincode, each
  of which reads the key that the one before wrote, and a codec that decodes them.
\<close>

definition ex_read :: "string \<Rightarrow> string \<Rightarrow> string \<Rightarrow> KVRead" where
  "ex_read k v t = \<lparr>rKey = k, rVersion = None, rValue = Some v, IsRead = True, rTxid = t\<rparr>"

definition ex_write :: "string \<Rightarrow> string \<Rightarrow> KVWrite" where
  "ex_write k v = \<lparr>wKey = k, IsDelete = False, wValue = Some v, IsWrite = True, wTxid = []\<rparr>"

definition ex_set :: "KVRead list \<Rightarrow> KVWrite list \<Rightarrow> KVRWSet" where
  "ex_set rs ws = \<lparr>Reads = rs, RangeQueriesInfo = [], Writes = ws, MetadataWrites = []\<rparr>"

definition ex_sets :: "bytes \<Rightarrow> KVRWSet option" where
  "ex_sets b =
     map_of [(''A'', ex_set [] [ex_write ''x'' ''1'']),
             (''B'', ex_set [ex_read ''x'' ''1'' ''A''] [ex_write ''x'' ''2'']),
             (''C'', ex_set [ex_read ''x'' ''2'' ''B''] [ex_write ''x'' ''3''])] b"

definition ex_codec :: codec where
  "ex_codec =
     \<lparr>unmarshalPayload = (\<lambda>b. if b = [] then None else Some \<lparr>plHeader = Some (Some b), plData = b\<rparr>),
      unmarshalTransaction = (\<lambda>b. Some [b]),
      unmarshalChaincodeActionPayload = (\<lambda>b. Some (Some (Some b))),
      unmarshalProposalResponsePayload = (\<lambda>b. Some (Some b)),
      unmarshalChaincodeAction = (\<lambda>b. Some b),
      unmarshalChannelHeader = (\<lambda>b. Some \<lparr>chType = 3, chTxId = b\<rparr>),
      unmarshalTxReadWriteSet = (\<lambda>b. Some
        \<lparr>DataModel = 0, NsRwset = [\<lparr>nsNamespace = ''cc'', nsRwset = b, CollectionHashedRwset = []\<rparr>]\<rparr>),
      unmarshalTxPvtReadWriteSet = (\<lambda>b. None),
      unmarshalKVRWSet = ex_sets,
      unmarshalHashedRWSet = (\<lambda>b. None),
      marshalTxReadWriteSet = (\<lambda>m. case NsRwset m of [] \<Rightarrow> None | n # _ \<Rightarrow> Some (nsRwset n)),
      marshalTxPvtReadWriteSet = (\<lambda>m. None),
      marshalKVRWSet = (\<lambda>kv. if ex_sets ''A'' = Some kv then Some ''A''
                             else if ex_sets ''B'' = Some kv then Some ''B''
                             else if ex_sets ''C'' = Some kv then Some ''C'' else None),
      marshalHashedRWSet = (\<lambda>h. None)\<rparr>"

definition ex_env :: "string \<Rightarrow> Envelope" where
  "ex_env t = \<lparr>Payload = t, Signature = []\<rparr>"

text \<open>A chosen node as the voting builds it: reads grouped by parent, and the writes.\<close>

definition ex_node :: "string \<Rightarrow> (string \<times> string \<times> string) list \<Rightarrow> (string \<times> string) list \<Rightarrow> GVNode" where
  "ex_node t rs ws =
     fold add_write (map (\<lambda>(k, v). ex_write k v) ws)
       (fold add_read (map (\<lambda>(p, k, v). ex_read k v p) rs)
          (new_gnode (ex_env t) \<lparr>NsRwSets = []\<rparr> t))"

definition ex_rwset :: TxRwSet where
  "ex_rwset = \<lparr>NsRwSets = [\<lparr>NameSpace = ''cc'', KvRwSet = ex_set [ex_read ''x'' ''1'' ''A''] [ex_write ''x'' ''2''],
                            CollHashedRwSets = []\<rparr>]\<rparr>"

theorem TxRwSet_round_trip_witness:
  "tx_codec_ok ex_codec ex_rwset \<and> ToProtoBytes ex_codec ex_rwset = Some ''B'' \<and>
   FromProtoBytes ex_codec ''B'' = Some ex_rwset"
proof -
  have m: "marshalKVRWSet ex_codec (ex_set [ex_read ''x'' ''1'' ''A''] [ex_write ''x'' ''2'']) = Some ''B''"
    "unmarshalKVRWSet ex_codec ''B'' = Some (ex_set [ex_read ''x'' ''1'' ''A''] [ex_write ''x'' ''2''])"
    by code_simp+
  have t: "tx_toProtoMsg ex_codec ex_rwset
      = Some \<lparr>DataModel = 0, NsRwset = [\<lparr>nsNamespace = ''cc'', nsRwset = ''B'', CollectionHashedRwset = []\<rparr>]\<rparr>"
    by code_simp
  have b: "ToProtoBytes ex_codec ex_rwset = Some ''B''" by code_simp
  have ok: "tx_codec_ok ex_codec ex_rwset"
    unfolding tx_codec_ok_def t
    by (simp add: ex_rwset_def ns_codec_ok_def kv_codec_ok_def m) (simp add: ex_codec_def)
  show ?thesis using ok b TxRwSet_round_trip [OF ok b] by simp
qed

end
