(* ===== verification/CE_Runs.thy ===== *)
theory CE_Runs
  imports CE_Linking Example_Txs
begin

text \<open>
  The runs of the conflict graph, an inductive relation that interleaves insertions and cuts of
  \<open>ReadyBatch\<close>, and the order of commits on every run.
\<close>

subsection \<open>The runs of the graph\<close>

text \<open>
  \<open>accepts rng a g\<close>: linking the node \<open>a\<close> does not reject it.
\<close>

definition accepts :: "ptx_order \<Rightarrow> GVNode \<Rightarrow> TxConsensusGraph \<Rightarrow> bool" where
  "accepts rng gv g =
     (let a = length (nodes g)
      in case link rng a (TxId gv) (admit a (TxId gv) (new_txcn gv g)) of
           Inl _ \<Rightarrow> False
         | Inr h \<Rightarrow> State (node h a) \<noteq> 4)"

lemma new_txcn_node [simp]:
  "length (nodes (new_txcn gv g)) = Suc (length (nodes g))"
  "ChoosedNode (node (new_txcn gv g) (length (nodes g))) = gv"
  by (simp_all add: new_txcn_def)

lemma insert_tx_order:
  assumes v: "visits_all rng" and inv: "order_inv out A ls [] g" and wf: "wf_refs g"
    and cs: "ConsensusState gv \<noteq> 2" "UNPTx gv = []"
    and fresh: "\<And>p. p < length (nodes g) \<Longrightarrow> tid g p \<noteq> TxId gv"
    and i: "insert_tx rng gv g = Inr h"
  shows "\<exists>cs. order_inv out (if accepts rng gv g then insert (length (nodes g)) A else A) (ls @ cs) [] h"
proof -
  let ?a = "length (nodes g)" and ?t = "TxId gv" and ?n = "new_txcn gv g"
  let ?E = "WaitUnChoosedTxCNs g ?t \<noteq> None" and ?K = "fst ` set (PTx gv)"
  let ?A = "if accepts rng gv g then insert ?a A else A"
  have l0: "linked out A ls ?E ?a gv ?t {} (admit ?a ?t ?n)"
    by (rule linked_admit [OF new_txcn_order [OF inv wf fresh]])
  have w: "WaitUnChoosedTxCNs ?n = WaitUnChoosedTxCNs g" by (simp add: new_txcn_def)
  obtain g1 where g1: "link rng ?a ?t (admit ?a ?t ?n) = Inr g1"
      "finish ?a (if ?E then resolve_wait ?a ?t g1 else g1) = Inr h"
    using i by (auto simp: insert_tx_def ProcessTX_def Let_def w)
  have l1: "linked out A ls ?E ?a gv ?t ?K g1"
    using linked_link(1) [OF v l0 _ _ _ g1(1)] cs admit_unchosen [of ?a ?n] by simp
  define g2 where "g2 = (if ?E then resolve_wait ?a ?t g1 else g1)"
  have o2: "order_inv out A ls [] g2 \<and> ChoosedNode (node g2 ?a) = gv \<and>
      (State (node g1 ?a) \<noteq> 4 \<longrightarrow> (\<forall>k \<in> ?K. k \<noteq> ?t \<longrightarrow> dep_ok g2 ?a k)) \<and> length (nodes g2) = length (nodes g1)"
  proof (cases ?E)
    case True
    then have "linked out A ls True ?a gv ?t ?K g1" using l1 by simp
    from resolve_wait_order [OF this] show ?thesis using True by (simp add: g2_def)
  next
    case False
    then show ?thesis using linkedD [OF l1] by (auto simp: g2_def)
  qed
  note d = linkedD(3,4) [OF l1]
  have "order_inv out ?A ls [] g2"
  proof (cases "accepts rng gv g")
    case True
    then have "State (node g1 ?a) \<noteq> 4" using g1(1) by (simp add: accepts_def)
    then have "dep_ok g2 ?a k" if "k \<in> parents g2 ?a" for k using o2 that by (auto simp: parents_def)
    then show ?thesis using o2 d True by (simp add: order_inv_accept)
  qed (use o2 in simp)
  then show ?thesis using finish_order [OF _ _ d(2)] g1(2) d(1) o2 unfolding g2_def by simp
qed

text \<open>
  The states the conflict graph goes through, with the transactions put into it, the addresses of
  the accepted ones, and the envelopes that were cut from \<open>ReadyBatch\<close> so far.
\<close>

inductive ce_run :: "ptx_order \<Rightarrow> GVNode list \<Rightarrow> addr set \<Rightarrow> Envelope list \<Rightarrow> TxConsensusGraph \<Rightarrow> bool"
  for rng :: ptx_order where
  start: "ce_run rng [] {} [] empty_graph"
| insert: "ce_run rng gvs A out g \<Longrightarrow> insert_tx rng gv g = Inr h \<Longrightarrow>
    ce_run rng (gvs @ [gv]) (if accepts rng gv g then insert (length (nodes g)) A else A) out h"
| cut: "ce_run rng gvs A out g \<Longrightarrow> ce_run rng gvs A (out @ ReadyBatch g) (g\<lparr>ReadyBatch := []\<rparr>)"

definition run_inv :: "GVNode list \<Rightarrow> addr set \<Rightarrow> Envelope list \<Rightarrow> TxConsensusGraph \<Rightarrow> bool" where
  "run_inv gvs A out g \<longleftrightarrow>
     wf_graph g \<and> map ChoosedNode (nodes g) = gvs \<and> (\<exists>ls. logged ls g) \<and> (\<exists>ls. order_inv out A ls [] g)"

lemma wf_empty_graph: "wf_graph empty_graph"
  by (simp add: empty_graph_def wf_graph_def wf_slices_def wf_refs_def waits_ok_def)

lemma order_inv_empty: "order_inv [] {} [] [] empty_graph"
  by (rule order_invI)
    (simp_all add: empty_graph_def wf_slices_def own_def un_free_def acct_def deps_def in_order_def)

lemma order_inv_cut:
  assumes "order_inv out A ls [] g"
  shows "order_inv (out @ ReadyBatch g) A ls [] (g\<lparr>ReadyBatch := []\<rparr>)"
proof -
  let ?h = "g\<lparr>ReadyBatch := []\<rparr>"
  note o = order_invD [OF assms]
  have f: "nodes ?h = nodes g" "slices ?h = slices g" "TxCNs ?h = TxCNs g"
    "WaitUnChoosedTxCNs ?h = WaitUnChoosedTxCNs g" by simp_all
  have p: "pend ?h = pend g" "parents ?h = parents g" "dep_ok ?h = dep_ok g"
    by (simp_all add: fun_eq_iff pend_def closed_def parents_def dep_ok_def belongs_def)
  have e: "wf_slices ?h = wf_slices g" "own ?h = own g" "un_free ?h = un_free g" "acct [] ?h = acct [] g"
    "deps A ?h = deps A g" "in_order A ls ?h = in_order A ls g"
    by (simp_all only: wf_slices_def own_def un_free_def acct_def deps_def in_order_def p f)
  show ?thesis using o(1-6) unfolding e [symmetric]
    by (rule order_invI) (use o(7-) in simp_all)
qed

lemma node_ChoosedNode:
  assumes "map ChoosedNode (nodes g) = gvs" "p < length gvs"
  shows "ChoosedNode (node g p) = gvs ! p" and "length (nodes g) = length gvs"
  using assms by auto

text \<open>A transaction agreed on as a whole, whose parents are all in \<open>PTx\<close>.\<close>

definition plain :: "GVNode \<Rightarrow> bool" where
  "plain gv \<longleftrightarrow> ConsensusState gv \<noteq> 2 \<and> UNPTx gv = []"

lemma ce_run_inv:
  assumes "ce_run rng gvs A out g" "visits_all rng" "distinct (map TxId gvs)" "list_all plain gvs"
  shows "run_inv gvs A out g"
  using assms
proof (induction rule: ce_run.induct)
  case start
  show ?case using order_inv_empty wf_empty_graph by (auto simp: run_inv_def empty_graph_def logged_def)
next
  case (insert gvs A out g gv h)
  let ?n = "new_txcn gv g"
  have g: "wf_graph g" "map ChoosedNode (nodes g) = gvs" and gv: "plain gv"
    using insert by (simp_all add: run_inv_def)
  obtain ls where ls: "order_inv out A ls [] g" using insert by (auto simp: run_inv_def)
  have fresh: "tid g p \<noteq> TxId gv" if "p < length (nodes g)" for p
  proof -
    have "gvs ! p \<in> set gvs" using that g(2) by auto
    then have "TxId (gvs ! p) \<in> TxId ` set gvs" by (rule imageI)
    moreover have "TxId gv \<notin> TxId ` set gvs" using insert.prems(2) by simp
    ultimately show ?thesis using node_ChoosedNode(1) [OF g(2)] that g(2) by (metis length_map)
  qed
  have r: "wf_refs g" using g(1) by (simp add: wf_graph_def)
  have n: "wf_graph ?n" "fresh_node (length (nodes g)) ?n" by (rule new_txcn_fresh [OF g(1)])+
  have p: "ProcessTX rng (length (nodes g)) ?n = Inr h" using insert.hyps(2) by (simp add: insert_tx_def)
  then have "wf_graph h" using ProcessTX_ok [OF n, of rng] gv by (auto simp: plain_def)
  moreover obtain ks where k: "logged ks g" using insert by (auto simp: run_inv_def)
  have "logged ks ?n" "length (nodes g) \<notin> set ks"
    using k by (auto simp: logged_def new_txcn_def nth_append intro!: replay_cong)
  from ProcessTX_logs [OF n this p] obtain cs where cs: "logged (ks @ cs) h" "length (nodes h) = length (nodes ?n)"
      "\<And>q. q < length (nodes ?n) \<Longrightarrow> content (node h q) = content (node ?n q)" by blast
  have "map ChoosedNode (nodes h) = map ChoosedNode (nodes ?n)"
  proof (rule nth_equalityI)
    fix q assume "q < length (map ChoosedNode (nodes h))"
    then have q: "q < length (nodes ?n)" using cs(2) by simp
    have "map ChoosedNode (nodes ?n) = gvs @ [gv]" using g(2) by (simp add: new_txcn_def)
    then have "ChoosedNode (node ?n q) \<in> set (gvs @ [gv])" using q by (metis length_map nth_map nth_mem)
    then have "ConsensusState (ChoosedNode (node ?n q)) \<noteq> 2"
      using insert.prems(3) by (auto simp: plain_def list_all_iff)
    then show "map ChoosedNode (nodes h) ! q = map ChoosedNode (nodes ?n) ! q"
      using content_eq(4) [OF cs(3) [OF q]] q cs(2) by simp
  qed (use cs(2) in simp)
  then have "map ChoosedNode (nodes h) = gvs @ [gv]" using g(2) by (simp add: new_txcn_def)
  moreover note cs(1)
  moreover have "\<exists>cs. order_inv out (if accepts rng gv g then insert (length (nodes g)) A else A) (ls @ cs) [] h"
    by (rule insert_tx_order [OF insert.prems(1) ls r _ _ fresh insert.hyps(2)]) (use gv in \<open>simp_all add: plain_def\<close>)
  ultimately show ?case unfolding run_inv_def by blast
next
  case (cut gvs A out g)
  then have c: "run_inv gvs A out g" by simp
  have e: "wf_graph (g\<lparr>ReadyBatch := []\<rparr>) = wf_graph g" "logged ls (g\<lparr>ReadyBatch := []\<rparr>) = logged ls g" for ls
    by (simp_all add: wf_graph_def wf_slices_def wf_refs_def waits_ok_def logged_def)
  show ?case using c order_inv_cut unfolding run_inv_def e by fastforce
qed

subsection \<open>Commit order\<close>


text \<open>Three transactions that arrive child first.\<close>

definition ex_chain :: "GVNode list" where
  "ex_chain = [ex_node ''C'' [(''B'', ''x'', ''2'')] [(''x'', ''3'')],
               ex_node ''B'' [(''A'', ''x'', ''1'')] [(''x'', ''2'')],
               ex_node ''A'' [] [(''x'', ''1'')]]"

definition ex_insert :: "GVNode \<Rightarrow> TxConsensusGraph \<Rightarrow> TxConsensusGraph" where
  "ex_insert gv g = (case insert_tx id gv g of Inl _ \<Rightarrow> g | Inr h \<Rightarrow> h)"

definition ex_graph :: "nat \<Rightarrow> TxConsensusGraph" where
  "ex_graph n = fold ex_insert (take n ex_chain) empty_graph"

lemma ex_graph_step:
  assumes "n < length ex_chain" "\<not> isl (insert_tx id (ex_chain ! n) (ex_graph n))"
  shows "insert_tx id (ex_chain ! n) (ex_graph n) = Inr (ex_graph (Suc n))"
  using assms
  by (cases "insert_tx id (ex_chain ! n) (ex_graph n)")
    (simp_all add: ex_graph_def take_Suc_conv_app_nth ex_insert_def)

lemma ex_run_step:
  assumes "ce_run id (take n ex_chain) {..<n} [] (ex_graph n)" "n < length ex_chain"
    "\<not> isl (insert_tx id (ex_chain ! n) (ex_graph n))" "accepts id (ex_chain ! n) (ex_graph n)"
    "length (nodes (ex_graph n)) = n"
  shows "ce_run id (take (Suc n) ex_chain) {..<Suc n} [] (ex_graph (Suc n))"
  using ce_run.insert [OF assms(1) ex_graph_step [OF assms(2,3)]] assms(2,4,5)
  by (simp add: take_Suc_conv_app_nth lessThan_Suc)


end
