(* ===== verification/Blocks.thy ===== *)
theory Blocks
  imports Example_Txs
begin

text \<open>
  Blocks and the messages in them: the header hash of \<open>protos/common/block.go\<close>, the accessors of
  \<open>protos/utils/commonutils.go\<close> and \<open>blockutils.go\<close>, and the block creator of the Raft leader
  (\<open>blockcreator.go\<close>). Protobuf, ASN.1 and SHA-256 are third-party code: they are fields of the
  record \<open>block_codec\<close>, an extension of \<open>codec\<close>.
\<close>

subsection \<open>Messages\<close>

record BlockHeader =
  Number :: u64
  PreviousHash :: bytes
  DataHash :: bytes

text \<open>A block as it is decoded: its header, data and metadata are pointers.\<close>

record Block =
  Header :: "BlockHeader option"
  Data :: "bytes list option"
  Metadata :: "bytes list option"

record ConfigValue =
  cvVersion :: u64
  cvValue :: bytes

record OrdererGroup =
  ogValues :: "string \<rightharpoonup> ConfigValue"

text \<open>Of a configuration group only the subgroups and their values are read.\<close>

record ConfigGroup =
  Groups :: "(string \<rightharpoonup> OrdererGroup) option"

record ConfigUpdate =
  cuReadSet :: "ConfigGroup option"
  cuWriteSet :: "ConfigGroup option"

record block_codec = codec +
  marshalEnvelope :: "Envelope \<Rightarrow> bytes option"
  unmarshalEnvelope :: "bytes \<Rightarrow> Envelope option"
  marshalBlock :: "Block \<Rightarrow> bytes option"
  unmarshalBlock :: "bytes \<Rightarrow> Block option"
  unmarshalConfigEnvelope :: "bytes \<Rightarrow> Envelope option option"
  unmarshalConfigUpdateEnvelope :: "bytes \<Rightarrow> bytes option"
  unmarshalConfigUpdateMsg :: "bytes \<Rightarrow> ConfigUpdate option"
  unmarshalMetadata :: "bytes \<Rightarrow> bytes option"
  unmarshalLastConfig :: "bytes \<Rightarrow> u64 option"
  asn1Marshal :: "int \<times> bytes \<times> bytes \<Rightarrow> bytes option"
  sha256 :: "bytes \<Rightarrow> bytes"

abbreviation (input) HeaderType_CONFIG :: int where "HeaderType_CONFIG \<equiv> 1"
abbreviation (input) HeaderType_CONFIG_UPDATE :: int where "HeaderType_CONFIG_UPDATE \<equiv> 2"
abbreviation (input) HeaderType_ORDERER_TRANSACTION :: int where "HeaderType_ORDERER_TRANSACTION \<equiv> 4"

subsection \<open>Hashes\<close>

text \<open>The copying loop of \<open>ConcatenateBytes\<close>: the result is allocated, then written byte by byte.\<close>

definition copy_slice :: "bytes \<Rightarrow> bytes \<times> nat \<Rightarrow> (bytes \<times> nat) go" where
  "copy_slice sl = (\<lambda>(result, last).
     bindE (foldE (\<lambda>i r. store_at (i + last) (sl ! i) r) [0..<length sl] result)
       (\<lambda>r. Inr (r, last + length sl)))"

definition ConcatenateBytes :: "bytes list \<Rightarrow> bytes go" where
  "ConcatenateBytes data =
     (let finalLength = fold (\<lambda>sl n. n + length sl) data 0
      in bindE (foldE copy_slice data (replicate finalLength (CHR 0x00), 0)) (\<lambda>(r, _). Inr r))"

definition header_Bytes :: "'a block_codec_scheme \<Rightarrow> BlockHeader \<Rightarrow> bytes go" where
  "header_Bytes cd b =
     (if 9223372036854775807 < Number b
      then Inl (Panic ''Golang does not currently support encoding uint64 to asn1'')
      else case asn1Marshal cd (uint (Number b), PreviousHash b, DataHash b) of
             None \<Rightarrow> Inl (Panic ''asn1'')
           | Some r \<Rightarrow> Inr r)"

definition header_Hash :: "'a block_codec_scheme \<Rightarrow> BlockHeader \<Rightarrow> bytes go" where
  "header_Hash cd b = bindE (header_Bytes cd b) (\<lambda>bs. Inr (sha256 cd bs))"

definition data_Bytes :: "bytes list \<Rightarrow> bytes go" where
  "data_Bytes d = ConcatenateBytes d"

definition data_Hash :: "'a block_codec_scheme \<Rightarrow> bytes list \<Rightarrow> bytes go" where
  "data_Hash cd d = bindE (data_Bytes d) (\<lambda>bs. Inr (sha256 cd bs))"

definition NewBlock :: "u64 \<Rightarrow> bytes \<Rightarrow> Block" where
  "NewBlock seqNum previousHash =
     \<lparr>Header = Some \<lparr>Number = seqNum, PreviousHash = previousHash, DataHash = []\<rparr>,
      Data = Some [], Metadata = Some (replicate 5 [])\<rparr>"

subsection \<open>Accessors\<close>

definition GetEnvelopeFromBlock :: "'a block_codec_scheme \<Rightarrow> bytes \<Rightarrow> Envelope go" where
  "GetEnvelopeFromBlock cd data = of_option ''error unmarshaling Envelope'' (unmarshalEnvelope cd data)"

definition ExtractEnvelope :: "'a block_codec_scheme \<Rightarrow> Block \<Rightarrow> int \<Rightarrow> Envelope go" where
  "ExtractEnvelope cd block index =
     (case Data block of
        None \<Rightarrow> Inl (Err ''block data is nil'')
      | Some d \<Rightarrow>
          if index < 0 \<or> int (length d) \<le> index then Inl (Err ''envelope index out of bounds'')
          else GetEnvelopeFromBlock cd (d ! nat index))"

definition ExtractPayload :: "'a block_codec_scheme \<Rightarrow> Envelope \<Rightarrow> EnvPayload go" where
  "ExtractPayload cd env = of_option ''no payload in envelope'' (unmarshalPayload cd (Payload env))"

definition UnmarshalPayload :: "'a block_codec_scheme \<Rightarrow> bytes \<Rightarrow> EnvPayload go" where
  "UnmarshalPayload cd b = of_option ''error unmarshaling Payload'' (unmarshalPayload cd b)"

definition UnmarshalChannelHeader :: "'a block_codec_scheme \<Rightarrow> bytes option \<Rightarrow> ChannelHeader go" where
  "UnmarshalChannelHeader cd b =
     of_option ''error unmarshaling ChannelHeader'' (unmarshalChannelHeader cd (str b))"

definition utils_ChannelHeader :: "'a block_codec_scheme \<Rightarrow> Envelope \<Rightarrow> ChannelHeader go" where
  "utils_ChannelHeader cd env =
     bindE (UnmarshalPayload cd (Payload env)) (\<lambda>p.
       case plHeader p of
         None \<Rightarrow> Inl (Err ''header not set'')
       | Some None \<Rightarrow> Inl (Err ''channel header not set'')
       | Some (Some h) \<Rightarrow> UnmarshalChannelHeader cd (Some h))"

definition IsConfigBlock :: "'a block_codec_scheme \<Rightarrow> Block \<Rightarrow> bool" where
  "IsConfigBlock cd block =
     (case ExtractEnvelope cd block 0 of
        Inl _ \<Rightarrow> False
      | Inr env \<Rightarrow>
         (case UnmarshalPayload cd (Payload env) of
            Inl _ \<Rightarrow> False
          | Inr p \<Rightarrow>
             (case plHeader p of
                None \<Rightarrow> False
              | Some h \<Rightarrow>
                 (case UnmarshalChannelHeader cd h of
                    Inl _ \<Rightarrow> False
                  | Inr hdr \<Rightarrow> chType hdr = HeaderType_CONFIG \<or> chType hdr = HeaderType_ORDERER_TRANSACTION))))"

text \<open>\<open>message\<close> decodes the data of the payload into the message of the expected type.\<close>

definition UnmarshalEnvelopeOfType ::
  "'a block_codec_scheme \<Rightarrow> Envelope option \<Rightarrow> int \<Rightarrow> (bytes \<Rightarrow> 'm option) \<Rightarrow> (ChannelHeader \<times> 'm) go" where
  "UnmarshalEnvelopeOfType cd envelope headerType message =
     bindE (deref envelope) (\<lambda>env.
     bindE (UnmarshalPayload cd (Payload env)) (\<lambda>p.
       case plHeader p of
         None \<Rightarrow> Inl (Err ''envelope must have a Header'')
       | Some h \<Rightarrow>
           bindE (UnmarshalChannelHeader cd h) (\<lambda>chdr.
             if chType chdr \<noteq> headerType then Inl (Err ''invalid type'')
             else bindE (of_option ''error unmarshaling message'' (message (plData p)))
                    (\<lambda>m. Inr (chdr, m)))))"

definition EnvelopeToConfigUpdate :: "'a block_codec_scheme \<Rightarrow> Envelope option \<Rightarrow> bytes go" where
  "EnvelopeToConfigUpdate cd configtx =
     bindE (UnmarshalEnvelopeOfType cd configtx HeaderType_CONFIG_UPDATE (unmarshalConfigUpdateEnvelope cd))
       (\<lambda>(_, m). Inr m)"

definition UnmarshalConfigUpdateFromPayload :: "'a block_codec_scheme \<Rightarrow> EnvPayload \<Rightarrow> ConfigUpdate go" where
  "UnmarshalConfigUpdateFromPayload cd payload =
     bindE (of_option ''ConfigEnvelope'' (unmarshalConfigEnvelope cd (plData payload))) (\<lambda>lastUpdate.
     bindE (EnvelopeToConfigUpdate cd lastUpdate) (\<lambda>u.
       of_option ''ConfigUpdate'' (unmarshalConfigUpdateMsg cd u)))"

definition InitBlockMetadata :: "Block \<Rightarrow> Block" where
  "InitBlockMetadata block =
     (case Metadata block of
        None \<Rightarrow> block\<lparr>Metadata := Some (replicate 5 [])\<rparr>
      | Some m \<Rightarrow>
          if length m < 5 then block\<lparr>Metadata := Some (fold (\<lambda>_ m. m @ [[]]) [length m..<5] m)\<rparr>
          else block)"

definition CopyBlockMetadata :: "Block \<Rightarrow> Block \<Rightarrow> Block" where
  "CopyBlockMetadata src dst = InitBlockMetadata (dst\<lparr>Metadata := Metadata src\<rparr>)"

definition GetMetadataFromBlock :: "'a block_codec_scheme \<Rightarrow> Block \<Rightarrow> nat \<Rightarrow> bytes go" where
  "GetMetadataFromBlock cd block index =
     bindE (deref (Metadata block)) (\<lambda>m.
     bindE (load_at m index) (\<lambda>b.
       of_option ''error unmarshaling metadata from block'' (unmarshalMetadata cd b)))"

definition GetLastConfigIndexFromBlock :: "'a block_codec_scheme \<Rightarrow> Block \<Rightarrow> u64 go" where
  "GetLastConfigIndexFromBlock cd block =
     bindE (GetMetadataFromBlock cd block 1) (\<lambda>v.
       of_option ''error unmarshaling LastConfig'' (unmarshalLastConfig cd v))"

subsection \<open>The block creator\<close>

record blockCreator =
  bcHash :: bytes
  bcNumber :: u64

definition createNextBlock :: "'a block_codec_scheme \<Rightarrow> blockCreator \<Rightarrow> Envelope list \<Rightarrow> (Block \<times> blockCreator) go" where
  "createNextBlock cd bc envs =
     (case mapM (marshalEnvelope cd) envs of
        None \<Rightarrow> Inl (Panic ''Could not marshal envelope'')
      | Some data \<Rightarrow>
          let n = bcNumber bc + 1; block = NewBlock n (bcHash bc) in
          bindE (data_Hash cd data) (\<lambda>dh.
            let h = \<lparr>Number = n, PreviousHash = bcHash bc, DataHash = dh\<rparr> in
            bindE (header_Hash cd h) (\<lambda>hh.
              Inr (block\<lparr>Header := Some h, Data := Some data\<rparr>, \<lparr>bcHash = hh, bcNumber = n\<rparr>))))"

subsection \<open>The copying loop\<close>

lemma fold_length: "fold (\<lambda>sl n. n + length sl) data m = m + length (concat data)"
  by (induction data arbitrary: m) simp_all

lemma copy_loop:
  assumes "length pre = n" "j \<le> length sl" "length sl \<le> length rest"
  shows "foldE (\<lambda>i r. store_at (i + n) (sl ! i) r) [0..<j] (pre @ rest) = Inr (pre @ take j sl @ drop j rest)"
  using assms(2)
proof (induction j)
  case (Suc j)
  have "drop j rest = rest ! j # drop (Suc j) rest" using Suc.prems assms(3) by (simp add: Cons_nth_drop_Suc)
  then show ?case using Suc assms(1,3)
    by (simp add: foldE_append store_at_def list_update_append take_Suc_conv_app_nth)
qed simp

lemma copy_slice_ok:
  assumes "length pre = n" "length sl \<le> length rest"
  shows "copy_slice sl (pre @ rest, n) = Inr ((pre @ sl) @ drop (length sl) rest, n + length sl)"
  using copy_loop [OF assms(1) order_refl assms(2)] by (simp add: copy_slice_def)

lemma copy_all:
  assumes "length pre = n" "length rest = length (concat data)"
  shows "foldE copy_slice data (pre @ rest, n) = Inr (pre @ concat data, n + length (concat data))"
  using assms
proof (induction data arbitrary: pre n rest)
  case (Cons sl data)
  have "copy_slice sl (pre @ rest, n) = Inr ((pre @ sl) @ drop (length sl) rest, n + length sl)"
    by (rule copy_slice_ok) (use Cons.prems in simp_all)
  moreover have "foldE copy_slice data ((pre @ sl) @ drop (length sl) rest, n + length sl)
      = Inr ((pre @ sl) @ concat data, n + length sl + length (concat data))"
    by (rule Cons.IH) (use Cons.prems in simp_all)
  ultimately show ?case by simp
qed simp

lemma ConcatenateBytes_concat [simp]: "ConcatenateBytes data = Inr (concat data)"
  using copy_all [of "[]" 0 "replicate (length (concat data)) (CHR 0x00)" data]
  by (simp add: ConcatenateBytes_def fold_length)

text \<open>C22. The loop of \<open>ConcatenateBytes\<close>, which writes byte by byte at a moving offset into a slice of the
  summed length, never writes out of range: the hash of the data of a block is always there and is the
  hash of the concatenated envelopes.\<close>

theorem data_Hash_concat: "data_Hash cd d = Inr (sha256 cd (concat d))"
  by (simp add: data_Hash_def data_Bytes_def)

subsection \<open>Chains of headers\<close>

text \<open>
  The headers of consecutive blocks after a block with hash \<open>h\<close> and number \<open>n\<close>; the hash of the last one
  is \<open>x\<close>.
\<close>

fun header_chain :: "'a block_codec_scheme \<Rightarrow> bytes \<Rightarrow> u64 \<Rightarrow> BlockHeader list \<Rightarrow> bytes \<Rightarrow> bool" where
  "header_chain cd h n [] x \<longleftrightarrow> h = x"
| "header_chain cd h n (b # bs) x \<longleftrightarrow>
     Number b = n + 1 \<and> PreviousHash b = h \<and>
     (case header_Hash cd b of Inl _ \<Rightarrow> False | Inr y \<Rightarrow> header_chain cd y (n + 1) bs x)"

lemma header_chain_append:
  "header_chain cd h n (bs @ cs) x \<longleftrightarrow>
     (\<exists>y. header_chain cd h n bs y \<and> header_chain cd y (n + of_nat (length bs)) cs x)"
  by (induction bs arbitrary: h n) (auto split: sum.split simp: ac_simps)

definition collision_free :: "'a block_codec_scheme \<Rightarrow> bool" where
  "collision_free cd \<longleftrightarrow> (\<forall>h h' x. header_Hash cd h = Inr x \<longrightarrow> header_Hash cd h' = Inr x \<longrightarrow> h = h')"


text \<open>A hash without collisions, for the instances: the encoding itself.\<close>

definition ex_asn1 :: "int \<times> bytes \<times> bytes \<Rightarrow> bytes" where
  "ex_asn1 = (\<lambda>(n, p, d).
     replicate (nat n) (CHR ''a'') @ CHR ''b'' # concat (map (\<lambda>c. [CHR ''x'', c]) p) @ CHR ''y'' # d)"

definition ex_block_codec :: block_codec where
  "ex_block_codec = codec.extend ex_codec
     (block_codec.fields (\<lambda>e. Some (Payload e)) (\<lambda>b. Some (ex_env b)) (\<lambda>b. Some []) (\<lambda>b. None)
        (\<lambda>b. Some None) (\<lambda>b. None) (\<lambda>b. None) (\<lambda>b. None) (\<lambda>b. None)
        (\<lambda>x. Some (ex_asn1 x)) (\<lambda>b. b))"

lemma ex_block_codec_simps [simp]:
  "asn1Marshal ex_block_codec x = Some (ex_asn1 x)" "sha256 ex_block_codec b = b"
  "marshalEnvelope ex_block_codec e = Some (Payload e)" "unmarshalEnvelope ex_block_codec b = Some (ex_env b)"
  by (simp_all add: ex_block_codec_def codec.defs block_codec.defs)

lemma ex_asn1_inj:
  assumes "ex_asn1 (n, p, d) = ex_asn1 (m, q, e)" "0 \<le> n" "0 \<le> m"
  shows "n = m \<and> p = q \<and> d = e"
proof -
  have r: "k = l \<and> u = v"
    if "replicate k (CHR ''a'') @ CHR ''b'' # u = replicate l (CHR ''a'') @ CHR ''b'' # v" for k l and u v :: string
    using that
  proof (induction k arbitrary: l)
    case 0
    then show ?case by (cases l) auto
  next
    case (Suc k)
    then show ?case by (cases l) auto
  qed
  have c: "p = q \<and> d = e"
    if "concat (map (\<lambda>c. [CHR ''x'', c]) p) @ CHR ''y'' # d = concat (map (\<lambda>c. [CHR ''x'', c]) q) @ CHR ''y'' # e"
    using that
  proof (induction p arbitrary: q)
    case Nil
    then show ?case by (cases q) auto
  next
    case (Cons a p)
    then show ?case by (cases q) auto
  qed
  from r [OF assms(1) [unfolded ex_asn1_def prod.case]] c show ?thesis using assms(2,3) by simp
qed

lemma ex_collision_free: "collision_free ex_block_codec"
proof -
  have "h = h'" if "header_Hash ex_block_codec h = Inr x" "header_Hash ex_block_codec h' = Inr x"
    for h h' :: BlockHeader and x
  proof -
    have "ex_asn1 (uint (Number h), PreviousHash h, DataHash h) = ex_asn1 (uint (Number h'), PreviousHash h', DataHash h')"
      using that by (simp add: header_Hash_def header_Bytes_def split: if_splits)
    from ex_asn1_inj [OF this] have "uint (Number h) = uint (Number h') \<and> PreviousHash h = PreviousHash h' \<and>
        DataHash h = DataHash h'" by simp
    then show ?thesis by (intro BlockHeader.equality) (auto simp: word_uint_eq_iff)
  qed
  then show ?thesis unfolding collision_free_def by blast
qed


subsection \<open>The chain of the block creator\<close>

text \<open>The block creator extends the chain, and its state is the end of the chain.\<close>

definition block_ok :: "'a block_codec_scheme \<Rightarrow> Block \<Rightarrow> bool" where
  "block_ok cd b \<longleftrightarrow>
     (case (Header b, Data b) of (Some h, Some d) \<Rightarrow> data_Hash cd d = Inr (DataHash h) | _ \<Rightarrow> False)"

lemma createNextBlock_chain:
  assumes "createNextBlock cd bc envs = Inr (b, bc')"
  shows "\<exists>h. Header b = Some h \<and> Number h = bcNumber bc + 1 \<and> PreviousHash h = bcHash bc \<and>
      header_Hash cd h = Inr (bcHash bc') \<and> bcNumber bc' = bcNumber bc + 1"
    and "block_ok cd b" and "Data b = mapM (marshalEnvelope cd) envs" and "Metadata b = Some (replicate 5 [])"
  using assms by (auto simp: createNextBlock_def Let_def block_ok_def NewBlock_def split: option.splits)

end
