(* ===== verification/RaftMembership.thy ===== *)
theory RaftMembership
  imports Blocks
begin

text \<open>
  Membership of the Raft cluster, from \<open>orderer/consensus/etcdraft/util.go\<close>: what a configuration
  block changes (\<open>ComputeMembershipChanges\<close>), the change a new leader has to resume (\<open>ConfChange\<close>), the
  validation of the metadata of a configuration, and the detection of the own eviction.

  A Go map from node identifiers that is ranged over is an association list; the theorems hold for
  every order of it. Certificates, durations and the decoding of the metadata are third-party code:
  fields of the record \<open>raft_codec\<close>.
\<close>

subsection \<open>Messages\<close>

record Consenter =
  Host :: string
  Port :: u32
  ClientTlsCert :: bytes
  ServerTlsCert :: bytes

record Options =
  TickInterval :: string
  ElectionTick :: u32
  HeartbeatTick :: u32
  MaxInflightBlocks :: u32
  SnapshotIntervalSize :: u32

text \<open>The consenters are pointers.\<close>

record ConfigMetadata =
  Consenters :: "Consenter option list"
  mdOptions :: "Options option"

record BlockMetadata =
  ConsenterIds :: "u64 list"
  NextConsenterId :: u64
  RaftIndex :: u64

datatype ConfChangeType = ConfChangeAddNode | ConfChangeRemoveNode | ConfChangeUpdateNode | ConfChangeAddLearnerNode

record ConfChangeMsg =
  ccType :: ConfChangeType
  ccNodeID :: u64

record MembershipChanges =
  NewBlockMetadata :: BlockMetadata
  NewConsenters :: "(u64, Consenter) gomap"
  AddedNodes :: "Consenter list"
  RemovedNodes :: "Consenter list"
  mcConfChange :: "ConfChangeMsg option"
  RotatedNode :: u64

text \<open>
  \<open>bundleMetadata\<close> is the consensus metadata of the bundle that \<open>channelconfig\<close> builds from the
  envelope: an error of the construction is \<open>Inl\<close>, and None that the bundle has no orderer config.
\<close>

record raft_codec = block_codec +
  pemDecode :: "bytes \<Rightarrow> bytes option"
  parseCertificate :: "bytes \<Rightarrow> bool"
  parseDuration :: "string \<Rightarrow> int option"
  unmarshalConsensusType :: "bytes \<Rightarrow> bytes option"
  unmarshalConfigMetadata :: "bytes \<Rightarrow> ConfigMetadata option"
  bundleMetadata :: "Envelope \<Rightarrow> bytes option go"

subsection \<open>Changes of the membership\<close>

definition Changed :: "MembershipChanges \<Rightarrow> bool" where
  "Changed mc \<longleftrightarrow> 0 < length (AddedNodes mc) \<or> 0 < length (RemovedNodes mc)"

definition Rotated :: "MembershipChanges \<Rightarrow> bool" where
  "Rotated mc \<longleftrightarrow> length (AddedNodes mc) = 1 \<and> length (RemovedNodes mc) = 1"

definition ConsentersToMap :: "Consenter list \<Rightarrow> bytes set" where
  "ConsentersToMap consenters = fold (\<lambda>c set. insert (ClientTlsCert c) set) consenters {}"

definition MembershipByCert :: "(u64, Consenter) gomap \<Rightarrow> bytes \<rightharpoonup> u64" where
  "MembershipByCert consenters = fold (\<lambda>(nodeID, c) set. set(ClientTlsCert c \<mapsto> nodeID)) consenters Map.empty"

text \<open>
  The loops of \<open>ComputeMembershipChanges\<close>: over the new consenters with their positions, keeping the
  identifiers of those that stay and collecting the others, and over the old consenters.
\<close>

record change_scan =
  scIds :: "u64 list"
  scConsenters :: "(u64, Consenter) gomap"
  scAddedIndex :: nat
  scAdded :: "Consenter list"

definition scan_new :: "(bytes \<rightharpoonup> u64) \<Rightarrow> nat \<times> Consenter \<Rightarrow> change_scan \<Rightarrow> change_scan" where
  "scan_new current = (\<lambda>(i, c) s.
     case current (ClientTlsCert c) of
       Some nodeID \<Rightarrow> s\<lparr>scIds := (scIds s)[i := nodeID], scConsenters := put nodeID c (scConsenters s)\<rparr>
     | None \<Rightarrow> s\<lparr>scAddedIndex := i, scAdded := scAdded s @ [c]\<rparr>)"

definition scan_old :: "bytes set \<Rightarrow> u64 \<times> Consenter \<Rightarrow> Consenter list \<times> u64 \<Rightarrow> Consenter list \<times> u64" where
  "scan_old new = (\<lambda>(nodeID, c) (removed, deletedNodeID).
     if ClientTlsCert c \<notin> new then (removed @ [c], nodeID) else (removed, deletedNodeID))"

definition membership_error :: string where
  "membership_error = ''update of more than one consenter at a time is not supported''"

definition compute_changes ::
  "BlockMetadata \<Rightarrow> (u64, Consenter) gomap \<Rightarrow> Consenter list \<Rightarrow> MembershipChanges go" where
  "compute_changes oldMetadata oldConsenters newConsenters =
     (let s = fold (scan_new (MembershipByCert oldConsenters)) (zip [0..<length newConsenters] newConsenters)
                \<lparr>scIds = replicate (length newConsenters) 0, scConsenters = [], scAddedIndex = 0, scAdded = []\<rparr>;
          (removed, deletedNodeID) = fold (scan_old (ConsentersToMap newConsenters)) oldConsenters ([], 0);
          result = \<lparr>NewBlockMetadata = oldMetadata\<lparr>ConsenterIds := scIds s\<rparr>, NewConsenters = scConsenters s,
                    AddedNodes = scAdded s, RemovedNodes = removed, mcConfChange = None, RotatedNode = 0\<rparr>
      in if length (scAdded s) = 1 \<and> length removed = 1 then
           Inr (result\<lparr>RotatedNode := deletedNodeID,
             NewBlockMetadata := (NewBlockMetadata result)\<lparr>ConsenterIds := (scIds s)[scAddedIndex s := deletedNodeID]\<rparr>,
             NewConsenters := put deletedNodeID (scAdded s ! 0) (scConsenters s)\<rparr>)
         else if length (scAdded s) = 1 \<and> length removed = 0 then
           (let nodeID = NextConsenterId oldMetadata in
            Inr (result\<lparr>NewConsenters := put nodeID (scAdded s ! 0) (scConsenters s),
              NewBlockMetadata := (NewBlockMetadata result)
                \<lparr>ConsenterIds := (scIds s)[scAddedIndex s := nodeID], NextConsenterId := nodeID + 1\<rparr>,
              mcConfChange := Some \<lparr>ccType = ConfChangeAddNode, ccNodeID = nodeID\<rparr>\<rparr>))
         else if length (scAdded s) = 0 \<and> length removed = 1 then
           Inr (result\<lparr>mcConfChange := Some \<lparr>ccType = ConfChangeRemoveNode, ccNodeID = deletedNodeID\<rparr>,
             NewConsenters := del deletedNodeID (scConsenters s)\<rparr>)
         else if length (scAdded s) = 0 \<and> length removed = 0 then Inr result
         else Inl (Err membership_error))"

text \<open>A nil consenter is read before anything is returned.\<close>

definition ComputeMembershipChanges ::
  "BlockMetadata \<Rightarrow> (u64, Consenter) gomap \<Rightarrow> Consenter option list \<Rightarrow> MembershipChanges go" where
  "ComputeMembershipChanges oldMetadata oldConsenters newConsenters =
     (case mapM id newConsenters of
        None \<Rightarrow> Inl NilDeref
      | Some cs \<Rightarrow> compute_changes oldMetadata oldConsenters cs)"

definition NodeExists :: "u64 \<Rightarrow> u64 list \<Rightarrow> bool" where
  "NodeExists i ns = list_ex (\<lambda>n. n = i) ns"

definition ConfChange :: "BlockMetadata \<Rightarrow> u64 list \<Rightarrow> ConfChangeMsg" where
  "ConfChange blockMetadata confNodes =
     (if length confNodes < length (ConsenterIds blockMetadata)
      then fold (\<lambda>i cc. if NodeExists i confNodes then cc else cc\<lparr>ccNodeID := i\<rparr>)
             (ConsenterIds blockMetadata) \<lparr>ccType = ConfChangeAddNode, ccNodeID = 0\<rparr>
      else fold (\<lambda>i cc. if NodeExists i (ConsenterIds blockMetadata) then cc else cc\<lparr>ccNodeID := i\<rparr>)
             confNodes \<lparr>ccType = ConfChangeRemoveNode, ccNodeID = 0\<rparr>)"

definition RaftPeers :: "u64 list \<Rightarrow> u64 list" where
  "RaftPeers consenterIDs = fold (\<lambda>i peers. peers @ [i]) consenterIDs []"

subsection \<open>Validation of a configuration\<close>

definition dup_step :: "Consenter \<Rightarrow> bytes set \<Rightarrow> bytes set go" where
  "dup_step c seen =
     (if ServerTlsCert c \<in> seen \<or> ClientTlsCert c \<in> seen then Inl (Err ''duplicate consenter'')
      else Inr (insert (ClientTlsCert c) (insert (ServerTlsCert c) seen)))"

definition MetadataHasDuplication :: "ConfigMetadata option \<Rightarrow> unit go" where
  "MetadataHasDuplication md =
     (case md of
        None \<Rightarrow> Inl (Err ''nil metadata'')
      | Some m \<Rightarrow>
         (case mapM id (Consenters m) of
            None \<Rightarrow> Inl (Err ''nil consenter in metadata'')
          | Some cs \<Rightarrow> bindE (foldE dup_step cs {}) (\<lambda>_. Inr ())))"

definition validateCert :: "'a raft_codec_scheme \<Rightarrow> bytes \<Rightarrow> unit go" where
  "validateCert cd pemData =
     (case pemDecode cd pemData of
        None \<Rightarrow> Inl (Err ''TLS certificate is not PEM encoded'')
      | Some b \<Rightarrow> if parseCertificate cd b then Inr () else Inl (Err ''TLS certificate has invalid ASN1 structure''))"

definition check_certs :: "'a raft_codec_scheme \<Rightarrow> Consenter option \<Rightarrow> unit \<Rightarrow> unit go" where
  "check_certs cd p u =
     bindE (deref p) (\<lambda>c.
     bindE (validateCert cd (ServerTlsCert c)) (\<lambda>_. validateCert cd (ClientTlsCert c)))"

definition check_options :: "'a raft_codec_scheme \<Rightarrow> Options \<Rightarrow> unit go" where
  "check_options cd opts =
     (if HeartbeatTick opts = 0 \<or> ElectionTick opts = 0 \<or> MaxInflightBlocks opts = 0
      then Inl (Err ''none of HeartbeatTick, ElectionTick and MaxInflightBlocks can be zero'')
      else if ElectionTick opts \<le> HeartbeatTick opts
      then Inl (Err ''ElectionTick must be greater than HeartbeatTick'')
      else case parseDuration cd (TickInterval opts) of
             None \<Rightarrow> Inl (Err ''failed to parse TickInterval'')
           | Some d \<Rightarrow> if d = 0 then Inl (Err ''TickInterval cannot be zero'') else Inr ())"

definition CheckConfigMetadata :: "'a raft_codec_scheme \<Rightarrow> ConfigMetadata option \<Rightarrow> unit go" where
  "CheckConfigMetadata cd metadata =
     (case metadata of
        None \<Rightarrow> Inl (Err ''nil Raft config metadata'')
      | Some m \<Rightarrow>
         (case mdOptions m of
            None \<Rightarrow> Inl (Err ''nil Raft config metadata options'')
          | Some opts \<Rightarrow>
              bindE (check_options cd opts) (\<lambda>_.
              if Consenters m = [] then Inl (Err ''empty consenter set'')
              else bindE (foldE (check_certs cd) (Consenters m) ()) (\<lambda>_.
                     MetadataHasDuplication metadata))))"

subsection \<open>The metadata in a configuration block\<close>

definition MetadataFromConfigValue :: "'a raft_codec_scheme \<Rightarrow> ConfigValue \<Rightarrow> ConfigMetadata go" where
  "MetadataFromConfigValue cd v =
     bindE (of_option ''failed to unmarshal consensusType config update'' (unmarshalConsensusType cd (cvValue v)))
       (\<lambda>md. of_option ''failed to unmarshal updated (new) etcdraft metadata configuration''
               (unmarshalConfigMetadata cd md))"

text \<open>The value of \<open>ConsensusType\<close> in the group \<open>Orderer\<close> of a read or write set.\<close>

definition consensus_value :: "ConfigGroup option \<Rightarrow> ConfigValue option" where
  "consensus_value rw =
     (case rw of
        None \<Rightarrow> None
      | Some g \<Rightarrow>
         (case Groups g of
            None \<Rightarrow> None
          | Some gs \<Rightarrow>
             (case gs ''Orderer'' of None \<Rightarrow> None | Some og \<Rightarrow> ogValues og ''ConsensusType'')))"

definition MetadataFromConfigUpdate :: "'a raft_codec_scheme \<Rightarrow> ConfigUpdate \<Rightarrow> ConfigMetadata option go" where
  "MetadataFromConfigUpdate cd update =
     (let baseVersion = (case consensus_value (cuReadSet update) of None \<Rightarrow> 0 | Some v \<Rightarrow> cvVersion v)
      in case consensus_value (cuWriteSet update) of
           None \<Rightarrow> Inr None
         | Some v \<Rightarrow>
             if baseVersion = cvVersion v then Inr None
             else bindE (MetadataFromConfigValue cd v) (\<lambda>m. Inr (Some m)))"

definition ConfigChannelHeader :: "'a raft_codec_scheme \<Rightarrow> Block \<Rightarrow> ChannelHeader go" where
  "ConfigChannelHeader cd block =
     bindE (ExtractEnvelope cd block 0) (utils_ChannelHeader cd)"

definition ConfigEnvelopeFromBlock :: "'a raft_codec_scheme \<Rightarrow> Block option \<Rightarrow> Envelope go" where
  "ConfigEnvelopeFromBlock cd block =
     (case block of
        None \<Rightarrow> Inl (Err ''nil block'')
      | Some b \<Rightarrow>
          bindE (ExtractEnvelope cd b 0) (\<lambda>env.
          bindE (utils_ChannelHeader cd env) (\<lambda>h.
            if chType h = HeaderType_ORDERER_TRANSACTION then
              bindE (UnmarshalPayload cd (Payload env)) (\<lambda>p.
                of_option ''failed to unmarshal config envelope'' (unmarshalEnvelope cd (plData p)))
            else if chType h = HeaderType_CONFIG then Inr env
            else Inl (Err ''unexpected header type''))))"

definition ConsensusMetadataFromConfigBlock :: "'a raft_codec_scheme \<Rightarrow> Block option \<Rightarrow> ConfigMetadata option go" where
  "ConsensusMetadataFromConfigBlock cd block =
     (case block of
        None \<Rightarrow> Inl (Err ''nil block'')
      | Some b \<Rightarrow>
          if \<not> IsConfigBlock cd b then Inl (Err ''not a config block'')
          else bindE (ConfigEnvelopeFromBlock cd block) (\<lambda>env.
               bindE (ExtractPayload cd env) (\<lambda>p.
               bindE (UnmarshalConfigUpdateFromPayload cd p) (\<lambda>u.
                 MetadataFromConfigUpdate cd u))))"

definition ErrNotInChannel :: go_err where "ErrNotInChannel = Err ''not in the channel''"
definition ErrForbidden :: go_err where "ErrForbidden = Err ''forbidden pulling the channel''"

fun find_cert :: "bytes \<Rightarrow> Consenter option list \<Rightarrow> unit go" where
  "find_cert conCert [] = Inl ErrNotInChannel"
| "find_cert conCert (None # cs) = Inl NilDeref"
| "find_cert conCert (Some c # cs) =
     (if conCert = ServerTlsCert c \<or> conCert = ClientTlsCert c then Inr () else find_cert conCert cs)"

definition IsConsenterOfChannel :: "'a raft_codec_scheme \<Rightarrow> bytes \<Rightarrow> Block option \<Rightarrow> unit go" where
  "IsConsenterOfChannel cd conCert configBlock =
     (case configBlock of
        None \<Rightarrow> Inl (Err ''nil block'')
      | Some b \<Rightarrow>
          bindE (ExtractEnvelope cd b 0) (\<lambda>env.
          bindE (bundleMetadata cd env) (\<lambda>md.
          case md of
            None \<Rightarrow> Inl (Err ''no orderer config in bundle'')
          | Some v \<Rightarrow>
              bindE (of_option ''ConfigMetadata'' (unmarshalConfigMetadata cd v)) (\<lambda>m.
                find_cert conCert (Consenters m)))))"

subsection \<open>The loops\<close>

lemma MembershipByCert_eq:
  assumes "distinct (map (ClientTlsCert \<circ> snd) cs)"
  shows "MembershipByCert cs k = Some i \<longleftrightarrow> (\<exists>c. (i, c) \<in> set cs \<and> ClientTlsCert c = k)"
proof -
  let ?ks = "map (\<lambda>(i, c). (ClientTlsCert c, i)) cs"
  have "fold (\<lambda>(nodeID, c) m. m(ClientTlsCert c \<mapsto> nodeID)) cs m = m ++ map_of (rev ?ks)" for m
    by (induction cs arbitrary: m) (auto simp: map_add_def fun_eq_iff split: option.split)
  then have "MembershipByCert cs = map_of (rev ?ks)" by (simp add: MembershipByCert_def)
  moreover have "distinct (map fst (rev ?ks))"
    using assms by (simp add: rev_map [symmetric] o_def case_prod_unfold)
  ultimately show ?thesis by (auto simp: map_of_eq_Some_iff)
qed

lemma ConsentersToMap_eq: "ConsentersToMap cs = ClientTlsCert ` set cs"
proof -
  have "fold (\<lambda>c s. insert (ClientTlsCert c) s) cs s = ClientTlsCert ` set cs \<union> s" for s
    by (induction cs arbitrary: s) auto
  then show ?thesis by (simp add: ConsentersToMap_def)
qed

lemma NodeExists_iff [simp]: "NodeExists i ns \<longleftrightarrow> i \<in> set ns"
  by (auto simp: NodeExists_def list_ex_iff)

lemma RaftPeers_eq: "RaftPeers ids = ids"
proof -
  have "fold (\<lambda>i peers. peers @ [i]) ids acc = acc @ ids" for acc :: "u64 list"
    by (induction ids arbitrary: acc) simp_all
  then show ?thesis by (simp add: RaftPeers_def)
qed

text \<open>What the scan of the new consenters \<open>cs\<close> has computed.\<close>

definition scan_ok :: "(bytes \<rightharpoonup> u64) \<Rightarrow> u64 list \<Rightarrow> Consenter list \<Rightarrow> change_scan \<Rightarrow> bool" where
  "scan_ok cur ids cs s \<longleftrightarrow>
     length (scIds s) = length ids \<and>
     (\<forall>i < length cs. scIds s ! i = (case cur (ClientTlsCert (cs ! i)) of None \<Rightarrow> ids ! i | Some j \<Rightarrow> j)) \<and>
     (\<forall>i. length cs \<le> i \<longrightarrow> scIds s ! i = ids ! i) \<and>
     distinct (map fst (scConsenters s)) \<and>
     scAdded s = filter (\<lambda>c. cur (ClientTlsCert c) = None) cs \<and>
     (scAdded s \<noteq> [] \<longrightarrow> scAddedIndex s < length cs \<and> cs ! scAddedIndex s = last (scAdded s)) \<and>
     (distinct (map ClientTlsCert cs) \<longrightarrow>
       (\<forall>k c. map_of (scConsenters s) k = Some c \<longleftrightarrow> c \<in> set cs \<and> cur (ClientTlsCert c) = Some k))"

lemma scan_ok_step:
  assumes ok: "scan_ok cur ids cs s" and l: "length cs < length ids" and inj: "inj_on cur (dom cur)"
  shows "scan_ok cur ids (cs @ [d]) (scan_new cur (length cs, d) s)"
proof (cases "cur (ClientTlsCert d)")
  case None
  then show ?thesis using ok by (auto simp: scan_ok_def scan_new_def nth_append less_Suc_eq)
next
  case (Some j)
  have n: "cur (ClientTlsCert e) \<noteq> Some j" if "ClientTlsCert d \<notin> ClientTlsCert ` set cs" "e \<in> set cs" for e
    using inj Some that unfolding inj_on_def by (metis domI imageI)
  have m: "map_of (put j d (scConsenters s)) k = Some c \<longleftrightarrow>
      c \<in> set (cs @ [d]) \<and> cur (ClientTlsCert c) = Some k"
    if "distinct (map ClientTlsCert (cs @ [d]))" for k c
  proof -
    have "map_of (scConsenters s) k = Some c \<longleftrightarrow> c \<in> set cs \<and> cur (ClientTlsCert c) = Some k"
      using ok that by (simp add: scan_ok_def)
    then show ?thesis using n [of c] that Some by auto
  qed
  have st: "scan_new cur (length cs, d) s
      = s\<lparr>scIds := (scIds s)[length cs := j], scConsenters := put j d (scConsenters s)\<rparr>"
    using Some by (simp add: scan_new_def)
  have "(scIds s)[length cs := j] ! i = (case cur (ClientTlsCert ((cs @ [d]) ! i)) of None \<Rightarrow> ids ! i | Some j \<Rightarrow> j)"
    if "i < length (cs @ [d])" for i
    using ok l Some that by (auto simp: scan_ok_def nth_append nth_list_update)
  moreover have "(scIds s)[length cs := j] ! i = ids ! i" if "length (cs @ [d]) \<le> i" for i
    using ok that by (simp add: scan_ok_def)
  moreover have "distinct (map fst (put j d (scConsenters s)))"
    using ok by (simp add: scan_ok_def distinct_update)
  ultimately show ?thesis using ok m Some unfolding scan_ok_def st by (auto simp: nth_append)
qed

lemma scan_ok_all:
  assumes "length cs \<le> length ids" and "inj_on cur (dom cur)"
  shows "scan_ok cur ids cs (fold (scan_new cur) (zip [0..<length cs] cs)
            \<lparr>scIds = ids, scConsenters = [], scAddedIndex = 0, scAdded = []\<rparr>)"
  using assms(1)
proof (induction cs rule: rev_induct)
  case (snoc d cs)
  then show ?case using scan_ok_step [OF _ _ assms(2)] by simp
qed (simp add: scan_ok_def)

lemma scan_old_all:
  "fold (scan_old new) old (r, d)
     = (r @ map snd (filter (\<lambda>p. ClientTlsCert (snd p) \<notin> new) old),
        (case filter (\<lambda>p. ClientTlsCert (snd p) \<notin> new) old of [] \<Rightarrow> d | p # ps \<Rightarrow> fst (last (p # ps))))"
  by (induction old arbitrary: r d) (auto simp: scan_old_def split: list.splits)

subsection \<open>The membership invariant\<close>

text \<open>
  Every consenter has one identifier, which is positive and below the next one to be given out, and
  no two consenters share a client certificate.
\<close>

definition membership_ok :: "BlockMetadata \<Rightarrow> (u64, Consenter) gomap \<Rightarrow> bool" where
  "membership_ok md cons \<longleftrightarrow>
     distinct (map fst cons) \<and> distinct (map (ClientTlsCert \<circ> snd) cons) \<and>
     distinct (ConsenterIds md) \<and> set (ConsenterIds md) = fst ` set cons \<and>
     0 < NextConsenterId md \<and> (\<forall>i \<in> fst ` set cons. 0 < i \<and> i < NextConsenterId md)"

text \<open>\<open>assigned ids cons cs\<close>: the identifiers \<open>ids\<close> belong to the consenters \<open>cs\<close>, position by position.\<close>

definition assigned :: "u64 list \<Rightarrow> (u64, Consenter) gomap \<Rightarrow> Consenter list \<Rightarrow> bool" where
  "assigned ids cons cs \<longleftrightarrow>
     length ids = length cs \<and> (\<forall>i < length cs. map_of cons (ids ! i) = Some (cs ! i)) \<and>
     distinct ids \<and> set ids = fst ` set cons \<and>
     distinct (map fst cons) \<and> distinct (map (ClientTlsCert \<circ> snd) cons)"

lemma MembershipByCert_inj:
  assumes "distinct (map (ClientTlsCert \<circ> snd) old)" "distinct (map fst old)"
  shows "inj_on (MembershipByCert old) (dom (MembershipByCert old))"
proof (rule inj_onI)
  fix x y assume x: "x \<in> dom (MembershipByCert old)" and e: "MembershipByCert old x = MembershipByCert old y"
  then obtain i where "MembershipByCert old x = Some i" "MembershipByCert old y = Some i" by (metis domD)
  then obtain c d where "(i, c) \<in> set old" "ClientTlsCert c = x" "(i, d) \<in> set old" "ClientTlsCert d = y"
    unfolding MembershipByCert_eq [OF assms(1)] by blast
  then show "x = y" using eq_key_imp_eq_value [OF assms(2)] by blast
qed

lemma assignedI:
  assumes d: "distinct (map ClientTlsCert cs)" and l: "length ids = length cs"
    and ids: "\<And>i. i < length cs \<Longrightarrow> ids ! i = f (cs ! i)"
    and inj: "inj_on f (set cs)"
    and m: "\<And>k c. map_of cons k = Some c \<longleftrightarrow> c \<in> set cs \<and> f c = k"
    and k: "distinct (map fst cons)"
  shows "assigned ids cons cs"
proof -
  have dc: "distinct cs" using d by (simp add: distinct_map)
  have e: "ids = map f cs" using l ids by (intro nth_equalityI) simp_all
  have "(j, c) \<in> set cons \<longleftrightarrow> c \<in> set cs \<and> f c = j" for j c
    unfolding m [symmetric] by (simp add: map_of_eq_Some_iff [OF k])
  then have s: "set cons = (\<lambda>c. (f c, c)) ` set cs" by auto
  have i: "inj_on ClientTlsCert (set cs)" using d by (simp add: distinct_map)
  have "inj_on (ClientTlsCert \<circ> snd) (set cons)"
    unfolding s using i by (auto simp: inj_on_def)
  then have "distinct (map (ClientTlsCert \<circ> snd) cons)"
    using k by (simp add: distinct_map)
  moreover have "distinct ids" using dc inj by (simp add: e distinct_map)
  moreover have "set ids = fst ` set cons" unfolding e s by (simp add: image_image)
  moreover have "map_of cons (ids ! i) = Some (cs ! i)" if "i < length cs" for i
    unfolding m using ids [OF that] that by simp
  ultimately show ?thesis using l k by (simp add: assigned_def)
qed

lemma filter_single:
  assumes "filter P xs = [a]"
  shows "a \<in> set xs" "P a" "x \<in> set xs \<Longrightarrow> P x \<Longrightarrow> x = a"
proof -
  have "set (filter P xs) = {a}" using assms by simp
  then show "a \<in> set xs" "P a" "x \<in> set xs \<Longrightarrow> P x \<Longrightarrow> x = a" by auto
qed

text \<open>
  Where every new consenter is either an old one or the only addition, which gets the identifier \<open>D\<close>
  that no old consenter in \<open>cs\<close> has, the identifiers are assigned.
\<close>

lemma assigned_scan:
  assumes d: "distinct (map ClientTlsCert cs)" and inj: "inj_on cur (dom cur)"
    and ok: "scan_ok cur (replicate (length cs) 0) cs s"
    and D: "\<And>c. c \<in> set cs \<Longrightarrow> cur (ClientTlsCert c) \<noteq> Some D"
  shows "scAdded s = [] \<Longrightarrow> assigned (scIds s) (scConsenters s) cs"
    and "scAdded s = [a] \<Longrightarrow> assigned ((scIds s)[scAddedIndex s := D]) (put D a (scConsenters s)) cs"
proof -
  note o = ok [unfolded scan_ok_def]
  let ?f = "\<lambda>c. case cur (ClientTlsCert c) of None \<Rightarrow> D | Some j \<Rightarrow> j"
  have dc: "distinct cs" using d by (simp add: distinct_map)
  have ic: "inj_on ClientTlsCert (set cs)" using d by (simp add: distinct_map)
  have js: "b = c" if "b \<in> set cs" "c \<in> set cs" "cur (ClientTlsCert b) = Some j" "cur (ClientTlsCert c) = Some j"
    for b c j using that inj ic by (metis domI inj_onD)
  have inj_f: "inj_on ?f (set cs)"
    if u: "\<And>b c. b \<in> set cs \<Longrightarrow> c \<in> set cs \<Longrightarrow> cur (ClientTlsCert b) = None \<Longrightarrow> cur (ClientTlsCert c) = None \<Longrightarrow> b = c"
  proof (rule inj_onI)
    fix b c assume b: "b \<in> set cs" and c: "c \<in> set cs" and e: "?f b = ?f c"
    show "b = c"
    proof (cases "cur (ClientTlsCert b)")
      case None
      then have "cur (ClientTlsCert c) = None"
        using e D [OF c] by (cases "cur (ClientTlsCert c)") simp_all
      then show ?thesis using u [OF b c None] by simp
    next
      case (Some j)
      then have "cur (ClientTlsCert c) = Some j"
        using e D [OF b] by (cases "cur (ClientTlsCert c)") simp_all
      then show ?thesis using js [OF b c Some] by simp
    qed
  qed
  { assume e: "scAdded s = []"
    then have n: "cur (ClientTlsCert c) \<noteq> None" if "c \<in> set cs" for c using o that by (auto simp: filter_empty_conv)
    show "assigned (scIds s) (scConsenters s) cs"
    proof (rule assignedI [OF d, where f = ?f])
      show "inj_on ?f (set cs)" by (rule inj_f) (use n in blast)
      show "map_of (scConsenters s) k = Some c \<longleftrightarrow> c \<in> set cs \<and> ?f c = k" for k c
        using o d n [of c] by (auto split: option.splits)
      show "scIds s ! i = ?f (cs ! i)" if "i < length cs" for i
        using o n [of "cs ! i"] that by (auto split: option.split)
    qed (use o in simp_all) }
  { assume e: "scAdded s = [a]"
    then have f: "filter (\<lambda>c. cur (ClientTlsCert c) = None) cs = [a]" using o by simp
    have a: "a \<in> set cs" "cur (ClientTlsCert a) = None"
      and u: "\<And>c. c \<in> set cs \<Longrightarrow> cur (ClientTlsCert c) = None \<Longrightarrow> c = a"
      using filter_single [OF f] by blast+
    have ix: "scAddedIndex s < length cs" "cs ! scAddedIndex s = a" using o e by simp_all
    show "assigned ((scIds s)[scAddedIndex s := D]) (put D a (scConsenters s)) cs"
    proof (rule assignedI [OF d, where f = ?f])
      show "inj_on ?f (set cs)" by (rule inj_f) (use u in blast)
      show "map_of (put D a (scConsenters s)) k = Some c \<longleftrightarrow> c \<in> set cs \<and> ?f c = k" for k c
        using o d a u [of c] D [of c] by (auto split: option.splits)
      show "(scIds s)[scAddedIndex s := D] ! i = ?f (cs ! i)" if "i < length cs" for i
      proof (cases "i = scAddedIndex s")
        case True
        then show ?thesis using ix a o that by simp
      next
        case False
        then have "cs ! i \<noteq> a" using ix dc that nth_eq_iff_index_eq by metis
        then show ?thesis using False o u [of "cs ! i"] that by (auto split: option.split)
      qed
    qed (use o in \<open>simp_all add: distinct_update\<close>) }
qed

text \<open>
  A consenter that stays keeps its identifier. What a change does to the identifiers in use: nothing,
  the next identifier is added, or one is removed.
\<close>

definition kept :: "(u64, Consenter) gomap \<Rightarrow> Consenter list \<Rightarrow> (u64, Consenter) gomap \<Rightarrow> bool" where
  "kept old cs cons \<longleftrightarrow>
     (\<forall>(i, b) \<in> set old. \<forall>c \<in> set cs. ClientTlsCert c = ClientTlsCert b \<longrightarrow> map_of cons i = Some c)"

definition change_keys :: "BlockMetadata \<Rightarrow> (u64, Consenter) gomap \<Rightarrow> MembershipChanges \<Rightarrow> bool" where
  "change_keys md old mc \<longleftrightarrow>
     (let K = fst ` set old; K' = fst ` set (NewConsenters mc); next' = NextConsenterId (NewBlockMetadata mc)
      in (mcConfChange mc = None \<and> K' = K \<and> next' = NextConsenterId md) \<or>
         (mcConfChange mc = Some \<lparr>ccType = ConfChangeAddNode, ccNodeID = NextConsenterId md\<rparr> \<and>
          K' = insert (NextConsenterId md) K \<and> next' = NextConsenterId md + 1) \<or>
         (\<exists>D \<in> K. mcConfChange mc = Some \<lparr>ccType = ConfChangeRemoveNode, ccNodeID = D\<rparr> \<and>
          K' = K - {D} \<and> next' = NextConsenterId md))"

lemma cur_facts:
  assumes ok: "membership_ok md old" and d: "distinct (map ClientTlsCert cs)"
    and sc: "scan_ok (MembershipByCert old) ids cs s"
  defines "R \<equiv> filter (\<lambda>p. ClientTlsCert (snd p) \<notin> ClientTlsCert ` set cs) old"
  shows "fst ` set (scConsenters s) = fst ` (set old - set R)"
    and "MembershipByCert old k \<noteq> Some (NextConsenterId md)"
    and "R = [(D, y)] \<Longrightarrow> fst ` (set old - set R) = fst ` set old - {D}"
    and "R = [(D, y)] \<Longrightarrow> D \<in> fst ` set old"
    and "R = [(D, y)] \<Longrightarrow> c \<in> set cs \<Longrightarrow> MembershipByCert old (ClientTlsCert c) \<noteq> Some D"
    and "(i, b) \<in> set old \<Longrightarrow> c \<in> set cs \<Longrightarrow> ClientTlsCert c = ClientTlsCert b \<Longrightarrow>
      map_of (scConsenters s) i = Some c \<and> MembershipByCert old (ClientTlsCert c) = Some i"
proof -
  let ?cur = "MembershipByCert old"
  note o = ok [unfolded membership_ok_def]
  have du: "distinct (map (ClientTlsCert \<circ> snd) old)" "distinct (map fst old)" using o by simp_all
  have cur: "?cur k = Some i \<longleftrightarrow> (\<exists>c. (i, c) \<in> set old \<and> ClientTlsCert c = k)" for k i
    by (rule MembershipByCert_eq [OF du(1)])
  have m: "map_of (scConsenters s) k = Some c \<longleftrightarrow> c \<in> set cs \<and> ?cur (ClientTlsCert c) = Some k" for k c
    using sc d by (simp add: scan_ok_def)
  show "fst ` set (scConsenters s) = fst ` (set old - set R)"
  proof (rule set_eqI)
    fix k
    have "k \<in> fst ` set (scConsenters s) \<longleftrightarrow> (\<exists>c. map_of (scConsenters s) k = Some c)"
      by (metis domD domI dom_map_of_conv_image_fst)
    also have "\<dots> \<longleftrightarrow> (\<exists>c. (k, c) \<in> set old \<and> ClientTlsCert c \<in> ClientTlsCert ` set cs)"
      unfolding m cur by (metis imageE imageI)
    also have "\<dots> \<longleftrightarrow> k \<in> fst ` (set old - set R)" unfolding R_def by (force simp: image_iff)
    finally show "k \<in> fst ` set (scConsenters s) \<longleftrightarrow> k \<in> fst ` (set old - set R)" .
  qed
  show "map_of (scConsenters s) i = Some c \<and> ?cur (ClientTlsCert c) = Some i"
    if "(i, b) \<in> set old" "c \<in> set cs" "ClientTlsCert c = ClientTlsCert b"
    unfolding m cur using that by metis
  show "?cur k \<noteq> Some (NextConsenterId md)"
  proof
    assume "?cur k = Some (NextConsenterId md)"
    then obtain b where "(NextConsenterId md, b) \<in> set old" unfolding cur by blast
    then have "NextConsenterId md \<in> fst ` set old" by (rule rev_image_eqI) simp
    then show False using o by blast
  qed
  assume R: "R = [(D, y)]"
  have y: "(D, y) \<in> set old" "ClientTlsCert y \<notin> ClientTlsCert ` set cs"
    using filter_single(1,2) [OF R [unfolded R_def]] by simp_all
  have e: "b = y" if "(D, b) \<in> set old" for b using eq_key_imp_eq_value [OF du(2) that y(1)] .
  show "fst ` (set old - set R) = fst ` set old - {D}" unfolding R using e by (force simp: image_iff)
  show "D \<in> fst ` set old" using y(1) by (rule rev_image_eqI) simp
  show "?cur (ClientTlsCert c) \<noteq> Some D" if "c \<in> set cs" unfolding cur using e y(2) that by blast
qed

lemma length_one: "length xs = 1 \<longleftrightarrow> (\<exists>x. xs = [x])"
  by (cases xs) auto

lemma compute_changes_spec:
  assumes ok: "membership_ok md old" and d: "distinct (map ClientTlsCert cs)"
    and c: "compute_changes md old cs = Inr mc"
  shows "assigned (ConsenterIds (NewBlockMetadata mc)) (NewConsenters mc) cs \<and> change_keys md old mc \<and>
    kept old cs (NewConsenters mc)"
proof -
  define cur where "cur = MembershipByCert old"
  define s where "s = fold (scan_new cur) (zip [0..<length cs] cs)
      \<lparr>scIds = replicate (length cs) 0, scConsenters = [], scAddedIndex = 0, scAdded = []\<rparr>"
  define R where "R = filter (\<lambda>p. ClientTlsCert (snd p) \<notin> ClientTlsCert ` set cs) old"
  define D where "D = (case R of [] \<Rightarrow> 0 | p # ps \<Rightarrow> fst (last (p # ps)))"
  have inj: "inj_on cur (dom cur)"
    unfolding cur_def using ok by (intro MembershipByCert_inj) (simp_all add: membership_ok_def)
  have sc: "scan_ok cur (replicate (length cs) 0) cs s" unfolding s_def by (rule scan_ok_all [OF _ inj]) simp
  note f = cur_facts [OF ok d sc [unfolded cur_def], folded R_def cur_def]
  have kp: "kept old cs (scConsenters s)"
    "\<And>D a. (\<And>c. c \<in> set cs \<Longrightarrow> cur (ClientTlsCert c) \<noteq> Some D) \<Longrightarrow> kept old cs (put D a (scConsenters s))"
    using f(6) unfolding kept_def by fastforce+
  have o: "fold (scan_old (ConsentersToMap cs)) old ([], 0) = (map snd R, D)"
    by (simp add: scan_old_all ConsentersToMap_eq R_def D_def)
  note as = assigned_scan [OF d inj sc]
  note ev = c [unfolded compute_changes_def Let_def cur_def [symmetric] s_def [symmetric] o prod.case length_map]
  have R1: "\<exists>y. R = [(D, y)]" if "length R = 1" using that unfolding length_one D_def by auto
  consider (rot) a y where "scAdded s = [a]" "R = [(D, y)]" | (add) a where "scAdded s = [a]" "R = []"
    | (rem) y where "scAdded s = []" "R = [(D, y)]" | (none) "scAdded s = []" "R = []"
    using ev R1 unfolding length_one by (auto split: if_splits)
  then show ?thesis
  proof cases
    case rot
    have "insert D (fst ` set old - {D}) = fst ` set old" using f(4) [OF rot(2)] by blast
    then show ?thesis using ev as(2) [OF f(5) [OF rot(2)] rot(1)] f(1) f(3) [OF rot(2)] rot kp(2) [OF f(5) [OF rot(2)]]
      by (auto simp: change_keys_def keys_put)
  next
    case add
    then show ?thesis using ev as(2) [OF f(2) add(1)] f(1) kp(2) [OF f(2)]
      by (auto simp: change_keys_def keys_put)
  next
    case rem
    have "del D (scConsenters s) = scConsenters s"
      using f(1) f(3) [OF rem(2)] by (intro delete_id) simp
    then have mc: "NewBlockMetadata mc = md\<lparr>ConsenterIds := scIds s\<rparr>" "NewConsenters mc = scConsenters s"
      "mcConfChange mc = Some \<lparr>ccType = ConfChangeRemoveNode, ccNodeID = D\<rparr>" using ev rem by auto
    have "change_keys md old mc"
      unfolding change_keys_def Let_def mc f(1) f(3) [OF rem(2)]
      by (rule disjI2, rule disjI2, rule bexI [OF _ f(4) [OF rem(2)]]) simp
    then show ?thesis using as(1) [OF f(5) [OF rem(2)] rem(1)] kp(1) by (simp add: mc)
  next
    case none
    then show ?thesis using ev as(1) [OF f(2) none(1)] f(1) kp(1) by (auto simp: change_keys_def)
  qed
qed

lemma change_keys_bounds:
  assumes k: "change_keys md old mc" and n: "NextConsenterId md + 1 \<noteq> 0" and p: "0 < NextConsenterId md"
    and b: "\<And>i. i \<in> fst ` set old \<Longrightarrow> 0 < i \<and> i < NextConsenterId md"
  shows "0 < NextConsenterId (NewBlockMetadata mc) \<and>
      (\<forall>i \<in> fst ` set (NewConsenters mc). 0 < i \<and> i < NextConsenterId (NewBlockMetadata mc))"
proof -
  have l: "NextConsenterId md < NextConsenterId md + 1"
    using n by (simp add: word_less_nat_alt unatSuc add.commute)
  define K where "K = fst ` set old"
  define K' where "K' = fst ` set (NewConsenters mc)"
  have b': "0 < i \<and> i < NextConsenterId md" if "i \<in> K" for i using b that unfolding K_def .
  show ?thesis using k l p unfolding change_keys_def Let_def K_def [symmetric] K'_def [symmetric]
    by (auto dest: b' intro: less_trans)
qed

subsection \<open>Accepted configurations\<close>

abbreviation certs :: "Consenter \<Rightarrow> bytes set" where
  "certs c \<equiv> {ServerTlsCert c, ClientTlsCert c}"

lemma dup_loop:
  "(\<exists>S. foldE dup_step cs seen = Inr S) \<longleftrightarrow>
     (\<forall>c \<in> set cs. certs c \<inter> seen = {}) \<and> sorted_wrt (\<lambda>c d. certs c \<inter> certs d = {}) cs"
proof (induction cs arbitrary: seen)
  case (Cons c cs)
  then show ?case by (auto simp: dup_step_def)
qed simp

lemma mapM_id: "mapM id ps = Some cs \<longleftrightarrow> ps = map Some cs"
proof
  show "mapM id ps = Some cs \<Longrightarrow> ps = map Some cs"
    by (induction ps arbitrary: cs) (auto split: option.splits)
  have "mapM id (map Some cs) = Some cs" by (induction cs) simp_all
  then show "ps = map Some cs \<Longrightarrow> mapM id ps = Some cs" by simp
qed

lemma MetadataHasDuplication_ok:
  "MetadataHasDuplication (Some m) = Inr () \<longleftrightarrow>
     (\<exists>cs. Consenters m = map Some cs \<and> sorted_wrt (\<lambda>c d. certs c \<inter> certs d = {}) cs)"
proof (cases "mapM id (Consenters m)")
  case None
  then show ?thesis using mapM_id [of "Consenters m"] by (auto simp: MetadataHasDuplication_def)
next
  case (Some cs)
  then have e: "Consenters m = map Some cs" by (simp add: mapM_id)
  have "MetadataHasDuplication (Some m) = Inr () \<longleftrightarrow> (\<exists>S. foldE dup_step cs {} = Inr S)"
    by (simp add: MetadataHasDuplication_def Some)
  then show ?thesis unfolding dup_loop e by (simp add: inj_map_eq_map [OF inj_Some])
qed

lemma CheckConfigMetadata_ok:
  assumes "CheckConfigMetadata cd (Some m) = Inr ()"
  shows "\<exists>cs. Consenters m = map Some cs \<and> cs \<noteq> [] \<and> distinct (map ClientTlsCert cs)"
proof -
  have "MetadataHasDuplication (Some m) = Inr ()" "Consenters m \<noteq> []"
    using assms by (auto simp: CheckConfigMetadata_def split: option.splits if_splits)
  then obtain cs where cs: "Consenters m = map Some cs" "sorted_wrt (\<lambda>c d. certs c \<inter> certs d = {}) cs" "cs \<noteq> []"
    unfolding MetadataHasDuplication_ok by auto
  have "distinct (map ClientTlsCert cs)" using cs(2) by (induction cs) auto
  then show ?thesis using cs by blast
qed

lemma ConfChange_loop:
  fixes cc :: ConfChangeMsg
  assumes "\<And>i. i \<in> set is \<Longrightarrow> i \<notin> X \<Longrightarrow> i = D"
  shows "fold (\<lambda>i cc. if i \<in> X then cc else cc\<lparr>ccNodeID := i\<rparr>) is cc
     = (if set is \<subseteq> X then cc else cc\<lparr>ccNodeID := D\<rparr>)"
  using assms
proof (induction "is" arbitrary: cc)
  case (Cons i "is")
  have d: "\<And>j. j \<in> set is \<Longrightarrow> j \<notin> X \<Longrightarrow> j = D" using Cons.prems by simp
  show ?case using Cons.IH [OF d] Cons.prems [of i] by auto
qed simp

text \<open>The change of an accepted configuration, over the consenters themselves.\<close>

lemma accepted_changes:
  assumes "CheckConfigMetadata cd (Some m) = Inr ()"
  obtains cs where "Consenters m = map Some cs" "distinct (map ClientTlsCert cs)"
    "\<And>md old. ComputeMembershipChanges md old (Consenters m) = compute_changes md old cs"
proof -
  obtain cs where cs: "Consenters m = map Some cs" "distinct (map ClientTlsCert cs)"
    using CheckConfigMetadata_ok [OF assms] by blast
  then show ?thesis using that by (simp add: ComputeMembershipChanges_def mapM_id [THEN iffD2, of "map Some cs" cs])
qed

subsection \<open>Properties\<close>

text \<open>C5. A configuration that \<open>CheckConfigMetadata\<close> accepts changes the membership only to one in which
  again every consenter has exactly one identifier, identifiers are positive, distinct and below the
  next one, and certificates are distinct; the identifiers are listed in the order of the new
  consenters, and a consenter that stays keeps its own.\<close>

theorem membership_preserved:
  assumes "membership_ok md old" and "NextConsenterId md + 1 \<noteq> 0"
    and "CheckConfigMetadata cd (Some m) = Inr ()"
    and "ComputeMembershipChanges md old (Consenters m) = Inr mc"
  shows "membership_ok (NewBlockMetadata mc) (NewConsenters mc) \<and>
    (\<forall>i < length (Consenters m).
       map_of (NewConsenters mc) (ConsenterIds (NewBlockMetadata mc) ! i) = Consenters m ! i) \<and>
    (\<forall>(i, b) \<in> set old. \<forall>c. Some c \<in> set (Consenters m) \<longrightarrow> ClientTlsCert c = ClientTlsCert b \<longrightarrow>
       map_of (NewConsenters mc) i = Some c)"
proof -
  obtain cs where cs: "Consenters m = map Some cs" "distinct (map ClientTlsCert cs)"
      and c: "compute_changes md old cs = Inr mc"
    using accepted_changes [OF assms(3)] assms(4) by metis
  have a: "assigned (ConsenterIds (NewBlockMetadata mc)) (NewConsenters mc) cs" and k: "change_keys md old mc"
    and kp: "kept old cs (NewConsenters mc)"
    using compute_changes_spec [OF assms(1) cs(2) c] by simp_all
  have "0 < NextConsenterId (NewBlockMetadata mc) \<and>
      (\<forall>i \<in> fst ` set (NewConsenters mc). 0 < i \<and> i < NextConsenterId (NewBlockMetadata mc))"
    by (rule change_keys_bounds [OF k assms(2)]) (use assms(1) in \<open>auto simp: membership_ok_def\<close>)
  then show ?thesis using a cs(1) kp unfolding membership_ok_def assigned_def kept_def by auto
qed

definition ex_consenter :: "string \<Rightarrow> Consenter" where
  "ex_consenter n = \<lparr>Host = n, Port = 7050, ClientTlsCert = ''c'' @ n, ServerTlsCert = ''s'' @ n\<rparr>"

definition ex_metadata :: "string list \<Rightarrow> ConfigMetadata" where
  "ex_metadata ns =
     \<lparr>Consenters = map (\<lambda>n. Some (ex_consenter n)) ns,
      mdOptions = Some \<lparr>TickInterval = ''500ms'', ElectionTick = 10, HeartbeatTick = 2,
                        MaxInflightBlocks = 5, SnapshotIntervalSize = 0\<rparr>\<rparr>"

definition ex_old :: "(u64, Consenter) gomap" where
  "ex_old = [(1, ex_consenter ''a''), (2, ex_consenter ''b'')]"

definition ex_md :: BlockMetadata where
  "ex_md = \<lparr>ConsenterIds = [1, 2], NextConsenterId = 3, RaftIndex = 7\<rparr>"

definition ex_raft_codec :: raft_codec where
  "ex_raft_codec = block_codec.extend ex_block_codec
     (raft_codec.fields Some (\<lambda>b. True) (\<lambda>d. Some 500) (\<lambda>b. Some b) (\<lambda>b. Some (ex_metadata [''a'']))
        (\<lambda>e. Inr None))"

lemma ex_raft_codec_simps [simp]:
  "pemDecode ex_raft_codec b = Some b" "parseCertificate ex_raft_codec b"
  "parseDuration ex_raft_codec d = Some 500"
  by (simp_all add: ex_raft_codec_def block_codec.defs raft_codec.defs)

lemmas ex_membership_defs = ex_old_def ex_md_def ex_metadata_def ex_consenter_def

lemma ex_membership_ok: "membership_ok ex_md ex_old"
  by (simp add: membership_ok_def ex_membership_defs)

lemma ex_accepted:
  "CheckConfigMetadata ex_raft_codec (Some (ex_metadata [''b'', ''d'', ''a''])) = Inr ()"
  "CheckConfigMetadata ex_raft_codec (Some (ex_metadata [''b''])) = Inr ()"
  by (simp_all add: CheckConfigMetadata_def ex_membership_defs check_options_def check_certs_def
      validateCert_def MetadataHasDuplication_def dup_step_def)

theorem membership_preserved_witness:
  "\<exists>mc. ComputeMembershipChanges ex_md ex_old (Consenters (ex_metadata [''b'', ''d'', ''a''])) = Inr mc \<and>
     ConsenterIds (NewBlockMetadata mc) = [2, 3, 1] \<and> membership_ok (NewBlockMetadata mc) (NewConsenters mc)"
proof -
  obtain mc where mc: "ComputeMembershipChanges ex_md ex_old (Consenters (ex_metadata [''b'', ''d'', ''a''])) = Inr mc"
      "ConsenterIds (NewBlockMetadata mc) = [2, 3, 1]"
    by (simp add: ComputeMembershipChanges_def compute_changes_def MembershipByCert_def ConsentersToMap_def
        scan_new_def scan_old_def ex_membership_defs upt_rec)
  have "NextConsenterId ex_md + 1 \<noteq> 0" by (simp add: ex_md_def)
  then show ?thesis using mc membership_preserved [OF ex_membership_ok _ ex_accepted(1) mc(1)] by blast
qed

text \<open>C19. When a leader fails after a configuration block that adds or removes a node was written but before
  the change was applied to Raft, the new leader recomputes from the block metadata and the nodes Raft
  still has exactly the change that was pending.\<close>

theorem ConfChange_resumes:
  assumes "membership_ok md old" and "CheckConfigMetadata cd (Some m) = Inr ()"
    and "ComputeMembershipChanges md old (Consenters m) = Inr mc" and "mcConfChange mc = Some cc"
    and "distinct confNodes" and "set confNodes = set (ConsenterIds md)"
  shows "length confNodes \<noteq> length (ConsenterIds (NewBlockMetadata mc)) \<and>
    ConfChange (NewBlockMetadata mc) confNodes = cc"
proof -
  obtain cs where "distinct (map ClientTlsCert cs)" "compute_changes md old cs = Inr mc"
    using accepted_changes [OF assms(2)] assms(3) by metis
  note sp = compute_changes_spec [OF assms(1) this]
  let ?ids = "ConsenterIds (NewBlockMetadata mc)"
  define K where "K = fst ` set old"
  have n: "set confNodes = K" using assms(1,6) by (simp add: membership_ok_def K_def)
  have i: "distinct ?ids" "set ?ids = fst ` set (NewConsenters mc)" using sp by (simp_all add: assigned_def)
  have len: "length confNodes = card (set confNodes)" "length ?ids = card (set ?ids)"
    using assms(5) i(1) by (simp_all add: distinct_card)
  have fresh: "NextConsenterId md \<notin> K" using assms(1) by (auto simp: membership_ok_def K_def)
  have fin: "finite K" by (simp add: K_def)
  consider (add) "cc = \<lparr>ccType = ConfChangeAddNode, ccNodeID = NextConsenterId md\<rparr>"
        "set ?ids = insert (NextConsenterId md) K"
    | (rem) D where "D \<in> K" "cc = \<lparr>ccType = ConfChangeRemoveNode, ccNodeID = D\<rparr>" "set ?ids = K - {D}"
    using sp assms(4) unfolding change_keys_def Let_def i(2) K_def [symmetric] by force
  then show ?thesis
  proof cases
    case add
    then have "length ?ids = Suc (length confNodes)" unfolding len n using fresh fin by simp
    then show ?thesis using add(1) ConfChange_loop [of ?ids K "NextConsenterId md"] add(2) fresh n
      by (simp add: ConfChange_def)
  next
    case rem
    have "Suc (length ?ids) = length confNodes"
      unfolding len n rem(3) by (rule card_Suc_Diff1 [OF fin rem(1)])
    then show ?thesis using rem(2) ConfChange_loop [of confNodes "K - {D}" D] rem(1,3) n
      by (auto simp: ConfChange_def)
  qed
qed

theorem ConfChange_resumes_witness:
  "\<exists>mc. ComputeMembershipChanges ex_md ex_old (Consenters (ex_metadata [''b''])) = Inr mc \<and>
     ConfChange (NewBlockMetadata mc) [2, 1] = \<lparr>ccType = ConfChangeRemoveNode, ccNodeID = 1\<rparr>"
proof -
  obtain mc where mc: "ComputeMembershipChanges ex_md ex_old (Consenters (ex_metadata [''b''])) = Inr mc"
      "mcConfChange mc = Some \<lparr>ccType = ConfChangeRemoveNode, ccNodeID = 1\<rparr>"
    by (simp add: ComputeMembershipChanges_def compute_changes_def MembershipByCert_def ConsentersToMap_def
        scan_new_def scan_old_def ex_membership_defs)
  have "set [2, 1] = set (ConsenterIds ex_md)" "distinct [2, 1 :: u64]" by (auto simp: ex_md_def)
  then show ?thesis
    using mc ConfChange_resumes [OF ex_membership_ok ex_accepted(2) mc] by blast
qed

text \<open>C20. \<open>ComputeMembershipChanges\<close> rejects an accepted configuration exactly when it adds more than one
  consenter or removes more than one.\<close>

theorem membership_rejected:
  assumes "membership_ok md old" and "CheckConfigMetadata cd (Some m) = Inr ()"
  shows "ComputeMembershipChanges md old (Consenters m) = Inl (Err membership_error) \<longleftrightarrow>
    1 < length (filter (\<lambda>c. case c of None \<Rightarrow> False
                           | Some c \<Rightarrow> ClientTlsCert c \<notin> ClientTlsCert ` snd ` set old) (Consenters m)) \<or>
    1 < length (filter (\<lambda>(i, b). \<forall>c. Some c \<in> set (Consenters m) \<longrightarrow> ClientTlsCert c \<noteq> ClientTlsCert b) old)"
proof -
  obtain cs where cs: "Consenters m = map Some cs" "distinct (map ClientTlsCert cs)"
      and c: "ComputeMembershipChanges md old (Consenters m) = compute_changes md old cs"
    using accepted_changes [OF assms(2)] by metis
  have du: "distinct (map (ClientTlsCert \<circ> snd) old)" "distinct (map fst old)"
    using assms(1) by (simp_all add: membership_ok_def)
  let ?cur = "MembershipByCert old"
  let ?s = "fold (scan_new ?cur) (zip [0..<length cs] cs)
      \<lparr>scIds = replicate (length cs) 0, scConsenters = [], scAddedIndex = 0, scAdded = []\<rparr>"
  have "scan_ok ?cur (replicate (length cs) 0) cs ?s" by (rule scan_ok_all [OF _ MembershipByCert_inj [OF du]]) simp
  then have a: "scAdded ?s = filter (\<lambda>c. ?cur (ClientTlsCert c) = None) cs" by (simp add: scan_ok_def)
  have n: "?cur k = None \<longleftrightarrow> k \<notin> ClientTlsCert ` snd ` set old" for k
  proof -
    have "?cur k \<noteq> None \<longleftrightarrow> (\<exists>i b. (i, b) \<in> set old \<and> ClientTlsCert b = k)"
      using MembershipByCert_eq [OF du(1), of k] by (metis not_None_eq)
    then show ?thesis by force
  qed
  have f: "filter (\<lambda>c. case c of None \<Rightarrow> False | Some c \<Rightarrow> ClientTlsCert c \<notin> ClientTlsCert ` snd ` set old)
      (Consenters m) = map Some (scAdded ?s)" unfolding a n cs(1) by (simp add: filter_map o_def)
  have g: "filter (\<lambda>(i, b). \<forall>c. Some c \<in> set (Consenters m) \<longrightarrow> ClientTlsCert c \<noteq> ClientTlsCert b) old
      = filter (\<lambda>p. ClientTlsCert (snd p) \<notin> ClientTlsCert ` set cs) old"
    unfolding cs(1) by (intro filter_cong refl) (auto simp: image_iff)
  have one: "1 < n \<longleftrightarrow> n \<noteq> 0 \<and> n \<noteq> 1" for n :: nat by auto
  show ?thesis unfolding c f g length_map one
    by (simp add: compute_changes_def Let_def scan_old_all ConsentersToMap_eq) blast
qed

theorem membership_rejected_witness:
  "ComputeMembershipChanges ex_md ex_old (Consenters (ex_metadata [''c'', ''d'', ''a''])) = Inl (Err membership_error)"
proof -
  have "CheckConfigMetadata ex_raft_codec (Some (ex_metadata [''c'', ''d'', ''a''])) = Inr ()"
    by (simp add: CheckConfigMetadata_def ex_membership_defs check_options_def check_certs_def
        validateCert_def MetadataHasDuplication_def dup_step_def)
  from membership_rejected [OF ex_membership_ok this] show ?thesis by (simp add: ex_membership_defs)
qed

end
