(* ===== verification/RaftEviction.thy ===== *)
theory RaftEviction
  imports RaftMembership
begin

text \<open>
  Detection of the own eviction, from \<open>etcdraft/util.go\<close>: the periodic check of a condition, and the
  suspector that it reports to, which pulls the last configuration block from the cluster
  (\<open>PullLastConfigBlock\<close> of \<open>orderer/common/cluster/replication.go\<close>) and halts the chain when the node
  is not in it. Times and durations are integers; the transport, the ledger and the membership
  predicate are parameters.
\<close>

subsection \<open>The periodic check\<close>

record PeriodicCheck =
  conditionHoldsSince :: "int option"
  stopped :: u32

datatype report = Report int | ReportCleared

definition shouldRun :: "PeriodicCheck \<Rightarrow> bool" where
  "shouldRun pc \<longleftrightarrow> stopped pc = 0"

definition pc_Stop :: "PeriodicCheck \<Rightarrow> PeriodicCheck" where
  "pc_Stop pc = pc\<lparr>stopped := stopped pc + 1\<rparr>"

definition conditionFulfilled :: "int \<Rightarrow> PeriodicCheck \<Rightarrow> report list \<times> PeriodicCheck" where
  "conditionFulfilled now pc =
     (let pc1 = (if conditionHoldsSince pc = None then pc\<lparr>conditionHoldsSince := Some now\<rparr> else pc)
      in ([Report (now - the (conditionHoldsSince pc1))], pc1))"

text \<open>\<open>hasCleared\<close>: a function \<open>ReportCleared\<close> was given.\<close>

definition conditionNotFulfilled :: "bool \<Rightarrow> PeriodicCheck \<Rightarrow> report list \<times> PeriodicCheck" where
  "conditionNotFulfilled hasCleared pc =
     (if hasCleared \<and> conditionHoldsSince pc \<noteq> None then [ReportCleared] else [],
      pc\<lparr>conditionHoldsSince := None\<rparr>)"

text \<open>One call of \<open>check\<close>; the last component says whether the next one is scheduled.\<close>

definition pc_check :: "bool \<Rightarrow> int \<Rightarrow> bool \<Rightarrow> PeriodicCheck \<Rightarrow> report list \<times> PeriodicCheck \<times> bool" where
  "pc_check hasCleared now condition pc =
     (let (rs, pc1) = (if condition then conditionFulfilled now pc else conditionNotFulfilled hasCleared pc)
      in (rs, pc1, shouldRun pc1))"

subsection \<open>Pulling blocks\<close>

record puller =
  HeightsByEndpoints :: "(string, u64) gomap option"
  PullBlock :: "u64 \<Rightarrow> Block option"

text \<open>The block puller that looks into the ledger first.\<close>

definition ledger_PullBlock :: "u64 \<Rightarrow> (u64 \<Rightarrow> Block option) \<Rightarrow> puller \<Rightarrow> u64 \<Rightarrow> Block option" where
  "ledger_PullBlock height retrieve p sq =
     (let lastSeq = height - 1 in if sq \<le> lastSeq then retrieve sq else PullBlock p sq)"

definition latestHeightAndEndpoint :: "puller \<Rightarrow> (string \<times> u64) go" where
  "latestHeightAndEndpoint p =
     bindE (of_option ''HeightsByEndpoints'' (HeightsByEndpoints p)) (\<lambda>hs.
       Inr (fold (\<lambda>(endpoint, height) (mostUpToDate, maxHeight).
              if maxHeight \<le> height then (endpoint, height) else (mostUpToDate, maxHeight)) hs ([], 0)))"

definition lastConfigFromBlock :: "'a block_codec_scheme \<Rightarrow> Block \<Rightarrow> u64 go" where
  "lastConfigFromBlock cd block =
     (case Metadata block of
        None \<Rightarrow> Inl (Err ''no metadata in block'')
      | Some m \<Rightarrow> if length m \<le> 1 then Inl (Err ''no metadata in block'')
                  else GetLastConfigIndexFromBlock cd block)"

definition ErrRetryCountExhausted :: go_err where
  "ErrRetryCountExhausted = Err ''retry attempts exhausted''"

definition PullLastConfigBlock :: "'a block_codec_scheme \<Rightarrow> puller \<Rightarrow> Block go" where
  "PullLastConfigBlock cd p =
     bindE (latestHeightAndEndpoint p) (\<lambda>(endpoint, latestHeight).
     if endpoint = [] then Inl ErrRetryCountExhausted
     else case PullBlock p (latestHeight - 1) of
       None \<Rightarrow> Inl ErrRetryCountExhausted
     | Some lastBlock \<Rightarrow>
         bindE (lastConfigFromBlock cd lastBlock) (\<lambda>n.
           case PullBlock p n of None \<Rightarrow> Inl ErrRetryCountExhausted | Some b \<Rightarrow> Inr b))"

subsection \<open>The eviction suspector\<close>

record evictionSuspector =
  evictionSuspicionThreshold :: int
  halted :: bool
  timesTriggered :: int

text \<open>What the suspector sees of its node at one call, and what it does to it.\<close>

record suspector_env =
  createPuller :: "puller option"
  envHeight :: u64
  amIInChannel :: "Block \<Rightarrow> unit go"
  esWriteBlock :: "Block option \<Rightarrow> unit go"

datatype es_effect = TriggerCatchUp Block | HaltChain | Wrote "Block option"

definition clearSuspicion :: "evictionSuspector \<Rightarrow> evictionSuspector" where
  "clearSuspicion es = es\<lparr>timesTriggered := 0\<rparr>"

text \<open>
  The loop that pulls the blocks up to the eviction block. Its bound is below \<open>2 ^ 64 - 1\<close>: for that
  block number the check against the height returns before, since \<open>Number + 1\<close> wraps around to 0.
\<close>

definition pull_remaining :: "suspector_env \<Rightarrow> puller \<Rightarrow> u64 \<Rightarrow> u64 \<Rightarrow> es_effect list go" where
  "pull_remaining env p nextBlock lastNumber =
     foldE (\<lambda>sq effs.
        let block = PullBlock p (of_nat sq) in
        case esWriteBlock env block of
          Inl e \<Rightarrow> bindE (deref block) (\<lambda>b. bindE (deref (Header b)) (\<lambda>_. Inl (Panic ''Failed writing block'')))
        | Inr _ \<Rightarrow> Inr (effs @ [Wrote block]))
       [unat nextBlock..<Suc (unat lastNumber)] []"

definition confirmSuspicion ::
  "'a block_codec_scheme \<Rightarrow> suspector_env \<Rightarrow> int \<Rightarrow> evictionSuspector
     \<Rightarrow> (es_effect list \<times> evictionSuspector) go" where
  "confirmSuspicion cd env cumulativeSuspicion es =
     (if cumulativeSuspicion < evictionSuspicionThreshold es * (1 + timesTriggered es) \<or> halted es
      then Inr ([], es)
      else let es1 = es\<lparr>timesTriggered := timesTriggered es + 1\<rparr> in
        case createPuller env of
          None \<Rightarrow> Inl (Panic ''Failed creating a block puller'')
        | Some p \<Rightarrow>
           (case PullLastConfigBlock cd p of
              Inl (Err _) \<Rightarrow> Inr ([], es1)
            | Inl e \<Rightarrow> Inl e
            | Inr lastConfigBlock \<Rightarrow>
                bindE (deref (Header lastConfigBlock)) (\<lambda>h.
                if Number h + 1 \<le> envHeight env then Inr ([], es1)
                else case amIInChannel env lastConfigBlock of
                       Inl NilDeref \<Rightarrow> Inl NilDeref
                     | Inl (Panic m) \<Rightarrow> Inl (Panic m)
                     | r \<Rightarrow>
                        if r \<noteq> Inl ErrNotInChannel \<and> r \<noteq> Inl ErrForbidden
                        then Inr ([TriggerCatchUp lastConfigBlock], es1)
                        else bindE (pull_remaining env p (envHeight env) (Number h)) (\<lambda>effs.
                               Inr (HaltChain # effs, es1\<lparr>halted := True\<rparr>)))))"

text \<open>The suspector connected to the periodic check, as \<open>Chain.Start\<close> connects them.\<close>

definition es_report ::
  "'a block_codec_scheme \<Rightarrow> suspector_env \<Rightarrow> report \<Rightarrow> es_effect list \<times> evictionSuspector
     \<Rightarrow> (es_effect list \<times> evictionSuspector) go" where
  "es_report cd env r = (\<lambda>(effs, es).
     case r of
       Report d \<Rightarrow> bindE (confirmSuspicion cd env d es) (\<lambda>(es', x). Inr (effs @ es', x))
     | ReportCleared \<Rightarrow> Inr (effs, clearSuspicion es))"

definition check_step ::
  "'a block_codec_scheme \<Rightarrow> int \<times> bool \<times> suspector_env \<Rightarrow> PeriodicCheck \<times> evictionSuspector
     \<Rightarrow> (PeriodicCheck \<times> evictionSuspector) go" where
  "check_step cd = (\<lambda>(now, condition, env) (pc, es).
     let (rs, pc1, _) = pc_check True now condition pc
     in bindE (foldE (es_report cd env) rs ([], es)) (\<lambda>(_, es1). Inr (pc1, es1)))"

subsection \<open>Eviction takes a full threshold of leaderless checks\<close>

text \<open>
  After the checks \<open>cs\<close>: the condition has held without interruption since \<open>conditionHoldsSince\<close>, and if
  the chain was halted, it was halted at a check \<open>j\<close> before which the condition had held for the
  threshold, with a last configuration block in which the node is not.
\<close>

definition evicted_at ::
  "'a block_codec_scheme \<Rightarrow> int \<Rightarrow> (int \<times> bool \<times> suspector_env) list \<Rightarrow> nat \<Rightarrow> nat \<Rightarrow> bool" where
  "evicted_at cd thr cs i j \<longleftrightarrow>
     i \<le> j \<and> j < length cs \<and> (\<forall>k. i \<le> k \<and> k \<le> j \<longrightarrow> fst (snd (cs ! k))) \<and>
     thr \<le> fst (cs ! j) - fst (cs ! i) \<and>
     (\<exists>p b. createPuller (snd (snd (cs ! j))) = Some p \<and> PullLastConfigBlock cd p = Inr b \<and>
        amIInChannel (snd (snd (cs ! j))) b \<in> {Inl ErrNotInChannel, Inl ErrForbidden})"

definition checks_inv ::
  "'a block_codec_scheme \<Rightarrow> int \<Rightarrow> (int \<times> bool \<times> suspector_env) list \<Rightarrow> PeriodicCheck \<times> evictionSuspector \<Rightarrow> bool"
  where
  "checks_inv cd thr cs = (\<lambda>(pc, es).
     evictionSuspicionThreshold es = thr \<and> 0 \<le> timesTriggered es \<and>
     (\<forall>t. conditionHoldsSince pc = Some t \<longrightarrow>
        (\<exists>i < length cs. fst (cs ! i) = t \<and> (\<forall>k. i \<le> k \<and> k < length cs \<longrightarrow> fst (snd (cs ! k))))) \<and>
     (halted es \<longrightarrow> (\<exists>i j. evicted_at cd thr cs i j)))"

lemma evicted_at_append: "evicted_at cd thr cs i j \<Longrightarrow> evicted_at cd thr (cs @ ds) i j"
  by (auto simp: evicted_at_def nth_append)

lemma confirmSuspicion_cases:
  assumes "confirmSuspicion cd env d es = Inr (effs, es')" "0 \<le> timesTriggered es"
    "0 \<le> evictionSuspicionThreshold es"
  shows "evictionSuspicionThreshold es' = evictionSuspicionThreshold es" "0 \<le> timesTriggered es'"
    "halted es' \<Longrightarrow> halted es \<or>
       (evictionSuspicionThreshold es \<le> d \<and>
        (\<exists>p b. createPuller env = Some p \<and> PullLastConfigBlock cd p = Inr b \<and>
           amIInChannel env b \<in> {Inl ErrNotInChannel, Inl ErrForbidden}))"
proof -
  have t: "evictionSuspicionThreshold es \<le> d"
    if "\<not> d < evictionSuspicionThreshold es * (1 + timesTriggered es)"
    using that mult_nonneg_nonneg [OF assms(3,2)] by (simp add: algebra_simps)
  show "evictionSuspicionThreshold es' = evictionSuspicionThreshold es" "0 \<le> timesTriggered es'"
    "halted es' \<Longrightarrow> halted es \<or>
       (evictionSuspicionThreshold es \<le> d \<and>
        (\<exists>p b. createPuller env = Some p \<and> PullLastConfigBlock cd p = Inr b \<and>
           amIInChannel env b \<in> {Inl ErrNotInChannel, Inl ErrForbidden}))"
    using assms t unfolding confirmSuspicion_def Let_def
    by (auto split: if_splits option.splits sum.splits go_err.splits)
qed

lemma check_step_inv:
  assumes inv: "checks_inv cd thr cs (pc, es)" and thr: "0 \<le> thr"
    and st: "check_step cd c (pc, es) = Inr (pc', es')"
  shows "checks_inv cd thr (cs @ [c]) (pc', es')"
proof -
  obtain now condition env where c: "c = (now, condition, env)" by (cases c)
  note i = inv [unfolded checks_inv_def prod.case]
  have h: "\<exists>i j. evicted_at cd thr (cs @ [c]) i j" if "halted es" using i that evicted_at_append by blast
  show ?thesis
  proof (cases condition)
    case False
    then show ?thesis using st i h unfolding c checks_inv_def
      by (auto simp: check_step_def pc_check_def conditionNotFulfilled_def es_report_def clearSuspicion_def
          split: if_splits)
  next
    case True
    define t where "t = (case conditionHoldsSince pc of None \<Rightarrow> now | Some t \<Rightarrow> t)"
    obtain effs where e: "confirmSuspicion cd env (now - t) es = Inr (effs, es')"
        "conditionHoldsSince pc' = Some t"
      using st True unfolding c t_def
      by (cases "conditionHoldsSince pc")
        (auto simp: check_step_def pc_check_def conditionFulfilled_def es_report_def Let_def)
    obtain k where k: "k < length (cs @ [c])" "fst ((cs @ [c]) ! k) = t"
        "\<And>l. k \<le> l \<Longrightarrow> l < length (cs @ [c]) \<Longrightarrow> fst (snd ((cs @ [c]) ! l))"
    proof (cases "conditionHoldsSince pc")
      case None
      then show ?thesis using True by (intro that [of "length cs"]) (auto simp: t_def c nth_append less_Suc_eq)
    next
      case (Some u)
      then obtain k where "k < length cs" "fst (cs ! k) = u" "\<forall>l. k \<le> l \<and> l < length cs \<longrightarrow> fst (snd (cs ! l))"
        using i by blast
      then show ?thesis using True Some by (intro that [of k]) (auto simp: t_def c nth_append less_Suc_eq)
    qed
    have f: "evictionSuspicionThreshold es' = thr" "0 \<le> timesTriggered es'"
      using confirmSuspicion_cases(1,2) [OF e(1)] i thr by simp_all
    have "\<exists>i j. evicted_at cd thr (cs @ [c]) i j" if "halted es'"
    proof (cases "halted es")
      case True
      then show ?thesis by (rule h)
    next
      case False
      then have ev: "thr \<le> now - t" "\<exists>p b. createPuller env = Some p \<and> PullLastConfigBlock cd p = Inr b \<and>
          amIInChannel env b \<in> {Inl ErrNotInChannel, Inl ErrForbidden}"
        using confirmSuspicion_cases(3) [OF e(1) _ _ that] i thr by auto
      have "evicted_at cd thr (cs @ [c]) k (length cs)"
        unfolding evicted_at_def using k ev by (auto simp: c less_Suc_eq_le)
      then show ?thesis by blast
    qed
    then show ?thesis unfolding checks_inv_def prod.case using f e(2) k by auto
  qed
qed

text \<open>C23. A node halts its chain as evicted only at a periodic check at which its chain had been without
  leader at every check over a span of at least the threshold, and only if the last configuration
  block that the cluster serves says that the node is not in the channel.\<close>

theorem eviction_needs_threshold:
  assumes "0 \<le> thr"
    and "foldE (check_step cd) cs (\<lparr>conditionHoldsSince = None, stopped = 0\<rparr>,
           \<lparr>evictionSuspicionThreshold = thr, halted = False, timesTriggered = 0\<rparr>) = Inr (pc, es)"
    and "halted es"
  shows "\<exists>i j. evicted_at cd thr cs i j"
proof -
  let ?s = "(\<lparr>conditionHoldsSince = None, stopped = 0\<rparr>,
      \<lparr>evictionSuspicionThreshold = thr, halted = False, timesTriggered = 0\<rparr>)"
  have "checks_inv cd thr cs x" if "foldE (check_step cd) cs ?s = Inr x" for x
    using that
  proof (induction cs arbitrary: x rule: rev_induct)
    case Nil
    then show ?case by (auto simp: checks_inv_def)
  next
    case (snoc c cs)
    then obtain y where y: "foldE (check_step cd) cs ?s = Inr y" "check_step cd c y = Inr x"
      by (auto simp: foldE_append)
    show ?case using check_step_inv [OF _ assms(1), of cd cs "fst y" "snd y" c "fst x" "snd x"] snoc.IH [OF y(1)] y(2)
      by simp
  qed
  then show ?thesis using assms(2,3) unfolding checks_inv_def by fastforce
qed

text \<open>A configuration block that the cluster serves, of which the node is no consenter.\<close>

definition ex_cfg_codec :: block_codec where
  "ex_cfg_codec = ex_block_codec\<lparr>unmarshalMetadata := Some, unmarshalLastConfig := (\<lambda>b. Some 3)\<rparr>"

definition ex_cfg_block :: "u64 \<Rightarrow> Block" where
  "ex_cfg_block n = NewBlock n ''h''"

definition ex_env_evicted :: suspector_env where
  "ex_env_evicted =
     \<lparr>createPuller = Some \<lparr>HeightsByEndpoints = Some [(''o1'', 4)], PullBlock = (\<lambda>n. Some (ex_cfg_block n))\<rparr>,
      envHeight = 3, amIInChannel = (\<lambda>b. Inl ErrNotInChannel), esWriteBlock = (\<lambda>b. Inr ())\<rparr>"

theorem eviction_needs_threshold_witness:
  "\<exists>pc es. foldE (check_step ex_cfg_codec) [(10, True, ex_env_evicted), (70, True, ex_env_evicted)]
      (\<lparr>conditionHoldsSince = None, stopped = 0\<rparr>,
       \<lparr>evictionSuspicionThreshold = 60, halted = False, timesTriggered = 0\<rparr>) = Inr (pc, es) \<and> halted es \<and>
     (\<exists>i j. evicted_at ex_cfg_codec 60 [(10, True, ex_env_evicted), (70, True, ex_env_evicted)] i j)"
proof -
  let ?r = "foldE (check_step ex_cfg_codec) [(10, True, ex_env_evicted), (70, True, ex_env_evicted)]
      (\<lparr>conditionHoldsSince = None, stopped = 0\<rparr>,
       \<lparr>evictionSuspicionThreshold = 60, halted = False, timesTriggered = 0\<rparr>)"
  have "case ?r of Inl _ \<Rightarrow> False | Inr (pc, es) \<Rightarrow> halted es" by code_simp
  then obtain pc es where r: "?r = Inr (pc, es)" "halted es" by (auto split: sum.splits)
  show ?thesis using r eviction_needs_threshold [OF _ r] by auto
qed

end
