(* ===== verification/BlockCutter.thy ===== *)
theory BlockCutter
  imports CE_Log Example_Txs
begin

text \<open>
  The receiver of \<open>orderer/common/blockcutter/blockcutter.go\<close>: the operations that take an ordered
  message and return the batches to be wrapped into blocks. \<open>OrderedRaft\<close> and \<open>OrderedRaftForBC\<close> put
  the message into the conflict graph and cut the batch of committed transactions;
  \<open>Ordered\<close> is the size-based cutter of the unmodified orderer, which the fork keeps.

  The orderer configuration is read on every call: it is the argument \<open>cfg\<close>, None when
  \<open>OrdererConfig()\<close> reports that it is not there. Clocks, metrics and log lines are left out.
\<close>

record BatchSize =
  MaxMessageCount :: u32
  AbsoluteMaxBytes :: u32
  PreferredMaxBytes :: u32

record receiver =
  pendingBatch :: "Envelope list"
  pendingBatchSizeBytes :: u32
  TCG :: TxConsensusGraph
  NumCount :: int
  Timecount :: int
  Txcount :: int

type_synonym batches = "Envelope list list"

definition NewReceiverImpl :: receiver where
  "NewReceiverImpl =
     \<lparr>pendingBatch = [], pendingBatchSizeBytes = 0, TCG = empty_graph, NumCount = 0,
      Timecount = 0, Txcount = 0\<rparr>"

definition messageSizeBytes :: "Envelope \<Rightarrow> u32" where
  "messageSizeBytes m = of_nat (length (Payload m) + length (Signature m))"

definition CutTx :: "receiver \<Rightarrow> Envelope list \<times> receiver" where
  "CutTx r = (ReadyBatch (TCG r), r\<lparr>TCG := (TCG r)\<lparr>ReadyBatch := []\<rparr>\<rparr>)"

definition Cut :: "receiver \<Rightarrow> Envelope list \<times> receiver" where
  "Cut r =
     (let (batch, r1) = CutTx r
      in (batch, r1\<lparr>pendingBatch := [], pendingBatchSizeBytes := 0, NumCount := 0,
                    Timecount := Timecount r1 + 1\<rparr>))"

definition config_panic :: go_err where
  "config_panic = Panic ''Could not retrieve orderer config to query batch parameters''"

definition Ordered :: "BatchSize option \<Rightarrow> Envelope \<Rightarrow> receiver \<Rightarrow> (batches \<times> bool \<times> receiver) go" where
  "Ordered cfg msg r =
     (case cfg of
        None \<Rightarrow> Inl config_panic
      | Some batchSize \<Rightarrow>
          let size = messageSizeBytes msg in
          if PreferredMaxBytes batchSize < size then
            (let (bs, r1) = (if pendingBatch r \<noteq> [] then (let (b, r1) = Cut r in ([b], r1)) else ([], r))
             in Inr (bs @ [[msg]], False, r1))
          else
            (let (bs, r1) = (if PreferredMaxBytes batchSize < pendingBatchSizeBytes r + size
                             then (let (b, r1) = Cut r in ([b], r1)) else ([], r));
                 r2 = r1\<lparr>pendingBatch := pendingBatch r1 @ [msg],
                         pendingBatchSizeBytes := pendingBatchSizeBytes r1 + size\<rparr>
             in if MaxMessageCount batchSize \<le> of_nat (length (pendingBatch r2))
                then (let (b, r3) = Cut r2 in Inr (bs @ [b], False, r3))
                else Inr (bs, True, r2)))"

text \<open>Lines 185 to 201 and 695 to 712: cut when the batch of committed transactions is full.\<close>

definition cut_ready :: "BatchSize \<Rightarrow> receiver \<Rightarrow> batches \<times> bool \<times> receiver" where
  "cut_ready batchSize r =
     (if MaxMessageCount batchSize \<le> of_nat (length (ReadyBatch (TCG r)))
      then (let (b, r1) = Cut r in ([b], False, r1))
      else ([], ReadyBatch (TCG r) \<noteq> [], r))"

definition OrderedRaft ::
  "ptx_order \<Rightarrow> BatchSize option \<Rightarrow> GVNode \<Rightarrow> receiver
     \<Rightarrow> (batches \<times> bool \<times> receiver) go" where
  "OrderedRaft rng cfg gvnode r =
     (case cfg of
        None \<Rightarrow> Inl config_panic
      | Some batchSize \<Rightarrow>
          bindE (insert_tx rng gvnode (TCG r)) (\<lambda>g. Inr (cut_ready batchSize (r\<lparr>TCG := g\<rparr>))))"

definition OrderedRaftForBC ::
  "codec \<Rightarrow> ptx_order \<Rightarrow> BatchSize option \<Rightarrow> Envelope
     \<Rightarrow> receiver \<Rightarrow> (batches \<times> bool \<times> receiver) go" where
  "OrderedRaftForBC cd rng cfg msg r =
     bindE (ProcessEnvForBC cd msg) (\<lambda>gv.
     bindE (insert_tx rng gv (TCG r)) (\<lambda>g.
       case cfg of
         None \<Rightarrow> Inl config_panic
       | Some batchSize \<Rightarrow> Inr (cut_ready batchSize (r\<lparr>Txcount := Txcount r + 1, TCG := g\<rparr>))))"

text \<open>
  One iteration of the loop of \<open>ProcessEnvMsg\<close>: the value is what is sent on \<open>CommitC\<close>, where the empty
  list stands for no send. A message without an envelope is the request of the batch timer.
\<close>

definition ProcessEnvMsg ::
  "codec \<Rightarrow> ptx_order \<Rightarrow> BatchSize option \<Rightarrow> Envelope option
     \<Rightarrow> receiver \<Rightarrow> (batches \<times> receiver) go" where
  "ProcessEnvMsg cd rng cfg envmsg r =
     (case envmsg of
        Some env \<Rightarrow> bindE (OrderedRaftForBC cd rng cfg env r) (\<lambda>(bs, _, r1). Inr (bs, r1))
      | None \<Rightarrow> (let (batch, r1) = Cut r in Inr (if batch \<noteq> [] then [batch] else [], r1)))"

subsection \<open>The contract of a batch cutter\<close>

text \<open>
  A component that takes messages and returns batches. \<open>carries m\<close> is what a message brings and
  \<open>arrived\<close> everything that was brought; \<open>held\<close> is what is accepted and not returned yet; \<open>inv s es\<close>
  says that \<open>es\<close> has been accepted so far. A step with a valid message returns, and what it
  accepts is returned or held, in order.
\<close>

locale batch_cutter =
  fixes step :: "'m \<Rightarrow> 's \<Rightarrow> ('e list list \<times> 's) go"
    and held :: "'s \<Rightarrow> 'e list"
    and valid :: "'m \<Rightarrow> bool"
    and carries :: "'m \<Rightarrow> 'a list"
    and arrived :: "'s \<Rightarrow> 'a list"
    and inv :: "'e list \<Rightarrow> 's \<Rightarrow> bool"
  assumes step_ok:
    "inv es s \<Longrightarrow> valid m \<Longrightarrow>
       \<exists>bs s' new. step m s = Inr (bs, s') \<and> concat bs @ held s' = held s @ new \<and>
         arrived s' = arrived s @ carries m \<and> inv (es @ new) s'"
begin

lemma run_ok:
  assumes "inv es s" and "list_all valid ms"
  shows "\<exists>bs s' new. run_steps step ms s = Inr (bs, s') \<and> concat bs @ held s' = held s @ new \<and>
    arrived s' = arrived s @ concat (map carries ms) \<and> inv (es @ new) s'"
  using assms
proof (induction ms arbitrary: es s)
  case Nil
  then show ?case by (auto intro: exI [of _ "[]"])
next
  case (Cons m ms)
  obtain bs s1 new where 1: "step m s = Inr (bs, s1)" "concat bs @ held s1 = held s @ new"
      "arrived s1 = arrived s @ carries m" "inv (es @ new) s1"
    using step_ok [OF Cons.prems(1), of m] Cons.prems(2) by auto
  obtain bs' s2 new' where 2: "run_steps step ms s1 = Inr (bs', s2)" "concat bs' @ held s2 = held s1 @ new'"
      "arrived s2 = arrived s1 @ concat (map carries ms)" "inv ((es @ new) @ new') s2"
    using Cons.IH [OF 1(4)] Cons.prems(2) by auto
  have "concat (bs @ bs') @ held s2 = held s @ (new @ new')"
    using 1(2) 2(2) by (metis append.assoc concat_append)
  moreover have "inv (es @ (new @ new')) s2" using 2(4) by simp
  moreover have "arrived s2 = arrived s @ concat (map carries (m # ms))" using 1(3) 2(3) by simp
  ultimately show ?case using 1(1) 2(1) by auto
qed

lemma run_from_start:
  assumes "inv [] s" "held s = []" "arrived s = []" "list_all valid ms"
  shows "\<exists>bs s'. run_steps step ms s = Inr (bs, s') \<and>
    arrived s' = concat (map carries ms) \<and> inv (concat bs @ held s') s'"
  using run_ok [OF assms(1,4)] assms(2,3) by force

end

subsection \<open>The receiver keeps the contract\<close>

definition replay_log ::
  "(Envelope \<times> (string, GVWriteKV) gomap) list \<Rightarrow> (string \<rightharpoonup> string) \<Rightarrow> (string \<rightharpoonup> string)" where
  "replay_log l m = fold (\<lambda>(_, ws). write_state ws) l m"

definition arrivals :: "receiver \<Rightarrow> (Envelope \<times> (string, GVWriteKV) gomap) list" where
  "arrivals r = map payload (nodes (TCG r))"

definition receiver_inv :: "Envelope list \<Rightarrow> receiver \<Rightarrow> bool" where
  "receiver_inv es r \<longleftrightarrow>
     wf_graph (TCG r) \<and> (\<exists>ls. logged ls (TCG r) \<and> es = map TxResult (txs (TCG r) ls))"

lemma receiver_inv_log:
  assumes "receiver_inv es r"
  shows "\<exists>ls. distinct ls \<and> set ls \<subseteq> {..<length (arrivals r)} \<and>
    es = map (\<lambda>i. fst (arrivals r ! i)) ls \<and>
    GState (TCG r) = replay_log (map (\<lambda>i. arrivals r ! i) ls) Map.empty \<and>
    NumGCommittedNode (TCG r) = int (length ls)"
proof -
  obtain ls where ls: "logged ls (TCG r)" "es = map TxResult (txs (TCG r) ls)"
    using assms by (auto simp: receiver_inv_def)
  have b: "set ls \<subseteq> {..<length (arrivals r)}"
    using ls(1) by (auto simp: logged_def arrivals_def)
  have "replay (txs (TCG r) ls) m = replay_log (map (\<lambda>i. arrivals r ! i) ls) m" for m
    using b by (induction ls arbitrary: m) (simp_all add: replay_log_def arrivals_def payload_def)
  moreover have "es = map (\<lambda>i. fst (arrivals r ! i)) ls"
    using ls(2) b by (auto simp: arrivals_def payload_def)
  ultimately show ?thesis using ls(1) b by (auto simp: logged_def)
qed

lemma receiver_inv_frame:
  assumes "receiver_inv es r" "TCG r' = (TCG r)\<lparr>ReadyBatch := b\<rparr>"
  shows "receiver_inv es r'" and "arrivals r' = arrivals r"
  using assms
  by (auto simp: receiver_inv_def arrivals_def logged_def wf_graph_def wf_slices_def wf_refs_def waits_ok_def)

lemma insert_tx_ok:
  assumes "receiver_inv es r" "ConsensusState gv \<noteq> 2"
  shows "\<exists>g new. insert_tx rng gv (TCG r) = Inr g \<and> ReadyBatch g = ReadyBatch (TCG r) @ new \<and>
    map payload (nodes g) = arrivals r @ [(TxResult gv, WriteSet gv)] \<and>
    (\<forall>r'. TCG r' = g \<longrightarrow> receiver_inv (es @ new) r')"
proof -
  let ?g = "TCG r" let ?a = "length (nodes ?g)" let ?n = "new_txcn gv ?g"
  obtain ls where wf: "wf_graph ?g" and ls: "logged ls ?g" "es = map TxResult (txs ?g ls)"
    using assms(1) by (auto simp: receiver_inv_def)
  have b: "set ls \<subseteq> {..<?a}" using ls(1) by (auto simp: logged_def)
  have t: "txs ?n ls = txs ?g ls" using b by (auto simp: new_txcn_def nth_append)
  have l: "logged ls ?n" using ls(1) b unfolding logged_def t
    by (auto simp: new_txcn_def nth_append subset_iff)
  obtain g where g: "insert_tx rng gv ?g = Inr g" "wf_graph g"
    using ProcessTX_ok [OF new_txcn_fresh [OF wf]] assms(2)
    unfolding insert_tx_def by (auto simp: new_txcn_def nth_append)
  obtain cs where cs: "logged (ls @ cs) g" "ReadyBatch g = ReadyBatch ?n @ map TxResult (txs g cs)"
      "length (nodes g) = length (nodes ?n)"
      "\<forall>p < length (nodes ?n). content (node g p) = content (node ?n p)"
    using ProcessTX_logs [OF new_txcn_fresh [OF wf] l] g(1) b unfolding insert_tx_def by blast
  have "payload (node g p) = payload (node ?n p)" if "p < length (nodes ?n)" for p
    using cs(4) that content_eq(3) by blast
  then have arr: "map payload (nodes g) = map payload (nodes ?n)"
    using cs(3) by (intro nth_equalityI) simp_all
  have "TxResult (ChoosedNode (node g c)) = TxResult (ChoosedNode (node ?g c))" if "c \<in> set ls" for c
  proof -
    have c: "c < length (nodes ?g)" using b that by blast
    then have "c < length (nodes ?n)" by (simp add: new_txcn_def)
    then have "TxResult (ChoosedNode (node g c)) = TxResult (ChoosedNode (node ?n c))"
      using cs(4) content_eq(1) by blast
    then show ?thesis using c by (simp add: new_txcn_def nth_append)
  qed
  then have "map TxResult (txs g ls) = es" using ls(2) by simp
  then have "receiver_inv (es @ map TxResult (txs g cs)) r'" if "TCG r' = g" for r'
    using cs(1) g(2) that by (auto simp: receiver_inv_def intro!: exI [of _ "ls @ cs"])
  then show ?thesis
    using g(1) cs(2) arr by (auto simp: arrivals_def new_txcn_def payload_def)
qed

lemma cut_ready_ok:
  assumes "receiver_inv es r"
  shows "\<exists>bs p r'. cut_ready bsz r = (bs, p, r') \<and> concat bs @ ReadyBatch (TCG r') = ReadyBatch (TCG r)
    \<and> arrivals r' = arrivals r \<and> receiver_inv es r'"
proof (cases "MaxMessageCount bsz \<le> of_nat (length (ReadyBatch (TCG r)))")
  case True
  then show ?thesis
    using receiver_inv_frame [OF assms, of "snd (Cut r)" "[]"]
    by (auto simp: cut_ready_def Cut_def CutTx_def)
next
  case False
  then show ?thesis using assms by (simp add: cut_ready_def)
qed

text \<open>The two message types: a chosen node, and an envelope or a timer request, with the configuration.\<close>

definition raft_step ::
  "ptx_order \<Rightarrow> BatchSize option \<times> GVNode \<Rightarrow> receiver
     \<Rightarrow> (batches \<times> receiver) go" where
  "raft_step rng m r = bindE (OrderedRaft rng (fst m) (snd m) r) (\<lambda>(bs, _, r1). Inr (bs, r1))"

definition env_step ::
  "codec \<Rightarrow> ptx_order \<Rightarrow> BatchSize option \<times> Envelope option
     \<Rightarrow> receiver \<Rightarrow> (batches \<times> receiver) go" where
  "env_step cd rng m r = ProcessEnvMsg cd rng (fst m) (snd m) r"

definition raft_valid :: "BatchSize option \<times> GVNode \<Rightarrow> bool" where
  "raft_valid m \<longleftrightarrow> fst m \<noteq> None \<and> ConsensusState (snd m) \<noteq> 2"

definition raft_carries :: "BatchSize option \<times> GVNode \<Rightarrow> (Envelope \<times> (string, GVWriteKV) gomap) list" where
  "raft_carries m = [(TxResult (snd m), WriteSet (snd m))]"

definition env_valid :: "codec \<Rightarrow> BatchSize option \<times> Envelope option \<Rightarrow> bool" where
  "env_valid cd m =
     (case m of
        (cfg, None) \<Rightarrow> True
      | (cfg, Some env) \<Rightarrow> cfg \<noteq> None \<and> (case ProcessEnvForBC cd env of Inl _ \<Rightarrow> False | Inr _ \<Rightarrow> True))"

definition env_carries ::
  "codec \<Rightarrow> BatchSize option \<times> Envelope option \<Rightarrow> (Envelope \<times> (string, GVWriteKV) gomap) list" where
  "env_carries cd m =
     (case snd m of
        None \<Rightarrow> []
      | Some env \<Rightarrow> (case ProcessEnvForBC cd env of Inl _ \<Rightarrow> [] | Inr gv \<Rightarrow> [(env, WriteSet gv)]))"

lemma add_fields [simp]:
  "TxResult (add_read k n) = TxResult n" "TxResult (add_write w n) = TxResult n"
  "TxId (add_read k n) = TxId n" "TxId (add_write w n) = TxId n"
  "UNPTx (add_read k n) = UNPTx n" "UNPTx (add_write w n) = UNPTx n"
  "ConsensusState (add_read k n) = ConsensusState n" "ConsensusState (add_write w n) = ConsensusState n"
  by (simp_all add: add_read_def add_write_def Let_def)

lemma fold_add_fields [simp]:
  "TxResult (fold add_read ks n) = TxResult n" "TxResult (fold add_write ws n) = TxResult n"
  "TxId (fold add_read ks n) = TxId n" "TxId (fold add_write ws n) = TxId n"
  "UNPTx (fold add_read ks n) = UNPTx n" "UNPTx (fold add_write ws n) = UNPTx n"
  "ConsensusState (fold add_read ks n) = ConsensusState n"
  "ConsensusState (fold add_write ws n) = ConsensusState n"
  by (induction ks arbitrary: n, simp_all) (induction ws arbitrary: n, simp_all)+

lemma fold_add_ns_fields [simp]:
  "TxResult (fold add_ns nss n) = TxResult n" "TxId (fold add_ns nss n) = TxId n"
  "UNPTx (fold add_ns nss n) = UNPTx n" "ConsensusState (fold add_ns nss n) = ConsensusState n"
  by (induction nss arbitrary: n) (simp_all add: add_ns_def)

lemma ProcessEnvForBC_fields:
  assumes "ProcessEnvForBC cd env = Inr gv"
  shows "TxResult gv = env" "UNPTx gv = []" "ConsensusState gv = 0"
  using assms by (auto simp: ProcessEnvForBC_def new_gnode_def Let_def split: sum.splits)

lemma OrderedRaft_ok:
  assumes "receiver_inv es r" "cfg \<noteq> None" "ConsensusState gv \<noteq> 2"
  shows "\<exists>bs p r' new. OrderedRaft rng cfg gv r = Inr (bs, p, r') \<and>
    concat bs @ ReadyBatch (TCG r') = ReadyBatch (TCG r) @ new \<and>
    arrivals r' = arrivals r @ [(TxResult gv, WriteSet gv)] \<and> receiver_inv (es @ new) r'"
proof -
  obtain bsz where cfg: "cfg = Some bsz" using assms(2) by blast
  obtain g new where g: "insert_tx rng gv (TCG r) = Inr g" "ReadyBatch g = ReadyBatch (TCG r) @ new"
      "map payload (nodes g) = arrivals r @ [(TxResult gv, WriteSet gv)]"
      "\<And>r'. TCG r' = g \<Longrightarrow> receiver_inv (es @ new) r'"
    using insert_tx_ok [OF assms(1,3)] by blast
  have "receiver_inv (es @ new) (r\<lparr>TCG := g\<rparr>)" using g(4) by simp
  from cut_ready_ok [OF this, of bsz] g cfg show ?thesis
    by (auto simp: OrderedRaft_def arrivals_def)
qed

lemma OrderedRaftForBC_eq:
  assumes "ProcessEnvForBC cd env = Inr gv" "cfg \<noteq> None"
  shows "OrderedRaftForBC cd rng cfg env r = OrderedRaft rng cfg gv (r\<lparr>Txcount := Txcount r + 1\<rparr>)"
  using assms by (auto simp: OrderedRaftForBC_def OrderedRaft_def)

interpretation raft: batch_cutter "raft_step rng" "\<lambda>r. ReadyBatch (TCG r)" raft_valid
  raft_carries arrivals receiver_inv
proof
  fix es r and m :: "BatchSize option \<times> GVNode" assume "receiver_inv es r" "raft_valid m"
  from OrderedRaft_ok [OF this(1), of "fst m" "snd m" rng] this(2)
  show "\<exists>bs r' new. raft_step rng m r = Inr (bs, r') \<and>
      concat bs @ ReadyBatch (TCG r') = ReadyBatch (TCG r) @ new \<and>
      arrivals r' = arrivals r @ raft_carries m \<and> receiver_inv (es @ new) r'"
    by (auto simp: raft_step_def raft_carries_def raft_valid_def)
qed

interpretation bc: batch_cutter "env_step cd rng" "\<lambda>r. ReadyBatch (TCG r)" "env_valid cd"
  "env_carries cd" arrivals receiver_inv
proof
  fix es r m assume inv: "receiver_inv es r" and v: "env_valid cd m"
  obtain cfg msg where m: "m = (cfg, msg)" by force
  show "\<exists>bs r' new. env_step cd rng m r = Inr (bs, r') \<and>
      concat bs @ ReadyBatch (TCG r') = ReadyBatch (TCG r) @ new \<and>
      arrivals r' = arrivals r @ env_carries cd m \<and> receiver_inv (es @ new) r'"
  proof (cases msg)
    case None
    then show ?thesis
      using receiver_inv_frame [OF inv, of "snd (Cut r)" "[]"]
      by (simp add: env_step_def env_carries_def ProcessEnvMsg_def Cut_def CutTx_def m)
  next
    case (Some env)
    obtain gv where gv: "ProcessEnvForBC cd env = Inr gv" "cfg \<noteq> None"
      using v by (auto simp: env_valid_def m Some split: sum.splits)
    have "receiver_inv es (r\<lparr>Txcount := Txcount r + 1\<rparr>)" "arrivals (r\<lparr>Txcount := Txcount r + 1\<rparr>) = arrivals r"
      using inv by (simp_all add: receiver_inv_def arrivals_def)
    with OrderedRaft_ok [OF this(1) gv(2), of gv rng] show ?thesis
      using ProcessEnvForBC_fields [OF gv(1)]
      by (auto simp: env_step_def env_carries_def ProcessEnvMsg_def m Some gv OrderedRaftForBC_eq [OF gv])
  qed
qed

lemma NewReceiverImpl_inv:
  "receiver_inv [] NewReceiverImpl" "arrivals NewReceiverImpl = []" "ReadyBatch (TCG NewReceiverImpl) = []"
  by (auto simp: receiver_inv_def NewReceiverImpl_def empty_graph_def wf_graph_def wf_slices_def
      wf_refs_def waits_ok_def logged_def arrivals_def intro!: exI [of _ "[]"])

text \<open>Inputs for the instances below: limits, and the example transactions arriving in some order.\<close>

definition ex_size :: "nat \<Rightarrow> BatchSize" where
  "ex_size n = \<lparr>MaxMessageCount = of_nat n, AbsoluteMaxBytes = 100, PreferredMaxBytes = 10\<rparr>"

definition ex_msgs :: "nat \<Rightarrow> string list \<Rightarrow> (BatchSize option \<times> Envelope option) list" where
  "ex_msgs n ts = map (\<lambda>t. (Some (ex_size n), Some (ex_env t))) ts"

definition batches_of :: "(batches \<times> receiver) go \<Rightarrow> batches option" where
  "batches_of x = (case x of Inl _ \<Rightarrow> None | Inr (bs, _) \<Rightarrow> Some bs)"

definition log_of :: "(batches \<times> receiver) go \<Rightarrow> Envelope list option" where
  "log_of x = (case x of Inl _ \<Rightarrow> None | Inr (bs, r) \<Rightarrow> Some (concat bs @ ReadyBatch (TCG r)))"

definition err_of :: "(batches \<times> receiver) go \<Rightarrow> go_err option" where
  "err_of x = (case x of Inl e \<Rightarrow> Some e | Inr _ \<Rightarrow> None)"

definition ex_rkv_node :: GVNode where
  "ex_rkv_node = (ex_node ''Q'' [(''P'', ''y'', ''5'')] [])\<lparr>ConsensusState := 2\<rparr>"

definition ex_rkv_graph :: TxConsensusGraph where
  "ex_rkv_graph =
     (case insert_tx id (ex_node ''P'' [] [(''x'', ''1'')]) empty_graph of
        Inl _ \<Rightarrow> empty_graph
      | Inr g \<Rightarrow> admit 1 ''Q'' (new_txcn ex_rkv_node g))"

subsection \<open>Properties of the receiver\<close>

text \<open>C2. Whatever envelopes arrive, and however the batch timer falls between them, \<open>ProcessEnvMsg\<close> never
  panics as long as the envelopes decode and the configuration is there. The batches it sends,
  followed by what is still in \<open>ReadyBatch\<close>, are a selection of the envelopes that arrived, none of
  them twice, and \<open>GState\<close> is what one gets by replaying the writes of that selection in that order.\<close>

theorem env_run_log:
  assumes "list_all (env_valid cd) msgs"
  shows "\<exists>bs r ls.
    run_steps (env_step cd rng) msgs NewReceiverImpl = Inr (bs, r) \<and>
    distinct ls \<and> set ls \<subseteq> {..<length (concat (map (env_carries cd) msgs))} \<and>
    concat bs @ ReadyBatch (TCG r) = map (\<lambda>i. fst (concat (map (env_carries cd) msgs) ! i)) ls \<and>
    GState (TCG r) = replay_log (map (\<lambda>i. concat (map (env_carries cd) msgs) ! i) ls) Map.empty \<and>
    NumGCommittedNode (TCG r) = int (length ls)"
proof -
  obtain bs r where r: "run_steps (env_step cd rng) msgs NewReceiverImpl = Inr (bs, r)"
      "arrivals r = concat (map (env_carries cd) msgs)" "receiver_inv (concat bs @ ReadyBatch (TCG r)) r"
    using bc.run_from_start [OF NewReceiverImpl_inv(1,3,2) assms] by blast
  from receiver_inv_log [OF r(3)] r(1) show ?thesis unfolding r(2) by blast
qed

theorem env_run_log_witness:
  "list_all (env_valid ex_codec) (ex_msgs 2 [''C'', ''B'', ''A'']) \<and>
   (\<exists>bs r ls.
      run_steps (env_step ex_codec id) (ex_msgs 2 [''C'', ''B'', ''A'']) NewReceiverImpl = Inr (bs, r) \<and>
      distinct ls \<and> set ls \<subseteq> {..<3::nat} \<and> length (concat bs @ ReadyBatch (TCG r)) = length ls)"
proof -
  have v: "list_all (env_valid ex_codec) (ex_msgs 2 [''C'', ''B'', ''A''])" by code_simp
  have n: "length (concat (map (env_carries ex_codec) (ex_msgs 2 [''C'', ''B'', ''A'']))) = 3" by code_simp
  obtain bs r ls where x:
      "run_steps (env_step ex_codec id) (ex_msgs 2 [''C'', ''B'', ''A'']) NewReceiverImpl = Inr (bs, r)"
      "distinct ls" "set ls \<subseteq> {..<3}"
      "concat bs @ ReadyBatch (TCG r)
         = map (\<lambda>i. fst (concat (map (env_carries ex_codec) (ex_msgs 2 [''C'', ''B'', ''A''])) ! i)) ls"
    using env_run_log [OF v, of id] unfolding n by blast
  have "length (concat bs @ ReadyBatch (TCG r)) = length ls" unfolding x(4) by (rule length_map)
  with v x(1,2,3) show ?thesis by blast
qed



text \<open>Reading a result of \<open>Ordered\<close>.\<close>

lemma Cut_simps:
  "fst (Cut r) = ReadyBatch (TCG r)"
  "pendingBatch (snd (Cut r)) = []" "pendingBatchSizeBytes (snd (Cut r)) = 0"
  "ReadyBatch (TCG (snd (Cut r))) = []"
  by (simp_all add: Cut_def CutTx_def)

lemmas Ordered_cases = Ordered_def Let_def case_prod_beta Cut_simps

definition size_ok :: "receiver \<Rightarrow> bool" where
  "size_ok r \<longleftrightarrow> pendingBatchSizeBytes r = sum_list (map messageSizeBytes (pendingBatch r))"

text \<open>C10. \<open>Ordered\<close> keeps \<open>pendingBatchSizeBytes\<close> equal to the sum of the sizes of the pending messages,
  in 32-bit arithmetic, on every branch.\<close>

theorem Ordered_size:
  assumes "size_ok r" "Ordered cfg msg r = Inr (bs, pending, r')"
  shows "size_ok r'"
  using assms by (auto simp: size_ok_def Ordered_cases split: option.splits if_splits)

theorem Ordered_size_witness:
  "size_ok NewReceiverImpl \<and>
   (\<exists>bs p r. Ordered (Some (ex_size 3)) (ex_env ''A'') NewReceiverImpl = Inr (bs, p, r) \<and> size_ok r \<and>
      pendingBatchSizeBytes r = 1)"
proof -
  have i: "size_ok NewReceiverImpl" by (simp add: size_ok_def NewReceiverImpl_def)
  have "(case Ordered (Some (ex_size 3)) (ex_env ''A'') NewReceiverImpl of
      Inl _ \<Rightarrow> False | Inr (bs, p, r) \<Rightarrow> pendingBatchSizeBytes r = 1)" by code_simp
  then obtain bs p r where r: "Ordered (Some (ex_size 3)) (ex_env ''A'') NewReceiverImpl = Inr (bs, p, r)"
      "pendingBatchSizeBytes r = 1"
    by (auto split: sum.splits)
  show ?thesis using i r Ordered_size [OF i r(1)] by blast
qed

text \<open>C11. While the limit is below half of the 32-bit range, the pending bytes stay within the limit, and
  the sum that \<open>Ordered\<close> compares with it for a message of admissible size does not wrap around.\<close>

theorem Ordered_no_wrap:
  assumes "unat (PreferredMaxBytes bsz) < 2 ^ 31"
    and "unat (pendingBatchSizeBytes r) \<le> unat (PreferredMaxBytes bsz)"
    and "Ordered (Some bsz) msg r = Inr (bs, pending, r')"
  shows "unat (pendingBatchSizeBytes r') \<le> unat (PreferredMaxBytes bsz) \<and>
    (messageSizeBytes msg \<le> PreferredMaxBytes bsz \<longrightarrow>
      unat (pendingBatchSizeBytes r + messageSizeBytes msg)
        = unat (pendingBatchSizeBytes r) + unat (messageSizeBytes msg))"
proof (intro conjI impI)
  show "unat (pendingBatchSizeBytes r') \<le> unat (PreferredMaxBytes bsz)"
    using assms by (auto simp: Ordered_cases word_less_nat_alt not_less split: if_splits)
  assume "messageSizeBytes msg \<le> PreferredMaxBytes bsz"
  then have "unat (messageSizeBytes msg) < 2 ^ 31" "unat (pendingBatchSizeBytes r) < 2 ^ 31"
    using assms(1,2) by (auto simp: word_le_nat_alt)
  then show "unat (pendingBatchSizeBytes r + messageSizeBytes msg)
        = unat (pendingBatchSizeBytes r) + unat (messageSizeBytes msg)"
    by (intro unat_add_lem [THEN iffD1]) simp
qed

theorem Ordered_no_wrap_witness:
  "\<exists>bs p r. Ordered (Some (ex_size 3)) (ex_env ''A'') NewReceiverImpl = Inr (bs, p, r) \<and>
     unat (pendingBatchSizeBytes r) \<le> 10"
proof -
  have "(case Ordered (Some (ex_size 3)) (ex_env ''A'') NewReceiverImpl of
      Inl _ \<Rightarrow> False | Inr _ \<Rightarrow> True)" by code_simp
  then obtain bs p r where r: "Ordered (Some (ex_size 3)) (ex_env ''A'') NewReceiverImpl = Inr (bs, p, r)"
    by (auto split: sum.splits)
  have l: "unat (PreferredMaxBytes (ex_size 3)) = 10" by (simp add: ex_size_def)
  have "unat (pendingBatchSizeBytes r) \<le> unat (PreferredMaxBytes (ex_size 3))"
    using Ordered_no_wrap [OF _ _ r] by (simp add: l NewReceiverImpl_def)
  then show ?thesis using r l by auto
qed

text \<open>\<open>Ordered\<close> as a step of a component, and what it leaves of the graph.\<close>

definition ordered_step ::
  "BatchSize option \<times> Envelope \<Rightarrow> receiver \<Rightarrow> (batches \<times> receiver) go" where
  "ordered_step m r = bindE (Ordered (fst m) (snd m) r) (\<lambda>(bs, _, r1). Inr (bs, r1))"

definition fits :: "BatchSize option \<times> Envelope \<Rightarrow> bool" where
  "fits m = (case fst m of None \<Rightarrow> False | Some bsz \<Rightarrow> messageSizeBytes (snd m) \<le> PreferredMaxBytes bsz)"

lemma ordered_step_empty:
  assumes "ReadyBatch (TCG r) = []" "fits m"
  shows "\<exists>bs r'. ordered_step m r = Inr (bs, r') \<and> list_all (\<lambda>b. b = []) bs \<and> ReadyBatch (TCG r') = []"
  using assms
  by (auto simp: ordered_step_def fits_def Ordered_cases not_less [symmetric] split: option.splits)

text \<open>C13. \<open>Ordered\<close> cuts with \<open>Cut\<close>, which returns the batch of the conflict graph and forgets
  \<open>pendingBatch\<close>. So on a receiver that is used through \<open>Ordered\<close> alone, no message of admissible size
  is ever returned: every batch is empty, whatever the sequence of messages and limits.\<close>

theorem Ordered_loses_messages:
  assumes "list_all fits msgs"
  shows "\<exists>bs r. run_steps ordered_step msgs NewReceiverImpl = Inr (bs, r) \<and> list_all (\<lambda>b. b = []) bs"
proof -
  have "\<exists>bs r'. run_steps ordered_step msgs r = Inr (bs, r') \<and> list_all (\<lambda>b. b = []) bs"
    if "ReadyBatch (TCG r) = []" for r
    using assms that
  proof (induction msgs arbitrary: r)
    case (Cons m msgs)
    then obtain bs r1 where "ordered_step m r = Inr (bs, r1)" "list_all (\<lambda>b. b = []) bs"
        "ReadyBatch (TCG r1) = []"
      using ordered_step_empty [of r m] by auto
    then show ?case using Cons.IH [of r1] Cons.prems(1) by auto
  qed simp
  then show ?thesis using NewReceiverImpl_inv(3) by blast
qed

theorem Ordered_loses_messages_witness:
  "list_all fits [(Some (ex_size 1), ex_env ''A''), (Some (ex_size 1), ex_env ''B'')] \<and>
   (\<exists>bs r. run_steps ordered_step [(Some (ex_size 1), ex_env ''A''), (Some (ex_size 1), ex_env ''B'')]
      NewReceiverImpl = Inr (bs, r) \<and> list_all (\<lambda>b. b = []) bs \<and> length bs = 2)"
proof -
  let ?m = "[(Some (ex_size 1), ex_env ''A''), (Some (ex_size 1), ex_env ''B'')]"
  have f: "list_all fits ?m" by code_simp
  have "batches_of (run_steps ordered_step ?m NewReceiverImpl) = Some [[], []]" by code_simp
  then show ?thesis using f Ordered_loses_messages [OF f] by (auto simp: batches_of_def)
qed

text \<open>C12. The result of \<open>OrderedRaft\<close>: either no batch, the committed transactions stay below the limit,
  and \<open>pending\<close> says whether there are any; or one batch of at least \<open>MaxMessageCount\<close> messages, and
  nothing is left.\<close>

theorem OrderedRaft_result:
  assumes "OrderedRaft rng (Some bsz) gv r = Inr (bs, pending, r')"
    and "length (concat bs) + length (ReadyBatch (TCG r')) < 2 ^ 32"
  shows "bs = [] \<and> length (ReadyBatch (TCG r')) < unat (MaxMessageCount bsz) \<and>
           pending = (ReadyBatch (TCG r') \<noteq> [])
       \<or> (\<exists>b. bs = [b] \<and> unat (MaxMessageCount bsz) \<le> length b \<and> \<not> pending \<and> ReadyBatch (TCG r') = [])"
proof -
  obtain g where g: "cut_ready bsz (r\<lparr>TCG := g\<rparr>) = (bs, pending, r')"
    using assms(1) by (auto simp: OrderedRaft_def)
  have "concat bs @ ReadyBatch (TCG r') = ReadyBatch g"
    using g by (auto simp: cut_ready_def Cut_def CutTx_def Let_def split: if_splits)
  then have l: "length (ReadyBatch g) < 2 ^ 32" using assms(2) by (metis length_append)
  then have "unat (of_nat (length (ReadyBatch g)) :: u32) = length (ReadyBatch g)"
    by (simp add: unat_of_nat take_bit_nat_eq_self)
  then show ?thesis
    using g by (auto simp: cut_ready_def Cut_def CutTx_def word_le_nat_alt split: if_splits)
qed

theorem OrderedRaft_result_witness:
  "\<exists>bs p r. OrderedRaft id (Some (ex_size 1)) (ex_node ''T'' [] [(''x'', ''2'')]) NewReceiverImpl
     = Inr (bs, p, r) \<and> (\<exists>b. bs = [b] \<and> 1 \<le> length b \<and> \<not> p \<and> ReadyBatch (TCG r) = [])"
proof -
  let ?x = "OrderedRaft id (Some (ex_size 1)) (ex_node ''T'' [] [(''x'', ''2'')]) NewReceiverImpl"
  have e: "(case ?x of Inl _ \<Rightarrow> False | Inr (bs, p, r) \<Rightarrow>
      bs \<noteq> [] \<and> length (concat bs) + length (ReadyBatch (TCG r)) = 1)" by code_simp
  then obtain bs p r where x: "?x = Inr (bs, p, r)" "bs \<noteq> []"
      "length (concat bs) + length (ReadyBatch (TCG r)) = 1"
    by (auto split: sum.splits)
  have l: "length (concat bs) + length (ReadyBatch (TCG r)) < 2 ^ 32" unfolding x(3) by simp
  have "unat (MaxMessageCount (ex_size 1)) = 1" by (simp add: ex_size_def)
  with OrderedRaft_result [OF x(1) l] x(1,2) show ?thesis by auto
qed







end
