(* ===== verification/RaftChain.thy ===== *)
theory RaftChain
  imports RaftMembership BlockCutter
begin

text \<open>
  The Raft chain of the orderer, \<open>orderer/consensus/etcdraft/chain.go\<close>: the event loop
  \<open>serveRequest\<close> with its handlers, the application of committed Raft entries to the ledger, and the
  proposal of blocks, together with the goroutine of the block cutter that it talks to over
  channels. Each handler is a function on the state of the node; a channel is the list of what is in
  it. Raft itself, the validation of messages and the decoding of messages are parameters: the
  record \<open>chain_env\<close>. Metrics and log lines are left out; what the chain asks other parts of the
  process to do is recorded in \<open>effects\<close>.
\<close>

subsection \<open>State\<close>

datatype StateType = StateFollower | StateCandidate | StateLeader | StatePreCandidate

record SoftState =
  Lead :: u64
  RaftState :: StateType

datatype EntryType = EntryNormal | EntryConfChange

record Entry =
  eType :: EntryType
  eIndex :: u64
  eData :: bytes

record Snapshot =
  snapIndex :: u64
  snapConfState :: "u64 list"
  snapData :: bytes

record SubmitRequest =
  LastValidationSeq :: u64
  reqPayload :: Envelope

record RemoteNode =
  rnID :: u64
  rnHost :: string
  rnPort :: u32
  rnServerCert :: bytes
  rnClientCert :: bytes

datatype ledger_write =
    WriteBlock Block "BlockMetadata option"
  | WriteConfigBlock Block "BlockMetadata option"

datatype effect =
    ProposeConfChange ConfChangeMsg
  | ConfigureComm "RemoteNode list"
  | AbdicateLeader u64
  | HaltNode
  | TakeSnapshot u64 "u64 list" bytes

record Chain =
  raftID :: u64
  lastKnownLeader :: u64
  confChangeInProgress :: "ConfChangeMsg option"
  justElected :: bool
  configInflight :: bool
  blockInflight :: int
  lastBlock :: Block
  appliedIndex :: u64
  sizeLimit :: u32
  accDataSize :: u32
  lastSnapBlockNum :: u64
  confState :: "u64 list"
  errorClosed :: bool
  OTXCount :: int
  optMaxInflightBlocks :: int
  optBlockMetadata :: BlockMetadata
  optConsenters :: "(u64, Consenter) gomap"
  raftNodes :: "u64 list"
  ledger :: "ledger_write list"
  effects :: "effect list"

text \<open>
  Raft's own configuration is \<open>raftNodes\<close>; \<open>applyConfChange\<close> is what Raft does with a change, and
  \<open>ConfChange{}\<close> asks for the configuration. \<open>PullBlock\<close> is the block puller of a catch-up.
\<close>

record chain_env = raft_codec +
  unmarshalConfChange :: "bytes \<Rightarrow> ConfChangeMsg option"
  applyConfChange :: "ConfChangeMsg \<Rightarrow> u64 list \<Rightarrow> u64 list"
  Sequence :: u64
  ProcessConfigMsg :: "Envelope \<Rightarrow> Envelope go"
  ProcessNormalMsg :: "Envelope \<Rightarrow> unit go"
  chainPuller :: "(u64 \<Rightarrow> Block option) option"

definition isCandidate :: "StateType \<Rightarrow> bool" where
  "isCandidate st \<longleftrightarrow> st = StatePreCandidate \<or> st = StateCandidate"

definition block_number :: "Block \<Rightarrow> u64 go" where
  "block_number b = bindE (deref (Header b)) (\<lambda>h. Inr (Number h))"

definition add_effect :: "effect \<Rightarrow> Chain \<Rightarrow> Chain" where
  "add_effect e c = c\<lparr>effects := effects c @ [e]\<rparr>"

definition ledger_append :: "ledger_write \<Rightarrow> Chain \<Rightarrow> Chain" where
  "ledger_append w c = c\<lparr>ledger := ledger c @ [w]\<rparr>"

subsection \<open>Communication\<close>

definition pemToDER :: "'a raft_codec_scheme \<Rightarrow> bytes \<Rightarrow> bytes go" where
  "pemToDER cd pemBytes = of_option ''invalid PEM block'' (pemDecode cd pemBytes)"

definition remote_step ::
  "'a raft_codec_scheme \<Rightarrow> u64 \<Rightarrow> u64 \<times> Consenter \<Rightarrow> RemoteNode list \<Rightarrow> RemoteNode list go" where
  "remote_step cd self = (\<lambda>(i, c) ns.
     if i = self then Inr ns
     else bindE (pemToDER cd (ServerTlsCert c)) (\<lambda>s.
          bindE (pemToDER cd (ClientTlsCert c)) (\<lambda>k.
            Inr (ns @ [\<lparr>rnID = i, rnHost = Host c, rnPort = Port c, rnServerCert = s, rnClientCert = k\<rparr>]))))"

definition remotePeers :: "'a raft_codec_scheme \<Rightarrow> Chain \<Rightarrow> RemoteNode list go" where
  "remotePeers cd c = foldE (remote_step cd (raftID c)) (optConsenters c) []"

definition configureComm :: "'a raft_codec_scheme \<Rightarrow> Chain \<Rightarrow> Chain go" where
  "configureComm cd c = bindE (remotePeers cd c) (\<lambda>ns. Inr (add_effect (ConfigureComm ns) c))"

abbreviation configureComm_or_panic :: "'a raft_codec_scheme \<Rightarrow> Chain \<Rightarrow> Chain go" where
  "configureComm_or_panic cd c \<equiv> or_panic ''Failed to configure communication'' (configureComm cd c)"

subsection \<open>Configuration blocks\<close>

definition newConfigMetadata :: "'a raft_codec_scheme \<Rightarrow> Block \<Rightarrow> ConfigMetadata option go" where
  "newConfigMetadata cd block =
     or_panic ''error reading consensus metadata'' (ConsensusMetadataFromConfigBlock cd (Some block))"

definition detectConfChange :: "'a raft_codec_scheme \<Rightarrow> Block \<Rightarrow> Chain \<Rightarrow> (MembershipChanges option \<times> Chain) go" where
  "detectConfChange cd block c =
     bindE (newConfigMetadata cd block) (\<lambda>md.
       case md of
         None \<Rightarrow> Inr (None, c)
       | Some m \<Rightarrow>
           (let c1 = (case mdOptions m of
                        None \<Rightarrow> c
                      | Some opts \<Rightarrow>
                          if SnapshotIntervalSize opts \<noteq> 0 \<and> SnapshotIntervalSize opts \<noteq> sizeLimit c
                          then c\<lparr>sizeLimit := SnapshotIntervalSize opts\<rparr> else c)
            in bindE (or_panic ''illegal configuration change detected''
                        (ComputeMembershipChanges (optBlockMetadata c1) (optConsenters c1) (Consenters m)))
                 (\<lambda>changes. Inr (Some changes, c1))))"

text \<open>The membership update of a written configuration block, lines 3748 to 3788.\<close>

definition update_membership :: "'a raft_codec_scheme \<Rightarrow> MembershipChanges \<Rightarrow> Chain \<Rightarrow> Chain go" where
  "update_membership cd mc c =
     (case mcConfChange mc of
        Some cc \<Rightarrow>
          if ccType cc = ConfChangeAddNode \<or> ccType cc = ConfChangeRemoveNode
          then Inr ((add_effect (ProposeConfChange cc) c)
                      \<lparr>confChangeInProgress := Some cc, configInflight := True\<rparr>)
          else Inl (Panic ''Programming error, encountered unsupported raft config change'')
      | None \<Rightarrow>
          if Rotated mc then
            (if RotatedNode mc = lastKnownLeader c then Inr (add_effect (AbdicateLeader (lastKnownLeader c)) c)
             else configureComm_or_panic cd c)
          else Inr c)"

definition writeConfigBlock :: "'a raft_codec_scheme \<Rightarrow> Block \<Rightarrow> u64 \<Rightarrow> Chain \<Rightarrow> Chain go" where
  "writeConfigBlock cd block index c =
     bindE (or_panic ''Failed to get config header type from config block''
              (ConfigChannelHeader cd block)) (\<lambda>hdr.
     let c0 = c\<lparr>configInflight := False\<rparr> in
     if chType hdr = HeaderType_CONFIG then
       bindE (detectConfChange cd block c0) (\<lambda>(mc, c1).
         let c2 = c1\<lparr>optBlockMetadata := (optBlockMetadata c1)\<lparr>RaftIndex := index\<rparr>\<rparr> in
         case mc of
           None \<Rightarrow> Inr (ledger_append (WriteConfigBlock block (Some (optBlockMetadata c2))) c2)
         | Some m \<Rightarrow>
             (let c3 = c2\<lparr>optBlockMetadata := NewBlockMetadata m, optConsenters := NewConsenters m\<rparr>
              in update_membership cd m (ledger_append (WriteConfigBlock block (Some (optBlockMetadata c3))) c3)))
     else if chType hdr = HeaderType_ORDERER_TRANSACTION then
       (let c1 = c0\<lparr>optBlockMetadata := (optBlockMetadata c0)\<lparr>RaftIndex := index\<rparr>\<rparr>
        in Inr (ledger_append (WriteConfigBlock block (Some (optBlockMetadata c1))) c1))
     else Inl (Panic ''Programming error: unexpected config type''))"

definition writeBlock :: "'a raft_codec_scheme \<Rightarrow> Block \<Rightarrow> u64 \<Rightarrow> Chain \<Rightarrow> Chain go" where
  "writeBlock cd block index c =
     bindE (block_number block) (\<lambda>n.
     bindE (block_number (lastBlock c)) (\<lambda>l.
     if l + 1 < n then Inl (Panic ''Got block, expect block'')
     else if n < l + 1 then Inr c
     else let c1 = c\<lparr>blockInflight := (if 0 < blockInflight c then blockInflight c - 1 else blockInflight c),
                     lastBlock := block\<rparr> in
       if IsConfigBlock cd block then writeConfigBlock cd block index c1
       else let c2 = c1\<lparr>optBlockMetadata := (optBlockMetadata c1)\<lparr>RaftIndex := index\<rparr>\<rparr>
            in Inr (ledger_append (WriteBlock block (Some (optBlockMetadata c2))) c2)))"

subsection \<open>Applying committed entries\<close>

definition UnmarshalBlockOrPanic :: "'a block_codec_scheme \<Rightarrow> bytes \<Rightarrow> Block go" where
  "UnmarshalBlockOrPanic cd b =
     (case unmarshalBlock cd b of None \<Rightarrow> Inl (Panic ''error unmarshaling Block'') | Some x \<Rightarrow> Inr x)"

text \<open>A change that Raft has applied, lines 3571 to 3617.\<close>

definition apply_conf_change :: "'a chain_env_scheme \<Rightarrow> ConfChangeMsg \<Rightarrow> Chain \<Rightarrow> Chain go" where
  "apply_conf_change env cc c =
     (let ns = applyConfChange env cc (raftNodes c);
          c1 = c\<lparr>raftNodes := ns, confState := ns\<rparr>
      in if ccType cc \<noteq> ConfChangeAddNode \<and> ccType cc \<noteq> ConfChangeRemoveNode
         then Inl (Panic ''Programming error, encountered unsupported raft config change'')
         else bindE (case confChangeInProgress c1 of
                       None \<Rightarrow> Inr c1
                     | Some p \<Rightarrow>
                         if ccNodeID p = ccNodeID cc \<and> ccType p = ccType cc
                         then bindE (configureComm_or_panic env c1) (\<lambda>c2.
                                Inr (c2\<lparr>confChangeInProgress := None, configInflight := False\<rparr>))
                         else Inr c1) (\<lambda>c3.
              Inr (if ccType cc = ConfChangeRemoveNode \<and> ccNodeID cc = raftID c3
                   then add_effect HaltNode
                          (if lastKnownLeader c3 = raftID c3 then c3\<lparr>configInflight := True\<rparr> else c3)
                   else c3)))"

text \<open>
  One entry. The first component is the index of the entry in the slice, and the second of the state is
  \<open>position\<close>. A change that cannot be decoded skips the update of \<open>appliedIndex\<close>.
\<close>

definition bump_applied :: "u64 \<Rightarrow> Chain \<Rightarrow> Chain" where
  "bump_applied i c = (if appliedIndex c < i then c\<lparr>appliedIndex := i\<rparr> else c)"

definition apply_entry :: "'a chain_env_scheme \<Rightarrow> nat \<times> Entry \<Rightarrow> Chain \<times> nat \<Rightarrow> (Chain \<times> nat) go" where
  "apply_entry env = (\<lambda>(i, e) (c, position).
     case eType e of
       EntryNormal \<Rightarrow>
         if eData e = [] then Inr (bump_applied (eIndex e) c, position)
         else let c1 = c\<lparr>accDataSize := accDataSize c + of_nat (length (eData e))\<rparr> in
           if eIndex e \<le> appliedIndex c1 then Inr (bump_applied (eIndex e) c1, i)
           else bindE (UnmarshalBlockOrPanic env (eData e)) (\<lambda>block.
                bindE (writeBlock env block (eIndex e) c1) (\<lambda>c2.
                  Inr (bump_applied (eIndex e) c2, i)))
     | EntryConfChange \<Rightarrow>
         (case unmarshalConfChange env (eData e) of
            None \<Rightarrow> Inr (c, position)
          | Some cc \<Rightarrow> bindE (apply_conf_change env cc c) (\<lambda>c1. Inr (bump_applied (eIndex e) c1, position))))"

text \<open>\<open>gcReady\<close>: the goroutine that takes snapshots is waiting for work.\<close>

definition maybe_snapshot :: "'a chain_env_scheme \<Rightarrow> bool \<Rightarrow> Entry list \<Rightarrow> Chain \<times> nat \<Rightarrow> Chain go" where
  "maybe_snapshot env gcReady ents = (\<lambda>(c, position).
     if sizeLimit c \<le> accDataSize c then
       bindE (UnmarshalBlockOrPanic env (eData (ents ! position))) (\<lambda>b.
         if gcReady then
           bindE (block_number b) (\<lambda>n.
             Inr ((add_effect (TakeSnapshot (appliedIndex c) (confState c) (eData (ents ! position))) c)
                    \<lparr>accDataSize := 0, lastSnapBlockNum := n\<rparr>))
         else Inr c)
     else Inr c)"

definition apply_entries :: "'a chain_env_scheme \<Rightarrow> bool \<Rightarrow> Entry list \<Rightarrow> Chain \<Rightarrow> Chain go" where
  "apply_entries env gcReady ents c =
     (case ents of
        [] \<Rightarrow> Inr c
      | e # _ \<Rightarrow>
          if appliedIndex c + 1 < eIndex e
          then Inl (Panic ''first index of committed entry should <= appliedIndex+1'')
          else bindE (foldE (apply_entry env) (zip [0..<length ents] ents) (c, 0)) (maybe_snapshot env gcReady ents))"

subsection \<open>Catching up with a snapshot\<close>

definition catchUp_step :: "'a chain_env_scheme \<Rightarrow> (u64 \<Rightarrow> Block option) \<Rightarrow> nat \<Rightarrow> Chain \<Rightarrow> Chain go" where
  "catchUp_step env pull next c =
     (case pull (of_nat next) of
        None \<Rightarrow> Inl (Err ''failed to fetch block from cluster'')
      | Some block \<Rightarrow>
          bindE (if IsConfigBlock env block then
                   bindE (detectConfChange env block (ledger_append (WriteConfigBlock block None) c))
                     (\<lambda>(mc, c1).
                       case mc of
                         None \<Rightarrow> Inr c1
                       | Some m \<Rightarrow>
                           if Changed m
                           then configureComm_or_panic env
                                  (c1\<lparr>optBlockMetadata := NewBlockMetadata m, optConsenters := NewConsenters m\<rparr>)
                           else Inr c1)
                 else Inr (ledger_append (WriteBlock block None) c))
            (\<lambda>c2. Inr (c2\<lparr>lastBlock := block\<rparr>)))"

text \<open>
  The loop counts block numbers up to that of the snapshot, which is below \<open>2 ^ 64 - 1\<close>: a header with a
  number above \<open>2 ^ 63 - 1\<close> cannot be hashed.
\<close>

definition catchUp :: "'a chain_env_scheme \<Rightarrow> bytes \<Rightarrow> Chain \<Rightarrow> Chain go" where
  "catchUp env data c =
     bindE (of_option ''failed to unmarshal snapshot data to block'' (unmarshalBlock env data)) (\<lambda>b.
     bindE (block_number b) (\<lambda>n.
     bindE (block_number (lastBlock c)) (\<lambda>l.
       if n \<le> l then Inr c
       else bindE (of_option ''failed to create block puller'' (chainPuller env)) (\<lambda>pull.
              foldE (catchUp_step env pull) [unat (l + 1)..<Suc (unat n)] c))))"

definition on_snapshot :: "'a chain_env_scheme \<Rightarrow> Snapshot \<Rightarrow> Chain \<Rightarrow> Chain go" where
  "on_snapshot env sn c =
     (if snapIndex sn \<noteq> 0 \<and> snapIndex sn \<le> appliedIndex c then Inr c
      else let c1 = (if snapIndex sn \<noteq> 0
                     then c\<lparr>confState := snapConfState sn, appliedIndex := snapIndex sn\<rparr> else c)
           in or_panic ''Failed to recover from snapshot'' (catchUp env (snapData sn) c1))"

definition getInFlightConfChange :: "'a chain_env_scheme \<Rightarrow> Chain \<Rightarrow> (ConfChangeMsg option \<times> Chain) go" where
  "getInFlightConfChange env c =
     (if confChangeInProgress c \<noteq> None then Inr (confChangeInProgress c, c)
      else bindE (block_number (lastBlock c)) (\<lambda>n.
        if n = 0 \<or> \<not> IsConfigBlock env (lastBlock c) then Inr (None, c)
        else let ns = applyConfChange env \<lparr>ccType = ConfChangeAddNode, ccNodeID = 0\<rparr> (raftNodes c);
                 c1 = c\<lparr>raftNodes := ns\<rparr>
             in Inr (if length ns = length (ConsenterIds (optBlockMetadata c1)) then None
                     else Some (ConfChange (optBlockMetadata c1) ns), c1)))"

subsection \<open>Validity of a configuration update\<close>

definition checkConfigUpdateValidity :: "'a raft_codec_scheme \<Rightarrow> Envelope \<Rightarrow> Chain \<Rightarrow> unit go" where
  "checkConfigUpdateValidity cd ctx c =
     bindE (UnmarshalPayload cd (Payload ctx)) (\<lambda>p0.
     bindE (deref (plHeader p0)) (\<lambda>h.
     bindE (UnmarshalChannelHeader cd h) (\<lambda>chdr.
     if chType chdr \<noteq> HeaderType_ORDERER_TRANSACTION \<and> chType chdr \<noteq> HeaderType_CONFIG
     then Inl (Err ''config transaction has unknown header type'')
     else bindE (if chType chdr = HeaderType_ORDERER_TRANSACTION
                 then bindE (of_option ''error unmarshaling Envelope'' (unmarshalEnvelope cd (plData p0)))
                        (\<lambda>e. UnmarshalPayload cd (Payload e))
                 else Inr p0) (\<lambda>p.
          bindE (UnmarshalConfigUpdateFromPayload cd p) (\<lambda>u.
          bindE (MetadataFromConfigUpdate cd u) (\<lambda>metadata.
            case metadata of
              None \<Rightarrow> Inr ()
            | Some m \<Rightarrow>
                bindE (CheckConfigMetadata cd metadata) (\<lambda>_.
                  if chType chdr = HeaderType_ORDERER_TRANSACTION then
                    (case mapM id (Consenters m) of
                       None \<Rightarrow> Inl NilDeref
                     | Some cs \<Rightarrow>
                         if list_all (\<lambda>x. MembershipByCert (optConsenters c) (ClientTlsCert x) \<noteq> None) cs then Inr ()
                         else Inl (Err ''new channel has consenter that is not part of system consenter set''))
                  else bindE (ComputeMembershipChanges (optBlockMetadata c) (optConsenters c) (Consenters m))
                         (\<lambda>_. Inr ()))))))))"

subsection \<open>The node\<close>

text \<open>
  The local variables of \<open>serveRequest\<close>, the channels and the receiver of the block cutter. \<open>propC\<close> is the
  channel of proposals, None before the first election; \<open>proposing\<close> says that its goroutine runs, and
  \<open>proposed\<close> is what the goroutine has handed to Raft. \<open>envC\<close> is \<open>raftEnvMsgC\<close>, with None for the request
  of the timer.
\<close>

record node_state =
  chain :: Chain
  ticking :: bool
  soft :: SoftState
  submitOpen :: bool
  bc :: "blockCreator option"
  propC :: "Block list option"
  proposing :: bool
  proposed :: "Block list"
  envC :: "Envelope option list"
  commitC :: "batches list"
  cutter :: receiver
  running :: bool

definition upd_chain :: "Chain \<Rightarrow> node_state \<Rightarrow> node_state" where
  "upd_chain c s = s\<lparr>chain := c\<rparr>"

subsection \<open>Proposing blocks\<close>

definition propose_batch :: "'a block_codec_scheme \<Rightarrow> Envelope list \<Rightarrow> node_state \<Rightarrow> node_state go" where
  "propose_batch cd batch s =
     bindE (deref (bc s)) (\<lambda>b0.
     bindE (createNextBlock cd b0 batch) (\<lambda>(b, b1).
       case propC s of
         None \<Rightarrow> Inl (Panic ''Programming error: block is proposed by follower'')
       | Some q \<Rightarrow>
           if int (length q) < optMaxInflightBlocks (chain s) then
             (let c = chain s;
                  c1 = (if IsConfigBlock cd b then c\<lparr>configInflight := True\<rparr> else c)
              in Inr (s\<lparr>bc := Some b1, propC := Some (q @ [b]),
                        chain := c1\<lparr>blockInflight := blockInflight c1 + 1\<rparr>\<rparr>))
           else Inl (Panic ''Programming error: limit of in-flight blocks does not properly take effect'')))"

definition propose :: "'a block_codec_scheme \<Rightarrow> batches \<Rightarrow> node_state \<Rightarrow> node_state go" where
  "propose cd batches s = foldE (propose_batch cd) batches s"

subsection \<open>Ordering a message\<close>

definition isConfig :: "'a block_codec_scheme \<Rightarrow> Envelope \<Rightarrow> bool go" where
  "isConfig cd env =
     bindE (or_panic ''failed to extract channel header from envelope'' (utils_ChannelHeader cd env)) (\<lambda>h.
       Inr (chType h = HeaderType_CONFIG \<or> chType h = HeaderType_ORDERER_TRANSACTION))"

text \<open>The batches to propose, whether messages are pending, and the new state.\<close>

definition ordered :: "'a chain_env_scheme \<Rightarrow> SubmitRequest \<Rightarrow> node_state \<Rightarrow> (batches \<times> bool \<times> node_state) go" where
  "ordered env msg s =
     bindE (isConfig env (reqPayload msg)) (\<lambda>config.
     if config then
       bindE (if LastValidationSeq msg < Sequence env
              then bindE (ProcessConfigMsg env (reqPayload msg)) (\<lambda>p.
                   bindE (checkConfigUpdateValidity env p (chain s)) (\<lambda>_. Inr p))
              else Inr (reqPayload msg)) (\<lambda>p.
         let (batch, r) = Cut (cutter s)
         in Inr ((if batch \<noteq> [] then [batch] else []) @ [[p]], False, s\<lparr>cutter := r\<rparr>))
     else
       bindE (if LastValidationSeq msg < Sequence env then ProcessNormalMsg env (reqPayload msg) else Inr ()) (\<lambda>_.
         Inr ([], \<not> (OTXCount (chain s) = 2 \<or> OTXCount (chain s) = 3),
              s\<lparr>envC := envC s @ [Some (reqPayload msg)]\<rparr>)))"

subsection \<open>Elections\<close>

definition becomeLeader :: "'a chain_env_scheme \<Rightarrow> node_state \<Rightarrow> node_state go" where
  "becomeLeader env s =
     bindE (getInFlightConfChange env ((chain s)\<lparr>blockInflight := 0, justElected := True\<rparr>)) (\<lambda>(cc, c).
       Inr (s\<lparr>submitOpen := False, propC := Some [], proposing := True,
              chain := (case cc of
                          None \<Rightarrow> c
                        | Some x \<Rightarrow> (add_effect (ProposeConfChange x) c)
                                      \<lparr>confChangeInProgress := Some x, configInflight := True\<rparr>)\<rparr>))"

definition becomeFollower :: "node_state \<Rightarrow> node_state" where
  "becomeFollower s =
     (let (_, r) = Cut (cutter s)
      in s\<lparr>proposing := False, chain := (chain s)\<lparr>blockInflight := 0\<rparr>, cutter := r, ticking := False,
           submitOpen := True, bc := None\<rparr>)"

text \<open>A change of the soft state: first of the leader, then what submitters see of it.\<close>

definition change_leader :: "'a chain_env_scheme \<Rightarrow> u64 \<Rightarrow> node_state \<Rightarrow> node_state go" where
  "change_leader env newLeader s =
     (if newLeader \<noteq> Lead (soft s) then
        (let s1 = s\<lparr>chain := (chain s)\<lparr>lastKnownLeader := newLeader\<rparr>\<rparr>
         in bindE (if newLeader = raftID (chain s1) then becomeLeader env s1 else Inr s1) (\<lambda>s2.
              Inr (if Lead (soft s) = raftID (chain s2) then becomeFollower s2 else s2)))
      else Inr s)"

definition note_soft :: "SoftState \<Rightarrow> SoftState \<Rightarrow> Chain \<Rightarrow> Chain" where
  "note_soft app old c =
     (let found = (Lead old = 0 \<and> Lead app \<noteq> 0);
          quit = (isCandidate (RaftState old) \<and> \<not> isCandidate (RaftState app));
          c1 = (if found \<or> quit then c\<lparr>errorClosed := False\<rparr> else c)
      in if isCandidate (RaftState app) \<or> Lead app = 0
         then c1\<lparr>lastKnownLeader := 0,
                 errorClosed := errorClosed c1 \<or> 2 < length (ConsenterIds (optBlockMetadata c1))\<rparr>
         else c1)"

definition on_soft :: "'a chain_env_scheme \<Rightarrow> SoftState \<Rightarrow> node_state \<Rightarrow> node_state go" where
  "on_soft env app s =
     bindE (change_leader env (Lead app) s) (\<lambda>s1.
       Inr (s1\<lparr>chain := note_soft app (soft s) (chain s1),
               soft := \<lparr>Lead = Lead app, RaftState = RaftState app\<rparr>\<rparr>))"

subsection \<open>The cases of the event loop\<close>

definition on_commit :: "'a block_codec_scheme \<Rightarrow> batches \<Rightarrow> node_state \<Rightarrow> node_state go" where
  "on_commit cd raftbatches s = propose cd raftbatches (s\<lparr>ticking := False\<rparr>)"

text \<open>The answer is the leader that the submitter is told, None for no answer.\<close>

definition on_submit :: "'a chain_env_scheme \<Rightarrow> SubmitRequest option \<Rightarrow> node_state \<Rightarrow> (u64 option \<times> node_state) go" where
  "on_submit env req s =
     (case req of
        None \<Rightarrow> Inr (None, s)
      | Some r \<Rightarrow>
          if isCandidate (RaftState (soft s)) then Inr (Some 0, s)
          else if Lead (soft s) \<noteq> raftID (chain s) then Inr (Some (Lead (soft s)), s)
          else case ordered env r s of
                 Inl (Err _) \<Rightarrow> Inr (Some (Lead (soft s)), s)
               | Inl e \<Rightarrow> Inl e
               | Inr (batches, pending, s1) \<Rightarrow>
                   bindE (let s2 = s1\<lparr>ticking := pending\<rparr>
                          in if batches \<noteq> [] then propose env batches s2 else Inr s2) (\<lambda>s3.
                     Inr (Some (Lead (soft s)),
                          if configInflight (chain s3) \<or> optMaxInflightBlocks (chain s3) \<le> blockInflight (chain s3)
                          then s3\<lparr>submitOpen := False\<rparr> else s3)))"

text \<open>\<open>lastIndex\<close> is the index of the last entry of the Raft log of this node.\<close>

definition on_apply ::
  "'a chain_env_scheme \<Rightarrow> bool \<Rightarrow> u64 \<Rightarrow> SoftState option \<Rightarrow> Entry list \<Rightarrow> node_state \<Rightarrow> node_state go" where
  "on_apply env gcReady lastIndex app ents s =
     bindE (case app of None \<Rightarrow> Inr s | Some x \<Rightarrow> on_soft env x s) (\<lambda>s1.
     bindE (apply_entries env gcReady ents (chain s1)) (\<lambda>c.
       let s2 = s1\<lparr>chain := c\<rparr> in
       if justElected c then
         (if appliedIndex c < lastIndex \<or> configInflight c then Inr s2
          else bindE (deref (Header (lastBlock c))) (\<lambda>h.
               bindE (header_Hash env h) (\<lambda>hh.
                 Inr (s2\<lparr>bc := Some \<lparr>bcHash = hh, bcNumber = Number h\<rparr>, submitOpen := True,
                         chain := c\<lparr>justElected := False\<rparr>\<rparr>))))
       else if configInflight c then Inr (s2\<lparr>submitOpen := False\<rparr>)
       else if blockInflight c < optMaxInflightBlocks c then Inr (s2\<lparr>submitOpen := True\<rparr>)
       else Inr s2))"

definition on_timer :: "node_state \<Rightarrow> node_state" where
  "on_timer s = s\<lparr>ticking := False, envC := envC s @ [None]\<rparr>"

definition on_done :: "node_state \<Rightarrow> node_state" where
  "on_done s = s\<lparr>proposing := False, chain := (chain s)\<lparr>errorClosed := True\<rparr>, running := False\<rparr>"

text \<open>The goroutine that hands a proposed block to Raft, and that of the block cutter.\<close>

definition proposer :: "Block \<Rightarrow> Block list \<Rightarrow> node_state \<Rightarrow> node_state" where
  "proposer b q s = s\<lparr>propC := Some q, proposed := proposed s @ [b]\<rparr>"

definition run_cutter ::
  "codec \<Rightarrow> ptx_order \<Rightarrow> BatchSize option \<Rightarrow> Envelope option \<Rightarrow> Envelope option list \<Rightarrow> node_state \<Rightarrow> node_state go"
  where
  "run_cutter cd rng cfg m rest s =
     bindE (ProcessEnvMsg cd rng cfg m (cutter s)) (\<lambda>(bs, r).
       Inr (s\<lparr>envC := rest, cutter := r, commitC := commitC s @ (if bs \<noteq> [] then [bs] else [])\<rparr>))"

subsection \<open>Creating and starting a chain\<close>

record raft_options =
  oRaftID :: u64
  oMaxInflightBlocks :: int
  oSnapshotIntervalSize :: u32
  oBlockMetadata :: BlockMetadata
  oConsenters :: "(u64, Consenter) gomap"

definition DefaultSnapshotIntervalSize :: u32 where
  "DefaultSnapshotIntervalSize = 20 * 1024 * 1024"

text \<open>
  The snapshot is that of the storage, with index 0 when there is none; \<open>blk\<close> is the last block of the ledger
  and \<open>ns\<close> the configuration that Raft restores.
\<close>

definition NewChain ::
  "'a chain_env_scheme \<Rightarrow> raft_options \<Rightarrow> Snapshot \<Rightarrow> Block option \<Rightarrow> u64 list \<Rightarrow> Chain go" where
  "NewChain env opts sn blk ns =
     bindE (if snapIndex sn = 0 then Inr (0, [])
            else bindE (UnmarshalBlockOrPanic env (snapData sn)) (\<lambda>b.
                 bindE (block_number b) (\<lambda>n. Inr (n, snapConfState sn)))) (\<lambda>(snapBlkNum, cc).
     bindE (of_option ''failed to get last block'' blk) (\<lambda>b.
     bindE (block_number b) (\<lambda>_.
       Inr \<lparr>raftID = oRaftID opts, lastKnownLeader = 0, confChangeInProgress = None, justElected = False,
            configInflight = False, blockInflight = 0, lastBlock = b, appliedIndex = RaftIndex (oBlockMetadata opts),
            sizeLimit = (if oSnapshotIntervalSize opts = 0 then DefaultSnapshotIntervalSize
                         else oSnapshotIntervalSize opts),
            accDataSize = 0, lastSnapBlockNum = snapBlkNum, confState = cc, errorClosed = False, OTXCount = 0,
            optMaxInflightBlocks = oMaxInflightBlocks opts, optBlockMetadata = oBlockMetadata opts,
            optConsenters = oConsenters opts, raftNodes = ns, ledger = [], effects = []\<rparr>)))"

text \<open>The local variables of \<open>serveRequest\<close> when it starts, and what \<open>Start\<close> leaves running.\<close>

definition serve_init :: "bool \<Rightarrow> Chain \<Rightarrow> node_state" where
  "serve_init up c =
     \<lparr>chain = c, ticking = False, soft = \<lparr>Lead = 0, RaftState = StateFollower\<rparr>, submitOpen = True, bc = None,
      propC = None, proposing = False, proposed = [], envC = [], commitC = [], cutter = NewReceiverImpl,
      running = up\<rparr>"

definition Start :: "'a raft_codec_scheme \<Rightarrow> Chain \<Rightarrow> node_state go" where
  "Start cd c =
     (case configureComm cd c of
        Inl (Err _) \<Rightarrow> Inr (serve_init False c)
      | Inl e \<Rightarrow> Inl e
      | Inr c1 \<Rightarrow> Inr (serve_init True (c1\<lparr>errorClosed := True\<rparr>)))"

subsection \<open>Submitting\<close>

definition isRunning :: "node_state \<Rightarrow> unit go" where
  "isRunning s = (if running s then Inr () else Inl (Err ''chain is stopped''))"

definition suspectEviction :: "node_state \<Rightarrow> bool" where
  "suspectEviction s \<longleftrightarrow> isRunning s = Inr () \<and> lastKnownLeader (chain s) = 0"

text \<open>
  \<open>SendSubmit\<close> is the transport to the leader. The first component is what the submitter gets; a submitter
  waits while the channel is closed to it, so the request is the next one that the event loop takes.
\<close>

definition Submit ::
  "'a chain_env_scheme \<Rightarrow> (u64 \<Rightarrow> SubmitRequest \<Rightarrow> unit go) \<Rightarrow> SubmitRequest \<Rightarrow> node_state \<Rightarrow>
   (unit go \<times> node_state) go" where
  "Submit env SendSubmit req s =
     (case isRunning s of
        Inl e \<Rightarrow> Inr (Inl e, s)
      | Inr _ \<Rightarrow>
          bindE (on_submit env (Some req) s) (\<lambda>(answer, s1).
            let lead = (case answer of None \<Rightarrow> 0 | Some l \<Rightarrow> l)
            in Inr (if lead = 0 then Inl (Err ''no Raft leader'')
                    else if lead \<noteq> raftID (chain s) then SendSubmit lead req
                    else Inr (), s1)))"

definition Order ::
  "'a chain_env_scheme \<Rightarrow> (u64 \<Rightarrow> SubmitRequest \<Rightarrow> unit go) \<Rightarrow> Envelope \<Rightarrow> u64 \<Rightarrow> node_state \<Rightarrow>
   (unit go \<times> node_state) go" where
  "Order env SendSubmit e configSeq s =
     Submit env SendSubmit \<lparr>LastValidationSeq = configSeq, reqPayload = e\<rparr> s"

definition Configure ::
  "'a chain_env_scheme \<Rightarrow> (u64 \<Rightarrow> SubmitRequest \<Rightarrow> unit go) \<Rightarrow> Envelope \<Rightarrow> u64 \<Rightarrow> node_state \<Rightarrow>
   (unit go \<times> node_state) go" where
  "Configure env SendSubmit e configSeq s =
     (case checkConfigUpdateValidity env e (chain s) of
        Inl (Err m) \<Rightarrow> Inr (Inl (Err m), s)
      | Inl err \<Rightarrow> Inl err
      | Inr _ \<Rightarrow> Submit env SendSubmit \<lparr>LastValidationSeq = configSeq, reqPayload = e\<rparr> s)"

end
