(* ===== verification/RaftLedger.thy ===== *)
theory RaftLedger
  imports RaftChain
begin

text \<open>
  The steps of a Raft node, and its ledger: on every run of the node, through elections, replayed
  entries and catch-ups, the blocks are written in sequence without a gap or a repetition.
\<close>

subsection \<open>Steps\<close>

text \<open>
  The event loop takes one message from one of its channels; the goroutine of the proposals and that of
  the block cutter run beside it.
\<close>

inductive node_step ::
  "'a chain_env_scheme \<Rightarrow> codec \<Rightarrow> ptx_order \<Rightarrow> BatchSize option \<Rightarrow> node_state \<Rightarrow> node_state \<Rightarrow> bool"
  for env cd rng cfg where
  commit: "running s \<Longrightarrow> commitC s = bs # rest \<Longrightarrow> on_commit env bs (s\<lparr>commitC := rest\<rparr>) = Inr s' \<Longrightarrow>
    node_step env cd rng cfg s s'"
| submit: "running s \<Longrightarrow> submitOpen s \<Longrightarrow> on_submit env req s = Inr (answer, s') \<Longrightarrow>
    node_step env cd rng cfg s s'"
| app: "running s \<Longrightarrow> on_apply env gcReady lastIndex sft ents s = Inr s' \<Longrightarrow> node_step env cd rng cfg s s'"
| timer: "running s \<Longrightarrow> ticking s \<Longrightarrow> node_step env cd rng cfg s (on_timer s)"
| snapshot: "running s \<Longrightarrow> on_snapshot env sn (chain s) = Inr c \<Longrightarrow> node_step env cd rng cfg s (s\<lparr>chain := c\<rparr>)"
| stop: "running s \<Longrightarrow> node_step env cd rng cfg s (on_done s)"
| proposal: "proposing s \<Longrightarrow> propC s = Some (b # q) \<Longrightarrow> node_step env cd rng cfg s (proposer b q s)"
| cutter: "envC s = m # rest \<Longrightarrow> run_cutter cd rng cfg m rest s = Inr s' \<Longrightarrow> node_step env cd rng cfg s s'"

inductive_cases node_stepE: "node_step env cd rng cfg s s'"

subsection \<open>What leaves the ledger alone\<close>

definition same_ledger :: "Chain \<Rightarrow> Chain \<Rightarrow> bool" where
  "same_ledger c c' \<longleftrightarrow> ledger c' = ledger c \<and> lastBlock c' = lastBlock c"

lemma same_ledger_refl [simp]: "same_ledger c c"
  by (simp add: same_ledger_def)

lemma same_ledger_trans: "same_ledger c d \<Longrightarrow> same_ledger d e \<Longrightarrow> same_ledger c e"
  by (simp add: same_ledger_def)

lemma same_ledger_upd [simp]:
  "same_ledger c (c\<lparr>configInflight := x1\<rparr>)" "same_ledger c (c\<lparr>confChangeInProgress := x2\<rparr>)"
  "same_ledger c (c\<lparr>sizeLimit := x3\<rparr>)" "same_ledger c (c\<lparr>optBlockMetadata := x4\<rparr>)"
  "same_ledger c (c\<lparr>raftNodes := x5\<rparr>)" "same_ledger c (c\<lparr>accDataSize := x6\<rparr>)"
  "same_ledger c (add_effect e c)" "same_ledger c (bump_applied i c)"
  by (simp_all add: same_ledger_def add_effect_def bump_applied_def)

lemma configureComm_ledger: "configureComm cd c = Inr c' \<Longrightarrow> same_ledger c c'"
  by (auto simp: configureComm_def)

lemma detectConfChange_ledger:
  assumes "detectConfChange cd b c = Inr (mc, c')"
  shows "same_ledger c c'"
proof -
  obtain md where md: "newConfigMetadata cd b = Inr md" using assms by (auto simp: detectConfChange_def)
  show ?thesis
  proof (cases md)
    case None
    then show ?thesis using assms md by (simp add: detectConfChange_def)
  next
    case (Some m)
    then show ?thesis
      using assms md by (cases "mdOptions m") (auto simp: detectConfChange_def Let_def split: if_splits)
  qed
qed

lemma update_membership_ledger: "update_membership cd mc c = Inr c' \<Longrightarrow> same_ledger c c'"
  by (auto simp: update_membership_def same_ledger_def add_effect_def split: option.splits if_splits
      dest: configureComm_ledger)

lemma getInFlightConfChange_ledger:
  assumes "getInFlightConfChange env c = Inr (cc, c')"
  shows "same_ledger c c'"
proof (cases "confChangeInProgress c")
  case None
  then obtain n where n: "block_number (lastBlock c) = Inr n" using assms by (auto simp: getInFlightConfChange_def)
  show ?thesis
    using assms None n
    by (cases "n = 0 \<or> \<not> IsConfigBlock env (lastBlock c)")
      (simp_all add: getInFlightConfChange_def Let_def del: prod.inject, auto)
qed (use assms in \<open>simp add: getInFlightConfChange_def\<close>)

lemma if_Inl_D: "(if P then Inl e else m) = Inr x \<Longrightarrow> m = Inr x"
  by (simp split: if_splits)

lemma if_Inr_D: "(if P then m else Inl e) = Inr x \<Longrightarrow> P \<and> m = Inr x"
  by (simp split: if_splits)

text \<open>\<open>same_log\<close>: the position in the Raft log is kept as well.\<close>

definition same_log :: "Chain \<Rightarrow> Chain \<Rightarrow> bool" where
  "same_log c c' \<longleftrightarrow> same_ledger c c' \<and> appliedIndex c' = appliedIndex c"

lemma same_log_halt: "same_log c d \<Longrightarrow> same_log c
    (if P then add_effect HaltNode (if Q then d\<lparr>configInflight := True\<rparr> else d) else d)"
  by (simp add: same_log_def same_ledger_def add_effect_def)

lemma apply_conf_change_log:
  assumes "apply_conf_change env cc c = Inr c'"
  shows "same_log c c'"
proof -
  define c1 where "c1 = c\<lparr>raftNodes := applyConfChange env cc (raftNodes c), confState := applyConfChange env cc (raftNodes c)\<rparr>"
  have s1: "same_log c c1" by (simp add: c1_def same_log_def same_ledger_def)
  define m where "m = (case confChangeInProgress c1 of
                       None \<Rightarrow> Inr c1
                     | Some p \<Rightarrow>
                         if ccNodeID p = ccNodeID cc \<and> ccType p = ccType cc
                         then bindE (configureComm_or_panic env c1) (\<lambda>c2.
                                Inr (c2\<lparr>confChangeInProgress := None, configInflight := False\<rparr>))
                         else Inr c1)"
  have "bindE m (\<lambda>c3. Inr (if ccType cc = ConfChangeRemoveNode \<and> ccNodeID cc = raftID c3
                   then add_effect HaltNode
                          (if lastKnownLeader c3 = raftID c3 then c3\<lparr>configInflight := True\<rparr> else c3)
                   else c3)) = Inr c'"
    using assms unfolding apply_conf_change_def Let_def c1_def [symmetric] m_def [symmetric]
    by (rule if_Inl_D)
  then obtain c3 where c3: "m = Inr c3"
      and c': "c' = (if ccType cc = ConfChangeRemoveNode \<and> ccNodeID cc = raftID c3
                   then add_effect HaltNode
                          (if lastKnownLeader c3 = raftID c3 then c3\<lparr>configInflight := True\<rparr> else c3)
                   else c3)"
    by (cases m) (simp_all split del: if_split)
  have "same_log c c3"
    using c3 s1 unfolding m_def by (auto simp: same_log_def same_ledger_def configureComm_def add_effect_def split: option.splits if_splits)
  then show ?thesis unfolding c' by (rule same_log_halt)
qed

lemma apply_conf_change_ledger: "apply_conf_change env cc c = Inr c' \<Longrightarrow> same_ledger c c'"
  using apply_conf_change_log unfolding same_log_def by blast

lemma maybe_snapshot_ledger: "maybe_snapshot env gcReady ents (c, p) = Inr c' \<Longrightarrow> same_ledger c c'"
  by (auto simp: maybe_snapshot_def same_ledger_def add_effect_def split: if_splits)

subsection \<open>What writes to it\<close>

primrec wblock :: "ledger_write \<Rightarrow> Block" where
  "wblock (WriteBlock b m) = b"
| "wblock (WriteConfigBlock b m) = b"

text \<open>The ledger holds the blocks after block \<open>n0\<close>, in sequence, and \<open>lastBlock\<close> is the last of them.\<close>

definition ledger_ok :: "u64 \<Rightarrow> Chain \<Rightarrow> bool" where
  "ledger_ok n0 c \<longleftrightarrow>
     (\<forall>i < length (ledger c). block_number (wblock (ledger c ! i)) = Inr (n0 + of_nat (Suc i))) \<and>
     block_number (lastBlock c) = Inr (n0 + of_nat (length (ledger c))) \<and>
     (ledger c \<noteq> [] \<longrightarrow> lastBlock c = wblock (last (ledger c)))"

text \<open>\<open>wrote b c c'\<close>: the step from \<open>c\<close> to \<open>c'\<close> wrote the block \<open>b\<close> and nothing else.\<close>

definition wrote :: "Block \<Rightarrow> Chain \<Rightarrow> Chain \<Rightarrow> bool" where
  "wrote b c c' \<longleftrightarrow> (\<exists>w. wblock w = b \<and> ledger c' = ledger c @ [w]) \<and> lastBlock c' = b"

lemma ledger_ok_same: "ledger_ok n0 c \<Longrightarrow> same_ledger c c' \<Longrightarrow> ledger_ok n0 c'"
  by (simp add: ledger_ok_def same_ledger_def)

lemma ledger_ok_wrote:
  assumes "ledger_ok n0 c" "wrote b c c'" "block_number (lastBlock c) = Inr l" "block_number b = Inr (l + 1)"
  shows "ledger_ok n0 c'"
proof -
  obtain w where w: "wblock w = b" "ledger c' = ledger c @ [w]" "lastBlock c' = b"
    using assms(2) by (auto simp: wrote_def)
  have l: "l = n0 + of_nat (length (ledger c))" using assms(1,3) by (simp add: ledger_ok_def)
  have n: "block_number b = Inr (n0 + of_nat (Suc (length (ledger c))))"
    using assms(4) unfolding l by (simp add: ac_simps)
  have "block_number (wblock (ledger c' ! i)) = Inr (n0 + of_nat (Suc i))" if "i < length (ledger c')" for i
  proof (cases "i = length (ledger c)")
    case True
    then show ?thesis using w n by simp
  next
    case False
    then have "i < length (ledger c)" using that w(2) by simp
    then show ?thesis using assms(1) w(2) by (simp add: ledger_ok_def nth_append)
  qed
  then show ?thesis using w n by (simp add: ledger_ok_def)
qed

lemma wroteI:
  assumes "same_ledger c c1" "same_ledger (ledger_append (WriteConfigBlock b m) c1) c'" "lastBlock c = b"
  shows "wrote b c c'"
  using assms by (auto simp: wrote_def same_ledger_def ledger_append_def intro!: exI [of _ "WriteConfigBlock b m"])

lemma writeConfigBlock_wrote:
  assumes w: "writeConfigBlock cd b i c = Inr c'" and l: "lastBlock c = b"
  shows "wrote b c c'"
proof -
  obtain hdr where hdr: "ConfigChannelHeader cd b = Inr hdr" using w by (auto simp: writeConfigBlock_def)
  let ?c0 = "c\<lparr>configInflight := False\<rparr>"
  consider (config) "chType hdr = HeaderType_CONFIG"
    | (new) "chType hdr \<noteq> HeaderType_CONFIG" "chType hdr = HeaderType_ORDERER_TRANSACTION"
    using w hdr
    by (cases "chType hdr = HeaderType_CONFIG"; cases "chType hdr = HeaderType_ORDERER_TRANSACTION")
      (simp_all add: writeConfigBlock_def Let_def)
  then show ?thesis
  proof cases
    case config
    then obtain mc c1 where d: "detectConfChange cd b ?c0 = Inr (mc, c1)"
      using w hdr by (auto simp: writeConfigBlock_def Let_def)
    have s1: "same_ledger c c1" using same_ledger_trans [OF same_ledger_upd(1) detectConfChange_ledger [OF d]] .
    show ?thesis
    proof (cases mc)
      case None
      then show ?thesis
        using w hdr config d s1 l
        by (auto simp: writeConfigBlock_def Let_def wrote_def ledger_append_def same_ledger_def)
    next
      case (Some m)
      let ?c3 = "c1\<lparr>optBlockMetadata := NewBlockMetadata m, optConsenters := NewConsenters m\<rparr>"
      have "update_membership cd m (ledger_append (WriteConfigBlock b (Some (optBlockMetadata ?c3))) ?c3) = Inr c'"
        using w hdr config d Some by (simp add: writeConfigBlock_def Let_def)
      moreover have "same_ledger c ?c3" using s1 by (simp add: same_ledger_def)
      ultimately show ?thesis using wroteI [OF _ update_membership_ledger l] by blast
    qed
  next
    case new
    then show ?thesis using w hdr l by (auto simp: writeConfigBlock_def Let_def wrote_def ledger_append_def)
  qed
qed

lemma writeBlock_ledger:
  assumes ok: "ledger_ok n0 c" and w: "writeBlock cd b i c = Inr c'"
  shows "ledger_ok n0 c'"
proof -
  obtain n l where nl: "block_number b = Inr n" "block_number (lastBlock c) = Inr l"
    using w by (auto simp: writeBlock_def)
  show ?thesis
  proof (cases "n < l + 1")
    case True
    then show ?thesis using w nl ok by (auto simp: writeBlock_def split: if_splits)
  next
    case False
    then have n: "n = l + 1" using w nl by (auto simp: writeBlock_def split: if_splits)
    let ?c1 = "c\<lparr>blockInflight := (if 0 < blockInflight c then blockInflight c - 1 else blockInflight c), lastBlock := b\<rparr>"
    have "wrote b c c'"
    proof (cases "IsConfigBlock cd b")
      case True
      then have "writeConfigBlock cd b i ?c1 = Inr c'" using w nl n by (simp add: writeBlock_def Let_def)
      then show ?thesis using writeConfigBlock_wrote [of cd b i ?c1 c'] by (simp add: wrote_def)
    next
      case False
      then show ?thesis using w nl n
        by (auto simp: writeBlock_def Let_def wrote_def ledger_append_def)
    qed
    then show ?thesis using ledger_ok_wrote [OF ok _ nl(2)] nl(1) n by simp
  qed
qed

lemma apply_entry_ledger:
  assumes ok: "ledger_ok n0 c" and a: "apply_entry env ie (c, p) = Inr (c', p')"
  shows "ledger_ok n0 c'"
proof -
  obtain i e where ie: "ie = (i, e)" by (cases ie)
  show ?thesis
  proof (cases "eType e")
    case EntryNormal
    let ?c1 = "c\<lparr>accDataSize := accDataSize c + of_nat (length (eData e))\<rparr>"
    have ok1: "ledger_ok n0 ?c1" by (rule ledger_ok_same [OF ok same_ledger_upd(6)])
    consider (skip) d where "c' = bump_applied (eIndex e) d" "d = c \<or> d = ?c1"
      | (wr) b d where "writeBlock env b (eIndex e) ?c1 = Inr d" "c' = bump_applied (eIndex e) d"
      using a EntryNormal unfolding ie apply_entry_def Let_def by (auto split: if_splits)
    then show ?thesis
      using ledger_ok_same [OF _ same_ledger_upd(8)] ok ok1 writeBlock_ledger [OF ok1] by cases blast+
  next
    case EntryConfChange
    then show ?thesis using a ok unfolding ie
      by (auto simp: apply_entry_def split: option.splits
          intro: ledger_ok_same [OF ledger_ok_same [OF _ apply_conf_change_ledger] same_ledger_upd(8)])
  qed
qed

lemma apply_entries_ledger:
  assumes ok: "ledger_ok n0 c" and a: "apply_entries env gcReady ents c = Inr c'"
  shows "ledger_ok n0 c'"
proof (cases ents)
  case (Cons e es)
  then obtain d p where d: "foldE (apply_entry env) (zip [0..<length ents] ents) (c, 0) = Inr (d, p)"
      "maybe_snapshot env gcReady ents (d, p) = Inr c'"
    using a by (auto simp: apply_entries_def split: if_splits)
  have "ledger_ok n0 (fst (d, p))"
    by (rule foldE_inv [OF d(1)]) (use ok apply_entry_ledger in \<open>auto simp del: foldE.simps\<close>)
  then show ?thesis using ledger_ok_same [OF _ maybe_snapshot_ledger [OF d(2)]] by simp
qed (use assms in \<open>simp add: apply_entries_def\<close>)

lemma same_log_trans: "same_log c d \<Longrightarrow> same_log d e \<Longrightarrow> same_log c e"
  by (simp add: same_log_def same_ledger_def)

lemma bump_applied_old: "i \<le> appliedIndex c \<Longrightarrow> bump_applied i c = c"
  by (simp add: bump_applied_def)

lemma maybe_snapshot_log: "maybe_snapshot env gcReady ents (c, p) = Inr c' \<Longrightarrow> same_log c c'"
  by (auto simp: maybe_snapshot_def same_log_def same_ledger_def add_effect_def split: if_splits)

lemma apply_entry_old:
  assumes "eIndex e \<le> appliedIndex (fst t)" "apply_entry env (i, e) t = Inr t'"
  shows "same_log (fst t) (fst t')"
proof -
  obtain c p where t: "t = (c, p)" by (cases t)
  show ?thesis
  proof (cases "eType e")
    case EntryNormal
    let ?c1 = "c\<lparr>accDataSize := accDataSize c + of_nat (length (eData e))\<rparr>"
    have "bump_applied (eIndex e) c = c" "bump_applied (eIndex e) ?c1 = ?c1"
      using assms(1) t by (simp_all add: bump_applied_def)
    then show ?thesis
      using assms EntryNormal t by (cases "eData e = []") (auto simp: apply_entry_def same_log_def Let_def)
  next
    case EntryConfChange
    then have "t' = t \<or> (\<exists>cc c1. apply_conf_change env cc c = Inr c1 \<and> fst t' = bump_applied (eIndex e) c1)"
      using assms(2) t by (cases "unmarshalConfChange env (eData e)") (simp add: apply_entry_def, force simp: apply_entry_def)
    then show ?thesis
    proof (elim disjE exE conjE)
      fix cc c1 assume c1: "apply_conf_change env cc c = Inr c1" "fst t' = bump_applied (eIndex e) c1"
      have "same_log c c1" by (rule apply_conf_change_log [OF c1(1)])
      then show ?thesis using c1(2) assms(1) t by (simp add: same_log_def bump_applied_old)
    qed (simp add: same_log_def)
  qed
qed

subsection \<open>Catching up\<close>

text \<open>The block puller answers with the block that it was asked for.\<close>

definition puller_ok :: "'a chain_env_scheme \<Rightarrow> bool" where
  "puller_ok env \<longleftrightarrow>
     (\<forall>pull n b. chainPuller env = Some pull \<longrightarrow> pull n = Some b \<longrightarrow> block_number b = Inr n)"

lemma catchUp_step_wrote:
  assumes "catchUp_step env pull n c = Inr c'"
  obtains b where "pull (of_nat n) = Some b" "wrote b c c'"
proof -
  obtain b where b: "pull (of_nat n) = Some b"
    using assms by (cases "pull (of_nat n)") (simp_all add: catchUp_step_def)
  show ?thesis
  proof (cases "IsConfigBlock env b")
    case False
    then show ?thesis
      by (intro that [OF b]) (use assms b False in \<open>auto simp: catchUp_step_def ledger_append_def wrote_def\<close>)
  next
    case True
    let ?c0 = "ledger_append (WriteConfigBlock b None) c"
    obtain mc c1 where d: "detectConfChange env b ?c0 = Inr (mc, c1)"
      using assms b True by (auto simp: catchUp_step_def)
    have s1: "same_ledger ?c0 c1" by (rule detectConfChange_ledger [OF d])
    obtain c2 where c2: "same_ledger c1 c2" "c' = c2\<lparr>lastBlock := b\<rparr>"
    proof (cases mc)
      case None
      then show ?thesis using assms b True d by (intro that [of c1]) (simp_all add: catchUp_step_def)
    next
      case (Some m)
      let ?c2 = "c1\<lparr>optBlockMetadata := NewBlockMetadata m, optConsenters := NewConsenters m\<rparr>"
      have "bindE (if Changed m then configureComm_or_panic env ?c2 else Inr c1) (\<lambda>c2. Inr (c2\<lparr>lastBlock := b\<rparr>)) = Inr c'"
        using assms by (simp only: catchUp_step_def b True d Some if_True bindE_simps prod.case option.case)
      then obtain c3 where c3: "(if Changed m then configureComm_or_panic env ?c2 else Inr c1) = Inr c3"
          "c' = c3\<lparr>lastBlock := b\<rparr>"
        by (cases "if Changed m then configureComm_or_panic env ?c2 else Inr c1") simp_all
      show ?thesis
      proof (rule that [OF _ c3(2)], cases "Changed m")
        case True
        then show "same_ledger c1 c3" using c3(1) configureComm_ledger [of env ?c2 c3] by (simp add: same_ledger_def)
      qed (use c3(1) in simp)
    qed
    have "wrote b c c'"
      using s1 c2 by (auto simp: wrote_def same_ledger_def ledger_append_def)
    then show ?thesis using b that by blast
  qed
qed

lemma catchUp_loop:
  assumes "foldE (catchUp_step env pull) [a..<z] c = Inr c'" "ledger_ok n0 c"
    and "block_number (lastBlock c) = Inr (of_nat a - 1)"
    and "\<And>n b. pull n = Some b \<Longrightarrow> block_number b = Inr n"
  shows "ledger_ok n0 c'"
  using assms(1-3)
proof (induction "z - a" arbitrary: a c)
  case (Suc k)
  then have u: "[a..<z] = a # [Suc a..<z]" by (simp add: upt_conv_Cons)
  obtain d where d: "catchUp_step env pull a c = Inr d" "foldE (catchUp_step env pull) [Suc a..<z] d = Inr c'"
    using Suc.prems(1) by (auto simp: u simp del: upt_Suc)
  obtain b where b: "pull (of_nat a) = Some b" "wrote b c d" by (rule catchUp_step_wrote [OF d(1)])
  have n: "block_number b = Inr (of_nat a)" by (rule assms(4) [OF b(1)])
  have "ledger_ok n0 d" by (rule ledger_ok_wrote [OF Suc.prems(2) b(2) Suc.prems(3)]) (simp add: n)
  moreover have "block_number (lastBlock d) = Inr (of_nat (Suc a) - 1)" using b(2) n by (simp add: wrote_def)
  ultimately show ?case using Suc.hyps(1) [of "Suc a" d] Suc.hyps(2) d(2) by simp
qed simp

lemma catchUp_ledger:
  assumes ok: "ledger_ok n0 c" and p: "puller_ok env" and r: "catchUp env data c = Inr c'"
  shows "ledger_ok n0 c'"
proof -
  obtain b n l where n: "unmarshalBlock env data = Some b" "block_number b = Inr n" "block_number (lastBlock c) = Inr l"
    using r by (auto simp: catchUp_def)
  show ?thesis
  proof (cases "n \<le> l")
    case True
    then show ?thesis using r n ok by (simp add: catchUp_def)
  next
    case False
    then obtain pull where pull: "chainPuller env = Some pull"
        "foldE (catchUp_step env pull) [unat (l + 1)..<Suc (unat n)] c = Inr c'"
      using r n by (auto simp: catchUp_def simp del: upt_Suc)
    show ?thesis by (rule catchUp_loop [OF pull(2) ok]) (use n p pull(1) in \<open>auto simp: puller_ok_def\<close>)
  qed
qed

lemma on_snapshot_ledger:
  assumes "ledger_ok n0 c" "puller_ok env" "on_snapshot env sn c = Inr c'"
  shows "ledger_ok n0 c'"
proof (cases "snapIndex sn \<noteq> 0 \<and> snapIndex sn \<le> appliedIndex c")
  case False
  define c1 where "c1 = (if snapIndex sn \<noteq> 0
                     then c\<lparr>confState := snapConfState sn, appliedIndex := snapIndex sn\<rparr> else c)"
  have "ledger_ok n0 c1" using ledger_ok_same [OF assms(1)] by (simp add: c1_def same_ledger_def)
  moreover have "catchUp env (snapData sn) c1 = Inr c'" using assms(3) False by (simp add: on_snapshot_def c1_def)
  ultimately show ?thesis using catchUp_ledger assms(2) by blast
qed (use assms in \<open>simp add: on_snapshot_def\<close>)

subsection \<open>The handlers\<close>

lemma propose_batchE:
  assumes "propose_batch cd batch s = Inr s'"
  obtains b0 b b1 q c where "bc s = Some b0" "createNextBlock cd b0 batch = Inr (b, b1)" "propC s = Some q"
    "int (length q) < optMaxInflightBlocks (chain s)"
    "c = (if IsConfigBlock cd b then (chain s)\<lparr>configInflight := True\<rparr> else chain s)"
    "s' = s\<lparr>bc := Some b1, propC := Some (q @ [b]), chain := c\<lparr>blockInflight := blockInflight c + 1\<rparr>\<rparr>"
proof -
  obtain b0 where b0: "bc s = Some b0" using assms by (cases "bc s") (simp_all add: propose_batch_def)
  obtain b b1 where b: "createNextBlock cd b0 batch = Inr (b, b1)" using assms b0 by (auto simp: propose_batch_def)
  obtain q where q: "propC s = Some q" using assms b0 b by (cases "propC s") (simp_all add: propose_batch_def)
  have "(if int (length q) < optMaxInflightBlocks (chain s)
      then let c = chain s; c1 = if IsConfigBlock cd b then c\<lparr>configInflight := True\<rparr> else c
           in Inr (s\<lparr>bc := Some b1, propC := Some (q @ [b]), chain := c1\<lparr>blockInflight := blockInflight c1 + 1\<rparr>\<rparr>)
      else Inl (Panic ''Programming error: limit of in-flight blocks does not properly take effect'')) = Inr s'"
    using assms by (simp only: propose_batch_def b0 b q deref_simps bindE_simps prod.case option.case)
  note r = if_Inr_D [OF this]
  show ?thesis by (rule that [OF b0 b q conjunct1 [OF r] refl]) (use conjunct2 [OF r] in \<open>simp only: Let_def sum.inject\<close>)
qed

lemma propose_batch_ledger: "propose_batch cd batch s = Inr s' \<Longrightarrow> same_ledger (chain s) (chain s')"
  by (erule propose_batchE) (simp add: same_ledger_def)

lemma propose_ledger: "propose cd bs s = Inr s' \<Longrightarrow> same_ledger (chain s) (chain s')"
  unfolding propose_def
proof (induction bs arbitrary: s)
  case (Cons b bs)
  then obtain t where t: "propose_batch cd b s = Inr t" "foldE (propose_batch cd) bs t = Inr s'" by auto
  have "same_ledger (chain s) (chain t)" using propose_batch_ledger [OF t(1)] .
  then show ?case using Cons.IH [OF t(2)] same_ledger_trans by blast
qed simp

lemma ordered_chain:
  assumes "ordered env msg s = Inr (bs, p, s')"
  shows "chain s' = chain s"
proof -
  obtain cf where cf: "isConfig env (reqPayload msg) = Inr cf" using assms by (auto simp: ordered_def)
  show ?thesis
    using assms cf by (cases cf; cases "Cut (cutter s)") (auto simp: ordered_def Let_def)
qed

lemma becomeLeader_ledger:
  assumes "becomeLeader env s = Inr s'"
  shows "same_ledger (chain s) (chain s')"
proof -
  obtain cc c where c: "getInFlightConfChange env ((chain s)\<lparr>blockInflight := 0, justElected := True\<rparr>) = Inr (cc, c)"
    using assms by (auto simp: becomeLeader_def)
  have "same_ledger (chain s) c" using getInFlightConfChange_ledger [OF c] by (simp add: same_ledger_def)
  then show ?thesis
    using assms c by (cases cc) (auto simp: becomeLeader_def same_ledger_def add_effect_def)
qed

lemma becomeFollower_ledger: "same_ledger (chain s) (chain (becomeFollower s))"
  by (simp add: becomeFollower_def same_ledger_def Let_def split: prod.split)

lemma change_leader_ledger:
  assumes "change_leader env l s = Inr s'"
  shows "same_ledger (chain s) (chain s')"
proof (cases "l = Lead (soft s)")
  case True
  then show ?thesis using assms by (simp add: change_leader_def)
next
  case False
  define s1 where "s1 = s\<lparr>chain := (chain s)\<lparr>lastKnownLeader := l\<rparr>\<rparr>"
  define m where "m = (if l = raftID (chain s1) then becomeLeader env s1 else Inr s1)"
  have "bindE m (\<lambda>s2. Inr (if Lead (soft s) = raftID (chain s2) then becomeFollower s2 else s2)) = Inr s'"
    using assms unfolding change_leader_def Let_def m_def s1_def by (simp only: False if_True not_False_eq_True)
  then obtain s2 where s2: "m = Inr s2" "s' = (if Lead (soft s) = raftID (chain s2) then becomeFollower s2 else s2)"
    by (cases m) simp_all
  have "same_ledger (chain s) (chain s1)" by (simp add: s1_def same_ledger_def)
  moreover have "same_ledger (chain s1) (chain s2)"
    using s2(1) becomeLeader_ledger unfolding m_def by (cases "l = raftID (chain s1)") simp_all
  moreover have "same_ledger (chain s2) (chain s')" unfolding s2(2) by (simp add: becomeFollower_ledger)
  ultimately show ?thesis using same_ledger_trans by blast
qed

lemma note_soft_ledger: "same_ledger c (note_soft app old c)"
  by (simp add: note_soft_def Let_def same_ledger_def)

lemma on_soft_ledger:
  assumes "on_soft env x s = Inr s'"
  shows "same_ledger (chain s) (chain s')"
proof -
  obtain s1 where s1: "change_leader env (Lead x) s = Inr s1" "chain s' = note_soft x (soft s) (chain s1)"
    using assms by (auto simp: on_soft_def)
  show ?thesis unfolding s1(2) by (rule same_ledger_trans [OF change_leader_ledger [OF s1(1)] note_soft_ledger])
qed

lemma on_submit_ledger:
  assumes "on_submit env req s = Inr (answer, s')"
  shows "same_ledger (chain s) (chain s')"
proof (cases "\<exists>r. req = Some r \<and> \<not> isCandidate (RaftState (soft s)) \<and> Lead (soft s) = raftID (chain s)")
  case False
  then show ?thesis using assms by (cases req) (auto simp: on_submit_def split: if_splits)
next
  case True
  then obtain r where r: "req = Some r" "\<not> isCandidate (RaftState (soft s))" "Lead (soft s) = raftID (chain s)"
    by blast
  show ?thesis
  proof (cases "ordered env r s")
    case (Inl e)
    then show ?thesis using assms r by (cases e) (auto simp: on_submit_def)
  next
    case (Inr x)
    obtain bs p s1 where x: "x = (bs, p, s1)" by (metis prod_cases3)
    let ?m = "if bs \<noteq> [] then propose env bs (s1\<lparr>ticking := p\<rparr>) else Inr (s1\<lparr>ticking := p\<rparr>)"
    obtain s3 where s3: "?m = Inr s3" "chain s' = chain s3"
      using assms r Inr x by (cases ?m) (auto simp: on_submit_def Let_def)
    have "same_ledger (chain s1) (chain s3)"
      using s3(1) propose_ledger [of env bs "s1\<lparr>ticking := p\<rparr>" s3] by (cases "bs = []") auto
    then show ?thesis using ordered_chain [of env r s bs p s1] Inr x s3(2) by simp
  qed
qed

lemma on_apply_ledger:
  assumes ok: "ledger_ok n0 (chain s)" and a: "on_apply env gcReady li sft ents s = Inr s'"
  shows "ledger_ok n0 (chain s')"
proof -
  obtain s1 where s1: "(case sft of None \<Rightarrow> Inr s | Some x \<Rightarrow> on_soft env x s) = Inr s1"
    using a by (cases "case sft of None \<Rightarrow> Inr s | Some x \<Rightarrow> on_soft env x s") (simp_all add: on_apply_def)
  have "same_ledger (chain s) (chain s1)" using s1 on_soft_ledger by (cases sft) auto
  then have ok1: "ledger_ok n0 (chain s1)" by (rule ledger_ok_same [OF ok])
  obtain c where c: "apply_entries env gcReady ents (chain s1) = Inr c"
    using a s1 by (cases "apply_entries env gcReady ents (chain s1)") (simp_all add: on_apply_def)
  have "chain s' = c \<or> chain s' = c\<lparr>justElected := False\<rparr>"
    using a unfolding on_apply_def s1 c bindE_simps Let_def
    by (cases "justElected c"; cases "appliedIndex c < li \<or> configInflight c") (auto split: if_splits)
  then show ?thesis using ledger_ok_same [OF apply_entries_ledger [OF ok1 c]] by (auto simp: same_ledger_def)
qed

lemma node_step_ledger:
  assumes "node_step env cd rng cfg s s'" "ledger_ok n0 (chain s)" "puller_ok env"
  shows "ledger_ok n0 (chain s')"
  using assms(1)
proof (cases rule: node_step.cases)
  case (commit bs rest)
  show ?thesis
    by (rule ledger_ok_same [OF assms(2)]) (use propose_ledger [OF commit(3) [unfolded on_commit_def]] in simp)
next
  case (submit req answer)
  then show ?thesis using ledger_ok_same [OF assms(2)] on_submit_ledger by blast
next
  case (app gcReady lastIndex sft ents)
  then show ?thesis using on_apply_ledger [OF assms(2)] by blast
next
  case (snapshot sn c)
  then show ?thesis using on_snapshot_ledger [OF assms(2,3)] by simp
qed (use assms(2) in \<open>auto simp: on_timer_def on_done_def proposer_def run_cutter_def ledger_ok_def\<close>)

lemma configureComm_ledger': "configureComm cd c = Inr c' \<Longrightarrow> ledger c' = ledger c \<and> lastBlock c' = lastBlock c"
  using configureComm_ledger by (simp add: same_ledger_def)

lemma Start_chain: "Start cd c = Inr s \<Longrightarrow> ledger (chain s) = ledger c \<and> lastBlock (chain s) = lastBlock c"
  by (auto simp: Start_def serve_init_def dest: configureComm_ledger' split: sum.splits go_err.splits)

lemma NewChain_ledger:
  assumes "NewChain env opts sn (Some b) ns = Inr c"
  shows "ledger c = [] \<and> lastBlock c = b"
  using assms by (auto simp: NewChain_def)

text \<open>C4. On every run of a node from the last block of its ledger, over any sequence of elections, submissions,
  applied entries (replayed ones included), snapshots and cut batches, the blocks that the node writes to its
  ledger are numbered without a gap or a repetition: the \<open>i\<close>-th write after the start has the number that
  follows those before it, and \<open>lastBlock\<close> is the last one. The hypothesis on the block puller is that it
  answers with the block it was asked for.\<close>

theorem ledger_contiguous:
  assumes "NewChain env opts sn (Some b) ns = Inr c" "block_number b = Inr n0" "Start env c = Inr s"
    and "(node_step env cd rng cfg)\<^sup>*\<^sup>* s s'" "puller_ok env"
  shows "(\<forall>i < length (ledger (chain s')).
            block_number (wblock (ledger (chain s') ! i)) = Inr (n0 + of_nat (Suc i))) \<and>
         (ledger (chain s') \<noteq> [] \<longrightarrow> lastBlock (chain s') = wblock (last (ledger (chain s'))))"
proof -
  have c: "ledger (chain s) = []" "lastBlock (chain s) = b"
    using NewChain_ledger [OF assms(1)] Start_chain [OF assms(3)] by simp_all
  have "ledger_ok n0 (chain s')"
    using assms(4)
  proof (induction rule: rtranclp_induct)
    case base
    then show ?case using c assms(2) by (simp add: ledger_ok_def)
  next
    case (step y z)
    then show ?case using node_step_ledger [OF _ _ assms(5)] by blast
  qed
  then show ?thesis by (simp add: ledger_ok_def)
qed

subsection \<open>A run\<close>

text \<open>
  A block of data length \<open>n\<close> decodes to an empty block with number \<open>n\<close>, and Raft keeps a configuration of its own.
\<close>

definition ex_block :: "u64 \<Rightarrow> Block" where
  "ex_block n = \<lparr>Header = Some \<lparr>Number = n, PreviousHash = ''p'', DataHash = ''d''\<rparr>, Data = Some [], Metadata = Some []\<rparr>"

definition ex_chain_env :: chain_env where
  "ex_chain_env = raft_codec.extend
     (ex_raft_codec\<lparr>unmarshalBlock := \<lambda>d. Some (ex_block (of_nat (length d)))\<rparr>)
     (chain_env.fields (\<lambda>d. None) (\<lambda>cc ns. ns) 0 Inr (\<lambda>e. Inr ()) (Some (\<lambda>n. Some (ex_block n))))"

definition ex_entry :: "u64 \<Rightarrow> nat \<Rightarrow> Entry" where
  "ex_entry i n = \<lparr>eType = EntryNormal, eIndex = i, eData = replicate n CHR ''x''\<rparr>"

definition ex_options :: raft_options where
  "ex_options = \<lparr>oRaftID = 1, oMaxInflightBlocks = 5, oSnapshotIntervalSize = 0, oBlockMetadata = ex_md,
     oConsenters = ex_old\<rparr>"

definition ex_start :: "node_state go" where
  "ex_start = bindE (NewChain ex_chain_env ex_options \<lparr>snapIndex = 0, snapConfState = [], snapData = []\<rparr>
                (Some (ex_block 3)) [1, 2]) (Start ex_chain_env)"

text \<open>Block 4 arrives twice, once under an index that was applied before; a snapshot then takes the node to block 7.\<close>

definition ex_run :: "node_state go" where
  "ex_run =
     bindE ex_start (\<lambda>s.
     bindE (on_apply ex_chain_env True 9 None [ex_entry 7 3, ex_entry 8 4, ex_entry 9 4] s) (\<lambda>s1.
     bindE (on_snapshot ex_chain_env \<lparr>snapIndex = 12, snapConfState = [1, 2], snapData = ''xxxxxxx''\<rparr> (chain s1)) (\<lambda>c.
       Inr (s1\<lparr>chain := c\<rparr>))))"

lemma ex_run_ledger:
  "case ex_run of Inr s \<Rightarrow> length (ledger (chain s)) = 4 | Inl e \<Rightarrow> False"
  by code_simp

lemma ex_run_running:
  "case bindE ex_start (\<lambda>s. bindE (on_apply ex_chain_env True 9 None [ex_entry 7 3, ex_entry 8 4, ex_entry 9 4] s)
     (\<lambda>s1. Inr (running s \<and> running s1))) of Inr b \<Rightarrow> b | Inl e \<Rightarrow> False"
  by code_simp

lemma ex_puller_ok: "puller_ok ex_chain_env"
  by (simp add: puller_ok_def ex_chain_env_def ex_block_def block_number_def raft_codec.defs chain_env.defs)

theorem ledger_contiguous_witness:
  "\<exists>s s'. ex_start = Inr s \<and> (node_step ex_chain_env ex_codec id None)\<^sup>*\<^sup>* s s' \<and> length (ledger (chain s')) = 4 \<and>
     (\<forall>i < 4. block_number (wblock (ledger (chain s') ! i)) = Inr (3 + of_nat (Suc i)))"
proof -
  obtain s s1 c where s: "ex_start = Inr s"
      and s1: "on_apply ex_chain_env True 9 None [ex_entry 7 3, ex_entry 8 4, ex_entry 9 4] s = Inr s1"
      and c: "on_snapshot ex_chain_env \<lparr>snapIndex = 12, snapConfState = [1, 2], snapData = ''xxxxxxx''\<rparr> (chain s1) = Inr c"
      and l: "length (ledger c) = 4"
    using ex_run_ledger unfolding ex_run_def by (auto split: sum.splits)
  have r: "running s \<and> running s1" using ex_run_running unfolding s s1 bindE_simps by simp
  have n1: "node_step ex_chain_env ex_codec id None s s1" by (rule app [OF _ s1]) (use r in simp)
  have n2: "node_step ex_chain_env ex_codec id None s1 (s1\<lparr>chain := c\<rparr>)" by (rule snapshot [OF _ c]) (use r in simp)
  have run: "(node_step ex_chain_env ex_codec id None)\<^sup>*\<^sup>* s (s1\<lparr>chain := c\<rparr>)"
    using n1 n2 by (meson rtranclp.rtrancl_into_rtrancl rtranclp.rtrancl_refl)
  obtain d where d: "NewChain ex_chain_env ex_options \<lparr>snapIndex = 0, snapConfState = [], snapData = []\<rparr>
      (Some (ex_block 3)) [1, 2] = Inr d" "Start ex_chain_env d = Inr s"
    using s unfolding ex_start_def by auto
  have "block_number (ex_block 3) = Inr 3" by (simp add: ex_block_def block_number_def)
  from ledger_contiguous [OF d(1) this d(2) run ex_puller_ok] show ?thesis
    using s run l by (intro exI [of _ s] exI [of _ "s1\<lparr>chain := c\<rparr>"]) simp
qed

text \<open>C24. Entries that were applied before, which Raft replays after a restart, write nothing to the ledger and
  leave the last block and the applied index as they are.\<close>

theorem replay_writes_nothing:
  assumes "apply_entries env gcReady ents c = Inr c'" "\<forall>e\<in>set ents. eIndex e \<le> appliedIndex c"
  shows "ledger c' = ledger c \<and> lastBlock c' = lastBlock c \<and> appliedIndex c' = appliedIndex c"
proof (cases ents)
  case (Cons e es)
  then obtain d p where d: "foldE (apply_entry env) (zip [0..<length ents] ents) (c, 0) = Inr (d, p)"
      "maybe_snapshot env gcReady ents (d, p) = Inr c'"
    using assms(1) by (auto simp: apply_entries_def split: if_splits)
  have "same_log c (fst (d, p))"
  proof (rule foldE_inv [OF d(1)])
    fix x t t' assume x: "x \<in> set (zip [0..<length ents] ents)" "same_log c (fst t)" "apply_entry env x t = Inr t'"
    obtain i e where ie: "x = (i, e)" by (cases x)
    have "eIndex e \<le> appliedIndex (fst t)"
      using assms(2) x(1,2) set_zip_rightD unfolding ie same_log_def by fastforce
    then show "same_log c (fst t')" using x(2) apply_entry_old [of e t env i t'] x(3) ie same_log_trans by blast
  qed (simp add: same_log_def)
  then show ?thesis using maybe_snapshot_log [OF d(2)] by (simp add: same_log_def same_ledger_def)
qed (use assms in \<open>simp add: apply_entries_def\<close>)

lemma ex_replay:
  "case bindE ex_start (\<lambda>s. bindE (apply_entries ex_chain_env True [ex_entry 6 4, ex_entry 7 5] (chain s))
     (\<lambda>c. Inr (appliedIndex (chain s)))) of Inr n \<Rightarrow> n = 7 | Inl e \<Rightarrow> False"
  by code_simp

theorem replay_writes_nothing_witness:
  "\<exists>s c. ex_start = Inr s \<and> apply_entries ex_chain_env True [ex_entry 6 4, ex_entry 7 5] (chain s) = Inr c \<and>
     lastBlock c = lastBlock (chain s) \<and> appliedIndex c = 7"
proof -
  obtain s c where s: "ex_start = Inr s"
      and c: "apply_entries ex_chain_env True [ex_entry 6 4, ex_entry 7 5] (chain s) = Inr c"
      and a: "appliedIndex (chain s) = 7"
    using ex_replay by (auto split: sum.splits)
  have "\<forall>e\<in>set [ex_entry 6 4, ex_entry 7 5]. eIndex e \<le> appliedIndex (chain s)"
    using a by (simp add: ex_entry_def)
  from replay_writes_nothing [OF c this] show ?thesis using s c a by (intro exI [of _ s] exI [of _ c]) simp
qed

end
