(* ===== verification/RaftFlow.thy ===== *)
theory RaftFlow
  imports RaftLedger
begin

text \<open>
  The flow of submissions and proposals through a Raft node: why a node stops taking submissions and that
  it takes them again, the chain of the blocks it proposes, and what happens to batches that are cut
  around a change of leader.
\<close>

subsection \<open>Why submissions stop\<close>

definition may_close :: "Chain \<Rightarrow> bool" where
  "may_close c \<longleftrightarrow> justElected c \<or> configInflight c \<or> optMaxInflightBlocks c \<le> blockInflight c"

definition closed_ok :: "node_state \<Rightarrow> bool" where
  "closed_ok s \<longleftrightarrow> submitOpen s \<or> may_close (chain s)"

definition same_flow :: "Chain \<Rightarrow> Chain \<Rightarrow> bool" where
  "same_flow c c' \<longleftrightarrow> justElected c' = justElected c \<and> configInflight c' = configInflight c \<and>
     optMaxInflightBlocks c' = optMaxInflightBlocks c \<and> blockInflight c' = blockInflight c"

lemma same_flow_refl [simp]: "same_flow c c"
  by (simp add: same_flow_def)

lemma same_flow_trans: "same_flow c d \<Longrightarrow> same_flow d e \<Longrightarrow> same_flow c e"
  by (simp add: same_flow_def)

lemma same_flow_upd [simp]:
  "same_flow c (c\<lparr>lastKnownLeader := x1\<rparr>)" "same_flow c (c\<lparr>lastBlock := x2\<rparr>)" "same_flow c (add_effect e c)"
  "same_flow c (ledger_append w c)" "same_flow c (c\<lparr>sizeLimit := x3\<rparr>)"
  "same_flow c (c\<lparr>optBlockMetadata := x4, optConsenters := x5\<rparr>)"
  "same_flow c (c\<lparr>confState := x6, appliedIndex := x7\<rparr>)" "same_flow c (note_soft a o' c)"
  by (simp_all add: same_flow_def add_effect_def ledger_append_def note_soft_def Let_def)

lemma may_close_same: "same_flow c c' \<Longrightarrow> may_close c' = may_close c"
  by (simp add: same_flow_def may_close_def)

lemma configureComm_flow: "configureComm cd c = Inr c' \<Longrightarrow> same_flow c c'"
  by (auto simp: configureComm_def)

lemma detectConfChange_flow:
  assumes "detectConfChange cd b c = Inr (mc, c')"
  shows "same_flow c c'"
proof -
  obtain md where md: "newConfigMetadata cd b = Inr md" using assms by (auto simp: detectConfChange_def)
  show ?thesis
  proof (cases md)
    case None
    then show ?thesis using assms md by (simp add: detectConfChange_def)
  next
    case (Some m)
    then show ?thesis
      using assms md by (cases "mdOptions m") (auto simp: detectConfChange_def Let_def split: if_splits)
  qed
qed

lemma catchUp_step_flow:
  assumes "catchUp_step env pull n c = Inr c'"
  shows "same_flow c c'"
proof -
  obtain b where b: "pull (of_nat n) = Some b"
    using assms by (cases "pull (of_nat n)") (simp_all add: catchUp_step_def)
  show ?thesis
  proof (cases "IsConfigBlock env b")
    case False
    then show ?thesis using assms b by (auto simp: catchUp_step_def ledger_append_def same_flow_def)
  next
    case True
    then obtain mc c1 where d: "detectConfChange env b (ledger_append (WriteConfigBlock b None) c) = Inr (mc, c1)"
      using assms b by (auto simp: catchUp_step_def)
    have s1: "same_flow c c1" using detectConfChange_flow [OF d] same_flow_trans same_flow_upd(4) by blast
    let ?m = "case mc of None \<Rightarrow> Inr c1 | Some m \<Rightarrow> if Changed m then configureComm_or_panic env
        (c1\<lparr>optBlockMetadata := NewBlockMetadata m, optConsenters := NewConsenters m\<rparr>) else Inr c1"
    have "bindE ?m (\<lambda>c2. Inr (c2\<lparr>lastBlock := b\<rparr>)) = Inr c'"
      using assms by (simp only: catchUp_step_def b True d if_True bindE_simps prod.case option.case)
    then obtain c2 where c2: "?m = Inr c2" "c' = c2\<lparr>lastBlock := b\<rparr>" by (cases ?m) simp_all
    have "same_flow c1 c2"
    proof (cases mc)
      case (Some m)
      then show ?thesis
        using c2(1) configureComm_flow [of env "c1\<lparr>optBlockMetadata := NewBlockMetadata m, optConsenters := NewConsenters m\<rparr>" c2]
        by (cases "Changed m") (auto simp: same_flow_def)
    qed (use c2 in simp)
    then show ?thesis using s1 c2(2) by (simp add: same_flow_def)
  qed
qed

lemma on_snapshot_flow:
  assumes "on_snapshot env sn c = Inr c'"
  shows "same_flow c c'"
proof (cases "snapIndex sn \<noteq> 0 \<and> snapIndex sn \<le> appliedIndex c")
  case False
  define c1 where "c1 = (if snapIndex sn \<noteq> 0
                     then c\<lparr>confState := snapConfState sn, appliedIndex := snapIndex sn\<rparr> else c)"
  have "catchUp env (snapData sn) c1 = Inr c'" using assms False by (simp add: on_snapshot_def c1_def)
  then consider "c' = c1"
    | pull xs where "foldE (catchUp_step env pull) xs c1 = Inr c'"
    by (auto simp: catchUp_def simp del: upt_Suc split: if_splits)
  then have "same_flow c1 c'"
  proof cases
    case (2 pull xs)
    show ?thesis
      by (rule foldE_inv [OF 2, where I = "same_flow c1"]) (use catchUp_step_flow same_flow_trans in \<open>simp, blast\<close>)
  qed simp
  then show ?thesis by (simp add: c1_def same_flow_def split: if_splits)
qed (use assms in \<open>simp add: on_snapshot_def\<close>)

lemma propose_flow:
  assumes "propose cd bs s = Inr s'"
  shows "submitOpen s' = submitOpen s \<and> (may_close (chain s) \<longrightarrow> may_close (chain s'))"
  using assms unfolding propose_def
proof (induction bs arbitrary: s)
  case (Cons b bs)
  then obtain t where t: "propose_batch cd b s = Inr t" "foldE (propose_batch cd) bs t = Inr s'" by auto
  have "submitOpen t = submitOpen s \<and> (may_close (chain s) \<longrightarrow> may_close (chain t))"
    using t(1) by (rule propose_batchE) (simp add: may_close_def)
  then show ?case using Cons.IH [OF t(2)] by simp
qed simp

lemma on_commit_flow: "on_commit cd bs s = Inr s' \<Longrightarrow> closed_ok s \<Longrightarrow> closed_ok s'"
  using propose_flow [of cd bs "s\<lparr>ticking := False\<rparr>" s'] by (auto simp: closed_ok_def on_commit_def)

lemma ordered_open:
  assumes "ordered env msg s = Inr (bs, p, s')"
  shows "submitOpen s' = submitOpen s"
proof -
  obtain cf where cf: "isConfig env (reqPayload msg) = Inr cf" using assms by (auto simp: ordered_def)
  show ?thesis
    using assms cf by (cases cf; cases "Cut (cutter s)") (auto simp: ordered_def Let_def)
qed

lemma on_submit_flow:
  assumes "on_submit env req s = Inr (answer, s')" "submitOpen s"
  shows "closed_ok s'"
proof (cases "\<exists>r. req = Some r \<and> \<not> isCandidate (RaftState (soft s)) \<and> Lead (soft s) = raftID (chain s)")
  case False
  then show ?thesis using assms by (cases req) (auto simp: on_submit_def closed_ok_def split: if_splits)
next
  case True
  then obtain r where r: "req = Some r" "\<not> isCandidate (RaftState (soft s))" "Lead (soft s) = raftID (chain s)"
    by blast
  show ?thesis
  proof (cases "ordered env r s")
    case (Inl e)
    then show ?thesis using assms r by (cases e) (auto simp: on_submit_def closed_ok_def)
  next
    case (Inr x)
    obtain bs p s1 where x: "x = (bs, p, s1)" by (metis prod_cases3)
    let ?m = "if bs \<noteq> [] then propose env bs (s1\<lparr>ticking := p\<rparr>) else Inr (s1\<lparr>ticking := p\<rparr>)"
    obtain s3 where s3: "?m = Inr s3"
        "s' = (if configInflight (chain s3) \<or> optMaxInflightBlocks (chain s3) \<le> blockInflight (chain s3)
               then s3\<lparr>submitOpen := False\<rparr> else s3)"
      using assms r Inr x by (cases ?m) (simp_all add: on_submit_def Let_def)
    have "submitOpen s1 = submitOpen s" using Inr x ordered_open by blast
    moreover have "submitOpen s3 = submitOpen s1"
      using s3(1) propose_flow [of env bs "s1\<lparr>ticking := p\<rparr>" s3] by (cases "bs = []") auto
    ultimately show ?thesis using s3(2) assms(2) by (simp add: closed_ok_def may_close_def)
  qed
qed

lemma getInFlightConfChange_elected:
  assumes "getInFlightConfChange env c = Inr (cc, c')"
  shows "justElected c' = justElected c"
proof (cases "confChangeInProgress c")
  case None
  then obtain n where n: "block_number (lastBlock c) = Inr n" using assms by (auto simp: getInFlightConfChange_def)
  show ?thesis
    using assms None n
    by (cases "n = 0 \<or> \<not> IsConfigBlock env (lastBlock c)")
      (simp_all add: getInFlightConfChange_def Let_def del: prod.inject, auto)
qed (use assms in \<open>simp add: getInFlightConfChange_def\<close>)

lemma becomeLeader_flow:
  assumes "becomeLeader env s = Inr s'"
  shows "justElected (chain s')"
proof -
  obtain cc c where c: "getInFlightConfChange env ((chain s)\<lparr>blockInflight := 0, justElected := True\<rparr>) = Inr (cc, c)"
    using assms by (auto simp: becomeLeader_def)
  have "justElected c" using getInFlightConfChange_elected [OF c] by simp
  then show ?thesis using assms c by (cases cc) (auto simp: becomeLeader_def add_effect_def)
qed

lemma change_leader_flow:
  assumes "change_leader env l s = Inr s'" "closed_ok s"
  shows "closed_ok s'"
proof (cases "l = Lead (soft s)")
  case True
  then show ?thesis using assms by (simp add: change_leader_def)
next
  case False
  define s1 where "s1 = s\<lparr>chain := (chain s)\<lparr>lastKnownLeader := l\<rparr>\<rparr>"
  define m where "m = (if l = raftID (chain s1) then becomeLeader env s1 else Inr s1)"
  have "bindE m (\<lambda>s2. Inr (if Lead (soft s) = raftID (chain s2) then becomeFollower s2 else s2)) = Inr s'"
    using assms(1) unfolding change_leader_def Let_def m_def s1_def by (simp only: False if_True not_False_eq_True)
  then obtain s2 where s2: "m = Inr s2" "s' = (if Lead (soft s) = raftID (chain s2) then becomeFollower s2 else s2)"
    by (cases m) simp_all
  have "closed_ok s1" using assms(2) by (simp add: closed_ok_def s1_def may_close_def)
  then have "closed_ok s2"
    using s2(1) becomeLeader_flow unfolding m_def closed_ok_def may_close_def
    by (cases "l = raftID (chain s1)") auto
  then show ?thesis
    unfolding s2(2) by (simp add: closed_ok_def becomeFollower_def Let_def split: prod.split)
qed

lemma on_apply_flow:
  assumes "on_apply env gcReady li sft ents s = Inr s'"
  shows "closed_ok s'"
proof -
  obtain s1 where s1: "(case sft of None \<Rightarrow> Inr s | Some x \<Rightarrow> on_soft env x s) = Inr s1"
    using assms by (cases "case sft of None \<Rightarrow> Inr s | Some x \<Rightarrow> on_soft env x s") (simp_all add: on_apply_def)
  obtain c where c: "apply_entries env gcReady ents (chain s1) = Inr c"
    using assms s1 by (cases "apply_entries env gcReady ents (chain s1)") (simp_all add: on_apply_def)
  show ?thesis
    using assms unfolding on_apply_def s1 c bindE_simps Let_def closed_ok_def may_close_def
    by (cases "justElected c"; cases "appliedIndex c < li \<or> configInflight c") (auto split: if_splits)
qed

lemma node_step_flow:
  assumes "node_step env cd rng cfg s s'" "closed_ok s"
  shows "closed_ok s'"
  using assms(1)
proof (cases rule: node_step.cases)
  case (commit bs rest)
  then show ?thesis using on_commit_flow assms(2) by (fastforce simp: closed_ok_def)
next
  case (submit req answer)
  then show ?thesis using on_submit_flow by blast
next
  case (app gcReady lastIndex sft ents)
  then show ?thesis using on_apply_flow by blast
next
  case (snapshot sn c)
  then show ?thesis using on_snapshot_flow may_close_same assms(2) by (fastforce simp: closed_ok_def)
qed (use assms(2) in \<open>auto simp: on_timer_def on_done_def proposer_def run_cutter_def closed_ok_def may_close_def\<close>)


definition ex_lead :: SoftState where
  "ex_lead = \<lparr>Lead = 1, RaftState = StateLeader\<rparr>"

definition ex_elected :: "node_state go" where
  "ex_elected = bindE ex_start (on_apply ex_chain_env True 20 (Some ex_lead) [])"

lemma ex_elected_closed:
  "case bindE ex_start (\<lambda>s. bindE (on_apply ex_chain_env True 20 (Some ex_lead) [] s)
     (\<lambda>s1. Inr (running s \<and> \<not> submitOpen s1))) of Inr b \<Rightarrow> b | Inl e \<Rightarrow> False"
  by code_simp


subsection \<open>Submissions resume\<close>

text \<open>Entries with the blocks that follow block \<open>l\<close>, under indices above \<open>a\<close>.\<close>

fun delivers :: "'a chain_env_scheme \<Rightarrow> u64 \<Rightarrow> u64 \<Rightarrow> Entry list \<Rightarrow> bool" where
  "delivers env l a [] \<longleftrightarrow> True"
| "delivers env l a (e # es) \<longleftrightarrow>
     eType e = EntryNormal \<and> eData e \<noteq> [] \<and> a < eIndex e \<and>
     (case unmarshalBlock env (eData e) of
        None \<Rightarrow> False
      | Some b \<Rightarrow> block_number b = Inr (l + 1) \<and> \<not> IsConfigBlock env b) \<and>
     delivers env (l + 1) (eIndex e) es"

lemma delivers_decodes: "delivers env l a es \<Longrightarrow> e \<in> set es \<Longrightarrow> \<exists>b n. unmarshalBlock env (eData e) = Some b \<and> block_number b = Inr n"
  by (induction es arbitrary: l a) (auto split: option.splits)

lemma apply_entry_delivers:
  assumes "delivers env l (appliedIndex c) (e # es)" "block_number (lastBlock c) = Inr l"
  obtains c' where "apply_entry env (i, e) (c, p) = Inr (c', i)" "block_number (lastBlock c') = Inr (l + 1)"
    "appliedIndex c' = eIndex e" "justElected c' = justElected c" "configInflight c' = configInflight c"
    "optMaxInflightBlocks c' = optMaxInflightBlocks c"
    "blockInflight c' = (if 0 < blockInflight c then blockInflight c - 1 else blockInflight c)"
proof -
  obtain b where b: "unmarshalBlock env (eData e) = Some b" "block_number b = Inr (l + 1)" "\<not> IsConfigBlock env b"
    using assms(1) by (auto split: option.splits)
  have e: "eType e = EntryNormal" "eData e \<noteq> []" "\<not> eIndex e \<le> appliedIndex c" "appliedIndex c < eIndex e"
    using assms(1) by (simp_all add: not_le)
  define c' where "c' = (let md = (optBlockMetadata c)\<lparr>RaftIndex := eIndex e\<rparr> in
    bump_applied (eIndex e) (ledger_append (WriteBlock b (Some md))
      (c\<lparr>accDataSize := accDataSize c + of_nat (length (eData e)),
          blockInflight := (if 0 < blockInflight c then blockInflight c - 1 else blockInflight c),
          lastBlock := b, optBlockMetadata := md\<rparr>)))"
  have r: "apply_entry env (i, e) (c, p) = Inr (c', i)"
    by (simp add: apply_entry_def e b assms(2) Let_def UnmarshalBlockOrPanic_def
        writeBlock_def c'_def)
  show ?thesis
    by (rule that [OF r]) (use b e in \<open>simp_all add: c'_def Let_def bump_applied_def ledger_append_def\<close>)
qed

lemma apply_delivers:
  assumes "delivers env l (appliedIndex c) es" "block_number (lastBlock c) = Inr l" "0 \<le> blockInflight c"
  shows "\<exists>c' p'. foldE (apply_entry env) (zip [k..<k + length es] es) (c, p) = Inr (c', p') \<and>
    justElected c' = justElected c \<and> configInflight c' = configInflight c \<and>
    optMaxInflightBlocks c' = optMaxInflightBlocks c \<and> blockInflight c' = max 0 (blockInflight c - int (length es)) \<and>
    p' = (if es = [] then p else k + length es - 1)"
  using assms
proof (induction es arbitrary: l c k p)
  case (Cons e es)
  obtain d where d: "apply_entry env (k, e) (c, p) = Inr (d, k)" "block_number (lastBlock d) = Inr (l + 1)"
      "appliedIndex d = eIndex e" "justElected d = justElected c" "configInflight d = configInflight c"
      "optMaxInflightBlocks d = optMaxInflightBlocks c"
      "blockInflight d = (if 0 < blockInflight c then blockInflight c - 1 else blockInflight c)"
    by (rule apply_entry_delivers [OF Cons.prems(1,2), of k p])
  have z: "zip [k..<k + length (e # es)] (e # es) = (k, e) # zip [Suc k..<Suc k + length es] es"
    by (simp add: upt_conv_Cons del: upt_Suc)
  have "delivers env (l + 1) (appliedIndex d) es" using Cons.prems(1) d(3) by simp
  moreover have "0 \<le> blockInflight d" using d(7) Cons.prems(3) by simp
  ultimately obtain c' p' where
      c': "foldE (apply_entry env) (zip [Suc k..<Suc k + length es] es) (d, k) = Inr (c', p')"
      "justElected c' = justElected d" "configInflight c' = configInflight d"
      "optMaxInflightBlocks c' = optMaxInflightBlocks d" "blockInflight c' = max 0 (blockInflight d - int (length es))"
      "p' = (if es = [] then k else Suc k + length es - 1)"
    using Cons.IH [of "l + 1" d "Suc k" k] d(2) by blast
  show ?case unfolding z foldE.simps d(1) bindE_simps c'(1) using c' d Cons.prems(3) by (auto simp: max_def)
qed simp

text \<open>C26. A leader whose submissions are paused because the limit of blocks in flight was reached takes them
  again: when Raft delivers the next blocks, the handler does not panic, the count goes down by the number of
  blocks, and the channel is open as soon as the count is below the limit.\<close>

theorem submissions_resume:
  assumes "block_number (lastBlock (chain s)) = Inr l"
    and "delivers env l (appliedIndex (chain s)) (e # es)" "eIndex e = appliedIndex (chain s) + 1"
    and "0 \<le> blockInflight (chain s)" "\<not> justElected (chain s)" "\<not> configInflight (chain s)"
    and "blockInflight (chain s) - int (length (e # es)) < optMaxInflightBlocks (chain s)"
    and "0 < optMaxInflightBlocks (chain s)"
  shows "\<exists>s'. on_apply env gcReady li None (e # es) s = Inr s' \<and> submitOpen s' \<and>
           blockInflight (chain s') = max 0 (blockInflight (chain s) - int (length (e # es)))"
proof -
  obtain c p where c: "foldE (apply_entry env) (zip [0..<0 + length (e # es)] (e # es)) (chain s, 0) = Inr (c, p)"
      "justElected c = justElected (chain s)" "configInflight c = configInflight (chain s)"
      "optMaxInflightBlocks c = optMaxInflightBlocks (chain s)"
      "blockInflight c = max 0 (blockInflight (chain s) - int (length (e # es)))" "p = length es"
    using apply_delivers [OF assms(2,1,4), of 0 0] by auto
  have "(e # es) ! p \<in> set (e # es)" unfolding c(6) by (rule nth_mem) simp
  from delivers_decodes [OF assms(2) this] obtain b n
    where b: "unmarshalBlock env (eData ((e # es) ! p)) = Some b" "block_number b = Inr n" by blast
  obtain c' where c': "maybe_snapshot env gcReady (e # es) (c, p) = Inr c'" "same_flow c c'"
    using b by (cases "sizeLimit c \<le> accDataSize c"; cases gcReady)
      (auto simp: maybe_snapshot_def UnmarshalBlockOrPanic_def same_flow_def add_effect_def)
  have "apply_entries env gcReady (e # es) (chain s) = Inr c'"
    using c(1) c'(1) assms(3) unfolding apply_entries_def by simp
  then show ?thesis
    using c' c assms(5-8) by (auto simp: on_apply_def Let_def same_flow_def)
qed

definition ex_full :: "node_state go" where
  "ex_full = bindE ex_start (\<lambda>s. Inr (s\<lparr>chain := (chain s)\<lparr>blockInflight := 5\<rparr>, submitOpen := False\<rparr>))"

lemma ex_full_flow:
  "case ex_full of Inl e \<Rightarrow> False
   | Inr s \<Rightarrow> block_number (lastBlock (chain s)) = Inr 3 \<and> delivers ex_chain_env 3 (appliedIndex (chain s)) [ex_entry 8 4] \<and>
       appliedIndex (chain s) = 7 \<and> blockInflight (chain s) = 5 \<and> \<not> justElected (chain s) \<and>
       \<not> configInflight (chain s) \<and> optMaxInflightBlocks (chain s) = 5 \<and> \<not> submitOpen s"
  by code_simp

theorem submissions_resume_witness:
  "\<exists>s s'. ex_full = Inr s \<and> \<not> submitOpen s \<and> on_apply ex_chain_env True 8 None [ex_entry 8 4] s = Inr s' \<and>
     submitOpen s' \<and> blockInflight (chain s') = 4"
proof -
  obtain s where s: "ex_full = Inr s" using ex_full_flow by (auto split: sum.splits)
  note f = ex_full_flow [unfolded s sum.case]
  have "\<exists>s'. on_apply ex_chain_env True 8 None [ex_entry 8 4] s = Inr s' \<and> submitOpen s' \<and>
      blockInflight (chain s') = max 0 (blockInflight (chain s) - int (length [ex_entry 8 4]))"
    by (rule submissions_resume [where l = 3]) (use f in \<open>simp_all add: ex_entry_def\<close>)
  then show ?thesis using s f by auto
qed

subsection \<open>The chain of the proposed blocks\<close>

lemma propose_batch_extends:
  assumes "propose_batch cd batch s = Inr s'" "bc s = Some b0" "propC s = Some q"
  obtains b h data b1 where "bc s' = Some b1" "propC s' = Some (q @ [b])" "Header b = Some h"
    "header_chain cd (bcHash b0) (bcNumber b0) [h] (bcHash b1)" "bcNumber b1 = bcNumber b0 + 1"
    "mapM (marshalEnvelope cd) batch = Some data" "Data b = Some data"
proof -
  obtain b b1 where c: "createNextBlock cd b0 batch = Inr (b, b1)" "bc s' = Some b1" "propC s' = Some (q @ [b])"
    using assms by (elim propose_batchE) simp
  note cn = createNextBlock_chain [OF c(1)]
  obtain h where h: "Header b = Some h" "Number h = bcNumber b0 + 1" "PreviousHash h = bcHash b0"
      "header_Hash cd h = Inr (bcHash b1)" "bcNumber b1 = bcNumber b0 + 1"
    using cn(1) by blast
  obtain data where "mapM (marshalEnvelope cd) batch = Some data"
    using c(1) by (cases "mapM (marshalEnvelope cd) batch") (simp_all add: createNextBlock_def)
  then show ?thesis using c h cn(3) by (intro that [of b1 b h data]) simp_all
qed

text \<open>C27. The blocks that a leader creates for a list of batches are queued in order after those it had queued;
  each holds exactly the envelopes of its batch, marshalled, and their headers form a chain that starts at the
  hash and number of the block creator and ends at its new hash.\<close>

theorem propose_chain:
  assumes "propose cd bs s = Inr s'" "bc s = Some b0" "propC s = Some q"
  shows "\<exists>blocks b1. propC s' = Some (q @ blocks) \<and> bc s' = Some b1 \<and> length blocks = length bs \<and>
    header_chain cd (bcHash b0) (bcNumber b0) (map (the \<circ> Header) blocks) (bcHash b1) \<and>
    bcNumber b1 = bcNumber b0 + of_nat (length bs) \<and>
    list_all2 (\<lambda>batch b. \<exists>data. Data b = Some data \<and> mapM (marshalEnvelope cd) batch = Some data) bs blocks"
  using assms unfolding propose_def
proof (induction bs arbitrary: s b0 q)
  case Nil
  then show ?case by (intro exI [of _ "[]"]) simp
next
  case (Cons batch bs)
  obtain t where t: "propose_batch cd batch s = Inr t" "foldE (propose_batch cd) bs t = Inr s'"
    using Cons.prems(1) by auto
  obtain b h data b1 where b: "bc t = Some b1" "propC t = Some (q @ [b])" "Header b = Some h"
      "header_chain cd (bcHash b0) (bcNumber b0) [h] (bcHash b1)" "bcNumber b1 = bcNumber b0 + 1"
      "mapM (marshalEnvelope cd) batch = Some data" "Data b = Some data"
    by (rule propose_batch_extends [OF t(1) Cons.prems(2,3)])
  obtain blocks b2 where r: "propC s' = Some ((q @ [b]) @ blocks)" "bc s' = Some b2" "length blocks = length bs"
      "header_chain cd (bcHash b1) (bcNumber b1) (map (the \<circ> Header) blocks) (bcHash b2)"
      "bcNumber b2 = bcNumber b1 + of_nat (length bs)"
      "list_all2 (\<lambda>batch b. \<exists>data. Data b = Some data \<and> mapM (marshalEnvelope cd) batch = Some data) bs blocks"
    using Cons.IH [OF t(2) b(1,2)] by blast
  have "header_chain cd (bcHash b0) (bcNumber b0) (map (the \<circ> Header) (b # blocks)) (bcHash b2)"
    using b(3-5) r(4) by (auto split: sum.splits)
  moreover have "bcNumber b2 = bcNumber b0 + of_nat (length (batch # bs))" using r(5) b(5) by (simp add: ac_simps)
  ultimately show ?case using r(1-3,6) b(6,7) by (intro exI [of _ "b # blocks"] exI [of _ b2]) (simp add: comp_def del: header_chain.simps)
qed

definition ex_leader :: "node_state go" where
  "ex_leader = bindE ex_start (on_apply ex_chain_env True 7 (Some ex_lead) [])"

lemma ex_leader_ready:
  "case ex_leader of Inl e \<Rightarrow> False
   | Inr s \<Rightarrow> bc s \<noteq> None \<and> propC s = Some [] \<and>
       (case propose ex_chain_env [[ex_env ''A''], [ex_env ''B'', ex_env ''C'']] s of Inl e \<Rightarrow> False | Inr s' \<Rightarrow> True)"
  by code_simp

theorem propose_chain_witness:
  "\<exists>s s' blocks. ex_leader = Inr s \<and> propose ex_chain_env [[ex_env ''A''], [ex_env ''B'', ex_env ''C'']] s = Inr s' \<and>
     propC s' = Some blocks \<and> length blocks = 2"
proof -
  obtain s where s: "ex_leader = Inr s" using ex_leader_ready by (auto split: sum.splits)
  note f = ex_leader_ready [unfolded s sum.case]
  obtain b0 where b0: "bc s = Some b0" using f by auto
  obtain s' where s': "propose ex_chain_env [[ex_env ''A''], [ex_env ''B'', ex_env ''C'']] s = Inr s'"
    using f by (auto split: sum.splits)
  have "propC s = Some []" using f by simp
  from propose_chain [OF s' b0 this] show ?thesis using s s' by auto
qed

subsection \<open>Batches around a change of leader\<close>

text \<open>C28. A node that has lost the leadership panics on the next batch that its block cutter has cut: the block
  creator is gone, and the handler of the cut batches does not ask whether the node leads.\<close>

theorem stale_batch_panics:
  assumes "change_leader env l s = Inr s'" "Lead (soft s) = raftID (chain s)" "l \<noteq> raftID (chain s)" "bs \<noteq> []"
  shows "on_commit env bs s' = Inl NilDeref"
proof -
  have "s' = becomeFollower (s\<lparr>chain := (chain s)\<lparr>lastKnownLeader := l\<rparr>\<rparr>)"
    using assms(1-3) by (simp add: change_leader_def)
  then have "bc s' = None" by (simp add: becomeFollower_def Let_def split: prod.split)
  then show ?thesis using assms(4) by (cases bs) (simp_all add: on_commit_def propose_def propose_batch_def)
qed

text \<open>A transaction is submitted to the leader, the cutter cuts it, and the leadership moves to node 2 before
  the event loop takes the batch.\<close>

definition ex_cut :: "node_state go" where
  "ex_cut =
     bindE ex_leader (\<lambda>s.
     bindE (on_submit ex_chain_env (Some \<lparr>LastValidationSeq = 0, reqPayload = ex_env ''A''\<rparr>) s) (\<lambda>(_, s1).
       run_cutter ex_codec id (Some (ex_size 1)) (hd (envC s1)) (tl (envC s1)) s1))"

lemma ex_cut_stale:
  "case ex_cut of Inl e \<Rightarrow> False
   | Inr s \<Rightarrow> commitC s = [[[ex_env ''A'']]] \<and> Lead (soft s) = raftID (chain s) \<and> raftID (chain s) = 1 \<and>
       (case change_leader ex_chain_env 2 s of Inl e \<Rightarrow> False | Inr s' \<Rightarrow> commitC s' = [[[ex_env ''A'']]])"
  by code_simp

theorem stale_batch_panics_witness:
  "\<exists>s s'. ex_cut = Inr s \<and> change_leader ex_chain_env 2 s = Inr s' \<and> commitC s' = [[[ex_env ''A'']]] \<and>
     on_commit ex_chain_env (hd (commitC s')) s' = Inl NilDeref"
proof -
  obtain s where s: "ex_cut = Inr s" using ex_cut_stale by (auto split: sum.splits)
  note f = ex_cut_stale [unfolded s sum.case]
  obtain s' where s': "change_leader ex_chain_env 2 s = Inr s'" "commitC s' = [[[ex_env ''A'']]]"
    using f by (auto split: sum.splits)
  have "on_commit ex_chain_env [[ex_env ''A'']] s' = Inl NilDeref"
    by (rule stale_batch_panics [OF s'(1)]) (use f in simp_all)
  then show ?thesis using s s' by auto
qed

end
