(* ===== verification/Versions.thy ===== *)
theory Versions
  imports Go_Prelude "HOL-Library.List_Lexorder"
begin

text \<open>
  Heights of transactions (\<open>core/ledger/kvledger/txmgmt/version\<close>) and the order-preserving encoding of
  numbers that the databases use for them (\<open>common/ledger/util/util.go\<close>).
\<close>

unbundle bit_operations_syntax

type_synonym byte = "8 word"

record Height =
  BlockNum :: u64
  TxNum :: u64

definition NewHeight :: "u64 \<Rightarrow> u64 \<Rightarrow> Height" where
  "NewHeight b t = \<lparr>BlockNum = b, TxNum = t\<rparr>"

subsection \<open>Varints\<close>

function EncodeVarint :: "u64 \<Rightarrow> byte list" where
  "EncodeVarint x = (if 127 < x then (0x80 OR ucast (x AND 0x7F)) # EncodeVarint (drop_bit 7 x) else [ucast x])"
  by auto

text \<open>The loop of \<open>EncodeVarint\<close> ends: a shift makes a number above 127 smaller.\<close>

termination EncodeVarint
proof (relation "measure unat")
  fix x :: u64 assume "127 < x"
  then have "0 < unat x" by (simp add: word_less_nat_alt)
  then have "unat x div 128 < unat x" by simp
  then show "(drop_bit 7 x, x) \<in> measure unat"
    by (simp add: drop_bit_eq_div unat_div_distrib)
qed simp

declare EncodeVarint.simps [simp del]

text \<open>The loop of \<open>DecodeVarint\<close>: the bytes left, the shift, the number so far and the bytes read.\<close>

fun decode_loop :: "byte list \<Rightarrow> nat \<Rightarrow> u64 \<Rightarrow> nat \<Rightarrow> u64 \<times> nat" where
  "decode_loop [] shift x n = (0, 0)"
| "decode_loop (b # bs) shift x n =
     (if shift < 64 then
        let x' = x OR push_bit shift (ucast b AND 0x7F)
        in if b AND 0x80 = 0 then (x', Suc n) else decode_loop bs (shift + 7) x' (Suc n)
      else (0, 0))"

definition DecodeVarint :: "byte list \<Rightarrow> u64 \<times> nat" where
  "DecodeVarint buf = decode_loop buf 0 0 0"

subsection \<open>Big-endian numbers\<close>

definition PutUint64 :: "u64 \<Rightarrow> byte list" where
  "PutUint64 v = map (\<lambda>i. ucast (drop_bit (8 * (7 - i)) v)) [0..<8]"

definition Uint64 :: "byte list \<Rightarrow> u64" where
  "Uint64 b = foldl (\<lambda>a x. push_bit 8 a OR ucast x) 0 b"

subsection \<open>The order-preserving encoding\<close>

text \<open>The loop that looks for the first byte that is not zero, from index \<open>i\<close> on.\<close>

fun start_size :: "nat \<Rightarrow> byte list \<Rightarrow> nat \<times> nat" where
  "start_size i [] = (0, 0)"
| "start_size i (b # bs) = (if b \<noteq> 0 then (i, 8 - i) else start_size (Suc i) bs)"

definition EncodeOrderPreservingVarUint64 :: "u64 \<Rightarrow> byte list go" where
  "EncodeOrderPreservingVarUint64 number =
     (let bytes = PutUint64 number;
          (startingIndex, size) = start_size 0 bytes;
          sizeBytes = EncodeVarint (of_nat size)
      in if 1 < length sizeBytes then Inl (Panic ''[]sizeBytes should not be more than one byte'')
         else Inr (hd sizeBytes # take size (drop startingIndex bytes)))"

definition DecodeOrderPreservingVarUint64 :: "byte list \<Rightarrow> (u64 \<times> nat) go" where
  "DecodeOrderPreservingVarUint64 bytes =
     (let (s, numBytes) = DecodeVarint bytes in
      if numBytes \<noteq> 1 then Inl (Err ''number of consumed bytes from DecodeVarint is invalid'')
      else if 8 < s then Inl (Err ''decoded size from DecodeVarint is invalid'')
      else if length bytes - 1 < unat s then Inl (Err ''decoded size from DecodeVarint is more than available bytes'')
      else let size = unat s;
               decodedBytes = replicate (8 - size) 0 @ take size (drop 1 bytes)
           in Inr (Uint64 decodedBytes, size + 1))"

definition ToBytes :: "Height \<Rightarrow> byte list go" where
  "ToBytes h =
     bindE (EncodeOrderPreservingVarUint64 (BlockNum h)) (\<lambda>b.
     bindE (EncodeOrderPreservingVarUint64 (TxNum h)) (\<lambda>t. Inr (b @ t)))"

definition NewHeightFromBytes :: "byte list \<Rightarrow> (Height \<times> nat) go" where
  "NewHeightFromBytes b =
     bindE (DecodeOrderPreservingVarUint64 b) (\<lambda>(blockNum, n1).
     bindE (DecodeOrderPreservingVarUint64 (drop n1 b)) (\<lambda>(txNum, n2).
       Inr (NewHeight blockNum txNum, n1 + n2)))"

subsection \<open>Comparing\<close>

text \<open>The differences are taken modulo \<open>2 ^ 64\<close> and read as signed numbers.\<close>

definition Compare :: "Height \<Rightarrow> Height \<Rightarrow> int" where
  "Compare h h1 =
     (if BlockNum h \<noteq> BlockNum h1 then (if 0 < sint (BlockNum h - BlockNum h1) then 1 else -1)
      else if TxNum h \<noteq> TxNum h1 then (if 0 < sint (TxNum h - TxNum h1) then 1 else -1)
      else 0)"

definition AreSame :: "Height option \<Rightarrow> Height option \<Rightarrow> bool" where
  "AreSame h1 h2 =
     (case h1 of
        None \<Rightarrow> h2 = None
      | Some a \<Rightarrow> (case h2 of None \<Rightarrow> False | Some b \<Rightarrow> Compare a b = 0))"

lemma AreSame_eq [simp]: "AreSame h1 h2 \<longleftrightarrow> h1 = h2"
  by (auto simp: AreSame_def Compare_def split: option.split if_splits intro: Height.equality)

subsection \<open>Numbers as digits\<close>

definition digits_val :: "byte list \<Rightarrow> nat" where
  "digits_val bs = foldl (\<lambda>a x. a * 256 + unat x) 0 bs"

lemma digits_foldl: "foldl (\<lambda>a x. a * 256 + unat (x :: byte)) k bs = k * 256 ^ length bs + digits_val bs"
proof (induction bs arbitrary: k)
  case (Cons b bs)
  have "digits_val (b # bs) = unat b * 256 ^ length bs + digits_val bs"
    using Cons.IH [of "unat b"] by (simp add: digits_val_def)
  then show ?case using Cons.IH [of "k * 256 + unat b"] by (simp add: algebra_simps)
qed (simp add: digits_val_def)

lemma digits_val_Nil [simp]: "digits_val [] = 0"
  by (simp add: digits_val_def)

lemma digits_val_Cons [simp]: "digits_val (b # bs) = unat b * 256 ^ length bs + digits_val bs"
  using digits_foldl [of "unat b" bs] by (simp add: digits_val_def)

lemma byte_bound: "unat (b :: byte) < 256"
  using unsigned_less [of b, where ?'a = nat] by simp

lemma digits_val_bound: "digits_val bs < 256 ^ length bs"
proof (induction bs)
  case (Cons b bs)
  have "unat b * 256 ^ length bs + digits_val bs < (unat b + 1) * 256 ^ length bs" using Cons.IH by simp
  also have "\<dots> \<le> 256 * 256 ^ length bs" using byte_bound [of b] by (intro mult_right_mono) auto
  finally show ?case by simp
qed simp

lemma digits_val_zeros: "digits_val (replicate k 0 @ bs) = digits_val bs"
  by (induction k) simp_all

lemma digit_less:
  assumes "unat (x :: byte) < unat (y :: byte)" "d < b"
  shows "unat x * b + d < unat y * b + (e :: nat)"
proof -
  have "unat x * b + d < (unat x + 1) * b" using assms(2) by simp
  also have "\<dots> \<le> unat y * b" using assms(1) by (intro mult_right_mono) auto
  finally show ?thesis by simp
qed

lemma digits_less:
  assumes "length xs = length ys"
  shows "xs < ys \<longleftrightarrow> digits_val xs < digits_val ys"
  using assms
proof (induction xs arbitrary: ys)
  case (Cons x xs)
  then obtain y ys' where ys: "ys = y # ys'" and l: "length xs = length ys'" by (cases ys) auto
  have b: "digits_val xs < 256 ^ length ys'" "digits_val ys' < 256 ^ length ys'"
    using digits_val_bound [of xs] digits_val_bound [of ys'] l by simp_all
  show ?case
  proof (cases x y rule: linorder_cases)
    case equal
    then show ?thesis using Cons.IH [OF l] l by (simp add: ys)
  next
    case less
    then show ?thesis using digit_less [OF _ b(1)] l by (simp add: ys word_less_nat_alt)
  next
    case greater
    then have "\<not> x # xs < ys" "digits_val ys < digits_val (x # xs)"
      using digit_less [OF _ b(2), of y x "digits_val xs"] l by (auto simp: ys word_less_nat_alt)
    then show ?thesis by simp
  qed
qed simp

lemma Uint64_step: "push_bit 8 a OR ucast (x :: byte) = a * 256 + (ucast x :: u64)"
proof -
  have "push_bit 8 a + (ucast x :: u64) = push_bit 8 a OR ucast x"
    by (rule disjunctive_add) (auto simp: bit_simps dest: bit_imp_le_length)
  then show ?thesis by (simp add: push_bit_eq_mult)
qed

lemma Uint64_digits: "Uint64 bs = of_nat (digits_val bs)"
proof -
  have "foldl (\<lambda>a x. push_bit 8 a OR ucast x) (of_nat k) bs
      = (of_nat (foldl (\<lambda>a x. a * 256 + unat (x :: byte)) k bs) :: u64)" for k
  proof (induction bs arbitrary: k)
    case (Cons b bs)
    show ?case using Cons.IH [of "k * 256 + unat b"] by (simp add: Uint64_step)
  qed simp
  from this [of 0] show ?thesis by (simp add: Uint64_def digits_val_def)
qed

lemma PutUint64_length [simp]: "length (PutUint64 v) = 8"
  by (simp add: PutUint64_def)

lemma PutUint64_digit: "unat (ucast (drop_bit k (v :: u64)) :: byte) = unat v div 2 ^ k mod 256"
  using unsigned_less [of v, where ?'a = nat]
  by (simp add: unsigned_ucast_eq unsigned_drop_bit_eq take_bit_eq_mod) (simp add: drop_bit_eq_div)

lemma PutUint64_upto:
  "digits_val (map (\<lambda>i. ucast (drop_bit (8 * (k - Suc i)) (v :: u64))) [0..<k]) = unat v mod 256 ^ k"
proof (induction k)
  case (Suc k)
  have u: "[0..<Suc k] = 0 # map Suc [0..<k]" by (simp add: upt_conv_Cons map_Suc_upt del: upt_Suc)
  have p: "(2 :: nat) ^ (8 * k) = 256 ^ k" by (simp add: power_mult)
  have "unat v mod 256 ^ Suc k = 256 ^ k * (unat v div 256 ^ k mod 256) + unat v mod 256 ^ k"
    using mod_mult2_eq [of "unat v" "256 ^ k" 256] by (simp add: mult.commute)
  then show ?case unfolding u using Suc.IH by (simp add: PutUint64_digit p comp_def)
qed simp

lemma PutUint64_digits: "digits_val (PutUint64 v) = unat v"
proof -
  have "unat v < 256 ^ 8" using unsigned_less [of v, where ?'a = nat] by simp
  then show ?thesis using PutUint64_upto [of 8 v] by (simp add: PutUint64_def)
qed

subsection \<open>The encoding drops the leading zeros\<close>

definition trimmed :: "u64 \<Rightarrow> byte list" where
  "trimmed v = dropWhile (\<lambda>b. b = 0) (PutUint64 v)"

lemma start_size_eq:
  "i + length bs = 8 \<Longrightarrow> start_size i bs
   = (let d = dropWhile (\<lambda>b. b = 0) bs in if d = [] then (0, 0) else (8 - length d, length d))"
  by (induction bs arbitrary: i) (auto simp: Let_def)

lemma EncodeVarint_small: "x \<le> 127 \<Longrightarrow> EncodeVarint x = [ucast x]"
  by (subst EncodeVarint.simps) (simp add: leD)

lemma trimmed_length: "length (trimmed v) \<le> 8"
  using length_dropWhile_le [of "\<lambda>b. b = 0" "PutUint64 v"] by (simp add: trimmed_def)

lemma drop_trimmed: "drop (8 - length (trimmed v)) (PutUint64 v) = trimmed v"
proof -
  let ?z = "takeWhile (\<lambda>b. b = 0) (PutUint64 v)"
  have "length ?z + length (trimmed v) = 8"
    by (metis PutUint64_length length_append takeWhile_dropWhile_id trimmed_def)
  then have "length ?z = 8 - length (trimmed v)" by simp
  then show ?thesis using dropWhile_eq_drop [of "\<lambda>b. b = 0" "PutUint64 v"] by (simp add: trimmed_def)
qed

lemma Encode_eq: "EncodeOrderPreservingVarUint64 v = Inr (of_nat (length (trimmed v)) # trimmed v)"
proof -
  have s: "start_size 0 (PutUint64 v) = (if trimmed v = [] then (0, 0) else (8 - length (trimmed v), length (trimmed v)))"
    by (simp add: start_size_eq Let_def trimmed_def)
  have "(of_nat (length (trimmed v)) :: u64) \<le> 127"
    using trimmed_length [of v] by (simp add: word_le_nat_alt unsigned_of_nat take_bit_nat_eq_self)
  then have "EncodeVarint (of_nat (length (trimmed v))) = [of_nat (length (trimmed v))]"
    using trimmed_length [of v] by (simp add: EncodeVarint_small unsigned_of_nat take_bit_nat_eq_self)
  moreover have "EncodeVarint 0 = [0]" by (simp add: EncodeVarint_small)
  ultimately show ?thesis
    by (cases "trimmed v = []") (simp_all add: EncodeOrderPreservingVarUint64_def s drop_trimmed)
qed

lemma trimmed_digits: "digits_val (trimmed v) = unat v"
proof -
  have "PutUint64 v = replicate (length (takeWhile (\<lambda>b. b = 0) (PutUint64 v))) 0 @ trimmed v"
    by (metis (mono_tags, lifting) replicate_length_same set_takeWhileD takeWhile_dropWhile_id trimmed_def)
  then show ?thesis using digits_val_zeros PutUint64_digits by metis
qed

lemma DecodeVarint_small:
  assumes "n \<le> 8"
  shows "DecodeVarint (of_nat n # bs) = (of_nat n, 1)"
proof -
  have "n = 0 \<or> n = 1 \<or> n = 2 \<or> n = 3 \<or> n = 4 \<or> n = 5 \<or> n = 6 \<or> n = 7 \<or> n = 8" using assms by arith
  then show ?thesis by (elim disjE) (simp_all add: DecodeVarint_def)
qed

lemma Decode_trimmed:
  assumes "EncodeOrderPreservingVarUint64 v = Inr b"
  shows "DecodeOrderPreservingVarUint64 (b @ rest) = Inr (v, length b)"
proof -
  let ?d = "trimmed v"
  have b: "b = of_nat (length ?d) # ?d" using assms by (simp add: Encode_eq)
  have s: "unat (of_nat (length ?d) :: u64) = length ?d" "\<not> 8 < (of_nat (length ?d) :: u64)"
    using trimmed_length [of v]
    by (simp_all add: word_less_nat_alt word_le_nat_alt unsigned_of_nat take_bit_nat_eq_self not_less)
  have "Uint64 (replicate (8 - length ?d) 0 @ ?d) = v"
    unfolding Uint64_digits digits_val_zeros trimmed_digits by simp
  then show ?thesis
    using s trimmed_length [of v]
    by (simp add: b DecodeOrderPreservingVarUint64_def DecodeVarint_small)
qed

text \<open>C29. A height survives its encoding: what \<open>ToBytes\<close> writes, \<open>NewHeightFromBytes\<close> reads back, whatever bytes
  follow, and it consumes exactly the bytes that were written.\<close>

theorem height_roundtrip:
  "\<exists>b. ToBytes h = Inr b \<and> NewHeightFromBytes (b @ rest) = Inr (h, length b)"
proof -
  obtain b where b: "EncodeOrderPreservingVarUint64 (BlockNum h) = Inr b" by (simp add: Encode_eq)
  obtain t where t: "EncodeOrderPreservingVarUint64 (TxNum h) = Inr t" by (simp add: Encode_eq)
  have "NewHeightFromBytes ((b @ t) @ rest) = Inr (h, length (b @ t))"
    using Decode_trimmed [OF b, of "t @ rest"] Decode_trimmed [OF t, of rest]
    by (simp add: NewHeightFromBytes_def NewHeight_def)
  then show ?thesis using b t by (simp add: ToBytes_def)
qed

subsection \<open>The order of the encoding\<close>

lemma trimmed_lower:
  assumes "trimmed v \<noteq> []"
  shows "256 ^ (length (trimmed v) - 1) \<le> unat v"
proof -
  obtain x xs where x: "trimmed v = x # xs" using assms by (cases "trimmed v") auto
  have "x \<noteq> 0" using hd_dropWhile [of "\<lambda>b. b = 0" "PutUint64 v"] x unfolding trimmed_def
    by (metis list.discI list.sel(1))
  then have "1 \<le> unat x" by (simp add: unat_gt_0 Suc_le_eq)
  then have "256 ^ length xs \<le> unat x * 256 ^ length xs" by simp
  moreover have "unat v = unat x * 256 ^ length xs + digits_val xs" using trimmed_digits [of v] x by simp
  ultimately have "256 ^ length xs \<le> unat v" by linarith
  then show ?thesis using x by simp
qed

lemma trimmed_mono:
  assumes "v < w"
  shows "length (trimmed v) \<le> length (trimmed w)"
proof (rule ccontr)
  assume n: "\<not> length (trimmed v) \<le> length (trimmed w)"
  then have "trimmed v \<noteq> []" by auto
  then have "256 ^ (length (trimmed v) - 1) \<le> unat v" by (rule trimmed_lower)
  moreover have "256 ^ length (trimmed w) \<le> (256 :: nat) ^ (length (trimmed v) - 1)" using n by (intro power_increasing) auto
  moreover have "unat w < 256 ^ length (trimmed w)" using digits_val_bound [of "trimmed w"] by (simp add: trimmed_digits)
  ultimately show False using assms unfolding word_less_nat_alt by linarith
qed

lemma size_byte_less:
  assumes "m \<le> 8" "n \<le> 8"
  shows "(of_nat m :: byte) < of_nat n \<longleftrightarrow> m < n"
  using assms by (simp add: word_less_nat_alt unsigned_of_nat take_bit_nat_eq_self)

lemma append_less_append:
  assumes "length xs = length ys" "xs < (ys :: byte list)"
  shows "xs @ us < ys @ vs"
  using assms by (induction xs ys rule: list_induct2) auto

lemma encoded_less:
  assumes "v < w"
  shows "of_nat (length (trimmed v)) # trimmed v @ xs < of_nat (length (trimmed w)) # trimmed w @ ys"
proof (cases "length (trimmed v) = length (trimmed w)")
  case True
  have "trimmed v < trimmed w" using digits_less [OF True] assms by (simp add: trimmed_digits word_less_nat_alt)
  then have "trimmed v @ xs < trimmed w @ ys" using True append_less_append by blast
  then show ?thesis using True by simp
next
  case False
  then have "length (trimmed v) < length (trimmed w)" using trimmed_mono [OF assms] by simp
  then show ?thesis using size_byte_less trimmed_length by simp
qed

text \<open>C30. The databases sort heights by their bytes: comparing the encodings byte by byte is comparing block
  numbers, and transaction numbers within a block.\<close>

theorem height_bytes_order:
  assumes "ToBytes h = Inr b" "ToBytes h' = Inr b'"
  shows "b < b' \<longleftrightarrow> BlockNum h < BlockNum h' \<or> BlockNum h = BlockNum h' \<and> TxNum h < TxNum h'"
proof -
  define e where "e v = of_nat (length (trimmed v)) # trimmed v" for v
  have b: "b = e (BlockNum h) @ e (TxNum h)" "b' = e (BlockNum h') @ e (TxNum h')"
    using assms by (auto simp: ToBytes_def Encode_eq e_def)
  have lt: "e v @ xs < e w @ ys" if "v < w" for v w xs ys using encoded_less [OF that] by (simp add: e_def)
  have same: "zs @ xs < zs @ ys \<longleftrightarrow> xs < ys" for zs xs ys :: "byte list" by (induction zs) simp_all
  show ?thesis
  proof (cases "BlockNum h" "BlockNum h'" rule: linorder_cases)
    case less
    then show ?thesis using lt b by simp
  next
    case equal
    have "e (TxNum h) < e (TxNum h') \<longleftrightarrow> TxNum h < TxNum h'"
      using lt [of "TxNum h" "TxNum h'" "[]" "[]"] lt [of "TxNum h'" "TxNum h" "[]" "[]"]
      by (cases "TxNum h" "TxNum h'" rule: linorder_cases) auto
    then show ?thesis using equal same b by simp
  next
    case greater
    then have "b' < b" using lt b by simp
    then show ?thesis using greater by auto
  qed
qed

theorem height_bytes_order_witness:
  "\<exists>b b'. ToBytes (NewHeight 255 9) = Inr b \<and> ToBytes (NewHeight 256 0) = Inr b' \<and> b < b'"
proof -
  obtain b b' where b: "ToBytes (NewHeight 255 9) = Inr b" "ToBytes (NewHeight 256 0) = Inr b'"
    using height_roundtrip by blast
  then show ?thesis using height_bytes_order [OF b] by (simp add: NewHeight_def)
qed

subsection \<open>The limits of the comparison\<close>

text \<open>C31. \<open>Compare\<close> orders heights whose block numbers, and transaction numbers, are less than \<open>2 ^ 63\<close> apart:
  within that bound the sign of the wrapped difference is that of the comparison.\<close>

theorem Compare_bounds:
  assumes "\<bar>uint (BlockNum h) - uint (BlockNum h')\<bar> < 2 ^ 63" "\<bar>uint (TxNum h) - uint (TxNum h')\<bar> < 2 ^ 63"
  shows "Compare h h' = (if (BlockNum h, TxNum h) = (BlockNum h', TxNum h') then 0
    else if BlockNum h' < BlockNum h \<or> BlockNum h = BlockNum h' \<and> TxNum h' < TxNum h then 1 else -1)"
proof -
  have s: "0 < sint (x - y) \<longleftrightarrow> y < x" if "\<bar>uint x - uint y\<bar> < 2 ^ 63" for x y :: u64
  proof -
    have "x - y = word_of_int (uint x - uint y)" by simp
    then have "sint (x - y) = signed_take_bit 63 (uint x - uint y)" by (simp only: sint_sbintrunc') simp
    also have "\<dots> = uint x - uint y" using that by (intro signed_take_bit_int_eq_self) auto
    finally show ?thesis by (simp add: word_less_def)
  qed
  show ?thesis using s [OF assms(1)] s [OF assms(2)] by (auto simp: Compare_def)
qed

text \<open>The bound is tight: one step beyond it the larger height compares as the smaller one.\<close>

theorem Compare_bounds_witness:
  "Compare (NewHeight (2 ^ 63 - 1) 4) (NewHeight 0 7) = 1 \<and> Compare (NewHeight (2 ^ 63) 4) (NewHeight 0 7) = -1"
proof -
  have "Compare (NewHeight (2 ^ 63 - 1) 4) (NewHeight 0 7) = 1"
    by (subst Compare_bounds) (simp_all add: NewHeight_def)
  then show ?thesis by (simp add: Compare_def NewHeight_def)
qed

end
