(* ===== verification/StateDB.thy ===== *)
theory StateDB
  imports Versions Rwset "HOL-Library.Char_ord"
begin

text \<open>
  The batch of updates that the validation of a block builds up (\<open>statedb.go\<close>, \<open>privacyenabledstate/db.go\<close>)
  and what the validation asks of the state database. The database is a parameter, the record \<open>state_db\<close>.
\<close>

subsection \<open>Values\<close>

record VersionedValue =
  Value :: "bytes option"
  vvMetadata :: "bytes option"
  vvVersion :: "Height option"

record VersionedKV =
  vkNamespace :: string
  vkKey :: string
  vkValue :: VersionedValue

definition vv_IsDelete :: "VersionedValue \<Rightarrow> bool" where
  "vv_IsDelete vv \<longleftrightarrow> Value vv = None"

definition NewVersion :: "Version option \<Rightarrow> Height option" where
  "NewVersion v = map_option (\<lambda>x. NewHeight (vBlockNum x) (vTxNum x)) v"

subsection \<open>The batch\<close>

type_synonym nsUpdates = "(string, VersionedValue) gomap"
type_synonym UpdateBatch = "(string, nsUpdates) gomap"

definition NewUpdateBatch :: UpdateBatch where
  "NewUpdateBatch = []"

definition ub_Get :: "UpdateBatch \<Rightarrow> string \<Rightarrow> string \<Rightarrow> VersionedValue option" where
  "ub_Get batch ns key =
     (case map_of batch ns of None \<Rightarrow> None | Some m \<Rightarrow> (case map_of m key of None \<Rightarrow> None | Some vv \<Rightarrow> Some vv))"

definition getOrCreateNsUpdates :: "UpdateBatch \<Rightarrow> string \<Rightarrow> nsUpdates" where
  "getOrCreateNsUpdates batch ns = (case map_of batch ns of None \<Rightarrow> [] | Some m \<Rightarrow> m)"

definition ub_Update :: "string \<Rightarrow> string \<Rightarrow> VersionedValue \<Rightarrow> UpdateBatch \<Rightarrow> UpdateBatch" where
  "ub_Update ns key vv batch = put ns (put key vv (getOrCreateNsUpdates batch ns)) batch"

definition ub_PutValAndMetadata ::
  "string \<Rightarrow> string \<Rightarrow> bytes option \<Rightarrow> bytes option \<Rightarrow> Height option \<Rightarrow> UpdateBatch \<Rightarrow> UpdateBatch go" where
  "ub_PutValAndMetadata ns key value metadata version batch =
     (if value = None then Inl (Panic ''Nil value not allowed. Instead call Delete function'')
      else Inr (ub_Update ns key \<lparr>Value = value, vvMetadata = metadata, vvVersion = version\<rparr> batch))"

definition ub_Put :: "string \<Rightarrow> string \<Rightarrow> bytes option \<Rightarrow> Height option \<Rightarrow> UpdateBatch \<Rightarrow> UpdateBatch go" where
  "ub_Put ns key value version batch = ub_PutValAndMetadata ns key value None version batch"

definition ub_Delete :: "string \<Rightarrow> string \<Rightarrow> Height option \<Rightarrow> UpdateBatch \<Rightarrow> UpdateBatch" where
  "ub_Delete ns key version batch =
     ub_Update ns key \<lparr>Value = None, vvMetadata = None, vvVersion = version\<rparr> batch"

definition ub_Exists :: "UpdateBatch \<Rightarrow> string \<Rightarrow> string \<Rightarrow> bool" where
  "ub_Exists batch ns key =
     (case map_of batch ns of None \<Rightarrow> False | Some m \<Rightarrow> map_of m key \<noteq> None)"

definition GetUpdatedNamespaces :: "UpdateBatch \<Rightarrow> string list" where
  "GetUpdatedNamespaces batch = map fst batch"

definition GetUpdates :: "UpdateBatch \<Rightarrow> string \<Rightarrow> nsUpdates option" where
  "GetUpdates batch ns = map_of batch ns"

subsection \<open>Updates of collections\<close>

text \<open>\<open>UpdateMap\<close>: one batch for a namespace, with the collections in the place of the namespaces.\<close>

type_synonym UpdateMap = "(string, UpdateBatch) gomap"

definition getOrCreateNsBatch :: "UpdateMap \<Rightarrow> string \<Rightarrow> UpdateBatch" where
  "getOrCreateNsBatch b ns = (case map_of b ns of None \<Rightarrow> NewUpdateBatch | Some m \<Rightarrow> m)"

definition um_Get :: "UpdateMap \<Rightarrow> string \<Rightarrow> string \<Rightarrow> string \<Rightarrow> VersionedValue option" where
  "um_Get b ns coll key = (case map_of b ns of None \<Rightarrow> None | Some m \<Rightarrow> ub_Get m coll key)"

definition um_Contains :: "UpdateMap \<Rightarrow> string \<Rightarrow> string \<Rightarrow> string \<Rightarrow> bool" where
  "um_Contains b ns coll key = (case map_of b ns of None \<Rightarrow> False | Some m \<Rightarrow> ub_Exists m coll key)"

definition um_PutValAndMetadata ::
  "string \<Rightarrow> string \<Rightarrow> string \<Rightarrow> bytes option \<Rightarrow> bytes option \<Rightarrow> Height option \<Rightarrow> UpdateMap \<Rightarrow> UpdateMap go" where
  "um_PutValAndMetadata ns coll key value metadata version b =
     bindE (ub_PutValAndMetadata coll key value metadata version (getOrCreateNsBatch b ns)) (\<lambda>m. Inr (put ns m b))"

definition um_Put ::
  "string \<Rightarrow> string \<Rightarrow> string \<Rightarrow> bytes option \<Rightarrow> Height option \<Rightarrow> UpdateMap \<Rightarrow> UpdateMap go" where
  "um_Put ns coll key value version b = um_PutValAndMetadata ns coll key value None version b"

definition um_Delete :: "string \<Rightarrow> string \<Rightarrow> string \<Rightarrow> Height option \<Rightarrow> UpdateMap \<Rightarrow> UpdateMap" where
  "um_Delete ns coll key version b = put ns (ub_Delete coll key version (getOrCreateNsBatch b ns)) b"

definition um_IsEmpty :: "UpdateMap \<Rightarrow> bool" where
  "um_IsEmpty b \<longleftrightarrow> length b = 0"

text \<open>One map for all entries: a later entry of the range replaces an earlier one.\<close>

definition ToCompositeKeyMap :: "UpdateMap \<Rightarrow> string \<times> string \<times> string \<rightharpoonup> VersionedValue" where
  "ToCompositeKeyMap h =
     fold (\<lambda>(ns, nsBatch) m.
       fold (\<lambda>coll m.
         fold (\<lambda>(key, vv) m. m((ns, coll, key) \<mapsto> vv))
           (case GetUpdates nsBatch coll of None \<Rightarrow> [] | Some u \<Rightarrow> u) m)
         (GetUpdatedNamespaces nsBatch) m) h Map.empty"

subsection \<open>The contract of a batch\<close>

text \<open>
  What the clients of a batch rely on: a lookup finds the last update of a key, an update leaves the other
  keys alone, and an entry that marks a deletion is found as well.
\<close>

locale update_batch =
  fixes empty :: 'b
    and lookup :: "'b \<Rightarrow> 'k \<Rightarrow> VersionedValue option"
    and update :: "'k \<Rightarrow> VersionedValue \<Rightarrow> 'b \<Rightarrow> 'b"
  assumes lookup_empty: "lookup empty k = None"
    and lookup_update: "lookup (update k vv b) = (lookup b)(k \<mapsto> vv)"
begin

lemma lookup_updates: "lookup (fold (\<lambda>(k, vv). update k vv) us b) = lookup b ++ map_of (rev us)"
  by (induction us arbitrary: b) (auto simp: lookup_update map_add_def fun_eq_iff split: option.split)

lemma lookup_last:
  assumes "distinct (map fst us)" "(k, vv) \<in> set us"
  shows "lookup (fold (\<lambda>(k, vv). update k vv) us b) k = Some vv"
proof -
  have "map_of (rev us) k = Some vv"
    by (rule map_of_is_SomeI) (use assms in \<open>simp_all flip: rev_map\<close>)
  then show ?thesis by (simp add: lookup_updates map_add_def)
qed

lemma lookup_updates_keys: "dom (lookup (fold (\<lambda>(k, vv). update k vv) us empty)) = fst ` set us"
proof -
  have "lookup empty = Map.empty" by (simp add: fun_eq_iff lookup_empty)
  then show ?thesis by (simp add: lookup_updates dom_map_of_conv_image_fst)
qed

end

lemma ub_Get_Update: "ub_Get (ub_Update ns key vv b) n k = (if n = ns \<and> k = key then Some vv else ub_Get b n k)"
  by (auto simp: ub_Get_def ub_Update_def getOrCreateNsUpdates_def split: option.split)

lemma ub_Get_New: "ub_Get NewUpdateBatch ns key = None"
  by (simp add: ub_Get_def NewUpdateBatch_def)

lemma ub_Exists_Get: "ub_Exists b ns key \<longleftrightarrow> ub_Get b ns key \<noteq> None"
  by (auto simp: ub_Exists_def ub_Get_def split: option.split)

lemma um_Contains_Get: "um_Contains b ns coll key \<longleftrightarrow> um_Get b ns coll key \<noteq> None"
  by (auto simp: um_Contains_def um_Get_def ub_Exists_Get split: option.split)

text \<open>The update of a collection, as the two operations on \<open>UpdateMap\<close> do it.\<close>

definition um_Update :: "string \<Rightarrow> string \<Rightarrow> string \<Rightarrow> VersionedValue \<Rightarrow> UpdateMap \<Rightarrow> UpdateMap" where
  "um_Update ns coll key vv b = put ns (ub_Update coll key vv (getOrCreateNsBatch b ns)) b"

lemma um_ops:
  "um_Delete ns coll key v b = um_Update ns coll key \<lparr>Value = None, vvMetadata = None, vvVersion = v\<rparr> b"
  "um_PutValAndMetadata ns coll key (Some x) m v b
   = Inr (um_Update ns coll key \<lparr>Value = Some x, vvMetadata = m, vvVersion = v\<rparr> b)"
  by (simp_all add: um_Delete_def ub_Delete_def um_Update_def um_PutValAndMetadata_def ub_PutValAndMetadata_def)

lemma um_Get_Update:
  "um_Get (um_Update ns coll key vv b) n c k = (if n = ns \<and> c = coll \<and> k = key then Some vv else um_Get b n c k)"
proof (cases "n = ns")
  case True
  then show ?thesis
    by (cases "map_of b ns") (simp_all add: um_Get_def um_Update_def getOrCreateNsBatch_def ub_Get_Update ub_Get_New)
qed (simp add: um_Get_def um_Update_def)

lemma um_Get_New: "um_Get [] ns coll key = None"
  by (simp add: um_Get_def)

interpretation pub: update_batch NewUpdateBatch "\<lambda>b (ns, key). ub_Get b ns key" "\<lambda>(ns, key). ub_Update ns key"
  by unfold_locales (auto simp: fun_eq_iff ub_Get_Update ub_Get_New split: if_splits)

interpretation hashed: update_batch "[]" "\<lambda>b (ns, coll, key). um_Get b ns coll key"
  "\<lambda>(ns, coll, key). um_Update ns coll key"
  by unfold_locales (auto simp: fun_eq_iff um_Get_Update um_Get_New split: if_splits)

subsection \<open>Iterating over a range of a batch\<close>

text \<open>\<open>sort.SearchStrings\<close>: the binary search of the standard library, between \<open>i\<close> and \<open>j\<close>.\<close>

function search_strings :: "string list \<Rightarrow> string \<Rightarrow> nat \<Rightarrow> nat \<Rightarrow> nat" where
  "search_strings a x i j =
     (if i < j then
        let h = (i + j) div 2
        in if \<not> (x \<le> a ! h) then search_strings a x (h + 1) j else search_strings a x i h
      else i)"
  by auto

termination search_strings
  by (relation "measure (\<lambda>(a, x, i, j). j - i)") auto

declare search_strings.simps [simp del]

definition SearchStrings :: "string list \<Rightarrow> string \<Rightarrow> nat" where
  "SearchStrings a x = search_strings a x 0 (length a)"

definition GetSortedKeys :: "nsUpdates \<Rightarrow> string list" where
  "GetSortedKeys m = sort (map fst m)"

record nsIterator =
  itNs :: string
  itUpdates :: nsUpdates
  sortedKeys :: "string list"
  nextIndex :: nat
  lastIndex :: nat

definition newNsIterator :: "string \<Rightarrow> string \<Rightarrow> string \<Rightarrow> UpdateBatch \<Rightarrow> nsIterator" where
  "newNsIterator ns startKey endKey batch =
     (case map_of batch ns of
        None \<Rightarrow> \<lparr>itNs = [], itUpdates = [], sortedKeys = [], nextIndex = 0, lastIndex = 0\<rparr>
      | Some m \<Rightarrow>
          let keys = GetSortedKeys m
          in \<lparr>itNs = ns, itUpdates = m, sortedKeys = keys,
              nextIndex = (if startKey = [] then 0 else SearchStrings keys startKey),
              lastIndex = (if endKey = [] then length keys else SearchStrings keys endKey)\<rparr>)"

definition it_Next :: "nsIterator \<Rightarrow> (VersionedKV option \<times> nsIterator) go" where
  "it_Next itr =
     (if lastIndex itr \<le> nextIndex itr then Inr (None, itr)
      else let key = sortedKeys itr ! nextIndex itr in
        bindE (deref (map_of (itUpdates itr) key)) (\<lambda>vv.
          Inr (Some \<lparr>vkNamespace = itNs itr, vkKey = key, vkValue = vv\<rparr>, itr\<lparr>nextIndex := nextIndex itr + 1\<rparr>)))"

lemma search_strings_spec:
  assumes "sorted a" "i \<le> j" "j \<le> length a"
    and "\<forall>k < i. a ! k < x" "\<forall>k. j \<le> k \<longrightarrow> k < length a \<longrightarrow> x \<le> a ! k"
  shows "search_strings a x i j \<le> length a \<and> (\<forall>k < search_strings a x i j. a ! k < x) \<and>
    (\<forall>k. search_strings a x i j \<le> k \<longrightarrow> k < length a \<longrightarrow> x \<le> a ! k)"
  using assms
proof (induction a x i j rule: search_strings.induct)
  case (1 a x i j)
  show ?case
  proof (cases "i < j")
    case True
    define h where "h = (i + j) div 2"
    have h: "i \<le> h" "h < j" using True by (auto simp: h_def)
    show ?thesis
    proof (cases "x \<le> a ! h")
      case ge: True
      have eq: "search_strings a x i j = search_strings a x i h"
        using True ge by (subst search_strings.simps) (simp add: h_def [symmetric] Let_def)
      have "\<forall>k. h \<le> k \<longrightarrow> k < length a \<longrightarrow> x \<le> a ! k"
      proof (intro allI impI)
        fix k assume "h \<le> k" "k < length a"
        then have "a ! h \<le> a ! k" by (intro sorted_nth_mono [OF 1(3)])
        then show "x \<le> a ! k" using ge by simp
      qed
      then show ?thesis unfolding eq by (intro 1(2) [OF True h_def]) (use ge h 1(3,5,6) in auto)
    next
      case lt: False
      have eq: "search_strings a x i j = search_strings a x (h + 1) j"
        using True lt by (subst search_strings.simps) (simp add: h_def [symmetric] Let_def)
      have "\<forall>k < h + 1. a ! k < x"
      proof (intro allI impI)
        fix k assume "k < h + 1"
        then have "a ! k \<le> a ! h" using sorted_nth_mono [OF 1(3), of k h] h 1(5) by simp
        then show "a ! k < x" using lt by simp
      qed
      then show ?thesis unfolding eq by (intro 1(1) [OF True h_def]) (use lt h 1(3,5,7) in auto)
    qed
  next
    case False
    then have "search_strings a x i j = i" by (subst search_strings.simps) simp
    then show ?thesis using 1(3-) False by simp
  qed
qed

lemma SearchStrings_spec:
  assumes "sorted a"
  shows "SearchStrings a x \<le> length a \<and> (\<forall>k < SearchStrings a x. a ! k < x) \<and>
    (\<forall>k. SearchStrings a x \<le> k \<longrightarrow> k < length a \<longrightarrow> x \<le> a ! k)"
  using search_strings_spec [OF assms, of 0 "length a" x] by (simp add: SearchStrings_def)

lemma filter_drop:
  assumes "\<forall>k < length ys. P (ys ! k) \<longleftrightarrow> n \<le> k"
  shows "filter P ys = drop n ys"
proof -
  have "filter P (take n ys) = []" using assms by (auto simp: filter_empty_conv in_set_conv_nth)
  moreover have "filter P (drop n ys) = drop n ys"
    using assms by (auto simp: filter_id_conv in_set_conv_nth)
  ultimately show ?thesis by (metis append_Nil append_take_drop_id filter_append)
qed

lemma filter_take:
  assumes "\<forall>k < length ys. P (ys ! k) \<longleftrightarrow> k < n"
  shows "filter P ys = take n ys"
proof -
  have "filter P (take n ys) = take n ys" using assms by (auto simp: filter_id_conv in_set_conv_nth)
  moreover have "filter P (drop n ys) = []"
    using assms by (auto simp: filter_empty_conv in_set_conv_nth)
  ultimately show ?thesis by (metis append_Nil2 append_take_drop_id filter_append)
qed

text \<open>The keys of a range: the start is included, the end is not, and an empty bound is none.\<close>

definition in_range :: "string \<Rightarrow> string \<Rightarrow> string \<Rightarrow> bool" where
  "in_range startKey endKey k \<longleftrightarrow> (startKey = [] \<or> startKey \<le> k) \<and> (endKey = [] \<or> k < endKey)"

lemma range_keys:
  assumes "sorted keys"
  shows "drop (if s = [] then 0 else SearchStrings keys s)
           (take (if e = [] then length keys else SearchStrings keys e) keys) = filter (in_range s e) keys"
proof -
  let ?t = "take (if e = [] then length keys else SearchStrings keys e) keys"
  have t: "filter (\<lambda>k. e = [] \<or> k < e) keys = ?t"
    using SearchStrings_spec [OF assms, of e] by (intro filter_take) (auto; meson leD leI)
  have d: "filter (\<lambda>k. s = [] \<or> s \<le> k) ?t = drop (if s = [] then 0 else SearchStrings keys s) ?t"
    using SearchStrings_spec [OF assms, of s] by (intro filter_drop) (auto; meson leD leI)
  have "filter (in_range s e) keys = filter (\<lambda>k. s = [] \<or> s \<le> k) (filter (\<lambda>k. e = [] \<or> k < e) keys)"
    unfolding filter_filter in_range_def by (rule filter_cong) auto
  then show ?thesis unfolding t d by simp
qed

text \<open>What an iterator has still to give.\<close>

definition it_rest :: "nsIterator \<Rightarrow> VersionedKV list" where
  "it_rest itr = map (\<lambda>key. \<lparr>vkNamespace = itNs itr, vkKey = key, vkValue = the (map_of (itUpdates itr) key)\<rparr>)
     (drop (nextIndex itr) (take (lastIndex itr) (sortedKeys itr)))"

definition it_ok :: "nsIterator \<Rightarrow> bool" where
  "it_ok itr \<longleftrightarrow> lastIndex itr \<le> length (sortedKeys itr) \<and> set (sortedKeys itr) \<subseteq> dom (map_of (itUpdates itr))"

lemma it_Next_rest:
  assumes "it_ok itr"
  shows "\<exists>itr'. it_Next itr = Inr (case it_rest itr of [] \<Rightarrow> None | x # _ \<Rightarrow> Some x, itr') \<and> it_ok itr' \<and>
    it_rest itr' = tl (it_rest itr)"
proof (cases "lastIndex itr \<le> nextIndex itr")
  case True
  then show ?thesis using assms by (simp add: it_Next_def it_rest_def)
next
  case False
  define n where "n = nextIndex itr"
  let ?k = "sortedKeys itr ! n"
  have n: "n < lastIndex itr" "lastIndex itr \<le> length (sortedKeys itr)" using False assms by (simp_all add: n_def it_ok_def)
  then have "?k \<in> dom (map_of (itUpdates itr))"
    using assms nth_mem [of n "sortedKeys itr"] unfolding it_ok_def by (meson less_le_trans subsetD)
  then obtain vv where vv: "map_of (itUpdates itr) ?k = Some vv" by auto
  have d: "drop n (take (lastIndex itr) (sortedKeys itr)) = ?k # drop (Suc n) (take (lastIndex itr) (sortedKeys itr))"
    using n Cons_nth_drop_Suc [of n "take (lastIndex itr) (sortedKeys itr)"] by simp
  show ?thesis
    using False assms vv d by (simp add: it_Next_def it_rest_def it_ok_def n_def [symmetric] Let_def)
qed

lemma newNsIterator_ok: "it_ok (newNsIterator ns s e batch)"
proof (cases "map_of batch ns")
  case (Some m)
  have "sorted (GetSortedKeys m)" by (simp add: GetSortedKeys_def)
  then show ?thesis using Some SearchStrings_spec [of "GetSortedKeys m" e]
    by (auto simp: newNsIterator_def it_ok_def Let_def GetSortedKeys_def dom_map_of_conv_image_fst)
qed (simp add: newNsIterator_def it_ok_def)

lemma newNsIterator_rest:
  "it_rest (newNsIterator ns s e batch) =
   map (\<lambda>k. \<lparr>vkNamespace = ns, vkKey = k, vkValue = the (ub_Get batch ns k)\<rparr>)
     (filter (in_range s e) (GetSortedKeys (getOrCreateNsUpdates batch ns)))"
proof (cases "map_of batch ns")
  case (Some m)
  have "sorted (GetSortedKeys m)" by (simp add: GetSortedKeys_def)
  note r = range_keys [OF this, of s e]
  have g: "ub_Get batch ns k = map_of m k" for k using Some by (simp add: ub_Get_def split: option.split)
  have "it_rest (newNsIterator ns s e batch)
    = map (\<lambda>k. \<lparr>vkNamespace = ns, vkKey = k, vkValue = the (map_of m k)\<rparr>) (filter (in_range s e) (GetSortedKeys m))"
    unfolding r [symmetric] using Some by (simp add: newNsIterator_def it_rest_def Let_def)
  then show ?thesis using Some by (simp add: g getOrCreateNsUpdates_def)
qed (simp add: newNsIterator_def it_rest_def getOrCreateNsUpdates_def GetSortedKeys_def)

end
