(* ===== verification/RangeQuery.thy ===== *)
theory RangeQuery
  imports StateDB
begin

text \<open>
  Range queries under validation (\<open>combined_iterator.go\<close>, \<open>range_query_validator.go\<close>): the iterator that
  shows the state as it will be after the valid transactions before this one, and the comparison of what it
  gives with the results that the simulation recorded.
\<close>

subsection \<open>The database\<close>

text \<open>
  What the validation asks of the state database. A range scan gives its results as a list, which its
  iterator serves one by one.
\<close>

record state_db =
  GetState :: "string \<Rightarrow> string \<Rightarrow> VersionedValue option go"
  GetStateRangeScanIterator :: "string \<Rightarrow> string \<Rightarrow> string \<Rightarrow> VersionedKV list go"
  GetKeyHashVersion :: "string \<Rightarrow> string \<Rightarrow> bytes \<Rightarrow> Height option go"
  GetValueHash :: "string \<Rightarrow> string \<Rightarrow> bytes \<Rightarrow> VersionedValue option go"
  GetStateMetadata :: "string \<Rightarrow> string \<Rightarrow> bytes option go"
  GetPrivateDataMetadataByHash :: "string \<Rightarrow> string \<Rightarrow> bytes \<Rightarrow> bytes option go"
  IsBulkOptimizable :: bool
  LoadCommittedVersions :: "(string \<times> string) list \<Rightarrow> (string \<times> string \<times> bytes) list \<Rightarrow> unit go"

subsection \<open>The combined iterator\<close>

record combinedIterator =
  ciNs :: string
  ciUpdates :: UpdateBatch
  ciEndKey :: string
  includeEndKey :: bool
  dbItr :: "VersionedKV list"
  updatesItr :: nsIterator
  dbItem :: "VersionedKV option"
  updatesItem :: "VersionedKV option"
  endKeyServed :: bool

definition compareKeys :: "VersionedKV option \<Rightarrow> VersionedKV option \<Rightarrow> int" where
  "compareKeys item1 item2 =
     (case item1 of
        None \<Rightarrow> (if item2 = None then 0 else 1)
      | Some a \<Rightarrow>
          (case item2 of
             None \<Rightarrow> -1
           | Some b \<Rightarrow> if vkKey a < vkKey b then -1 else if vkKey a = vkKey b then 0 else 1))"

definition isDelete :: "VersionedKV \<Rightarrow> bool" where
  "isDelete item \<longleftrightarrow> Value (vkValue item) = None"

definition db_Next :: "VersionedKV list \<Rightarrow> VersionedKV option \<times> VersionedKV list" where
  "db_Next l = (case l of [] \<Rightarrow> (None, []) | x # xs \<Rightarrow> (Some x, xs))"

definition newCombinedIterator ::
  "state_db \<Rightarrow> UpdateBatch \<Rightarrow> string \<Rightarrow> string \<Rightarrow> string \<Rightarrow> bool \<Rightarrow> combinedIterator go" where
  "newCombinedIterator db updates ns startKey endKey incl =
     bindE (GetStateRangeScanIterator db ns startKey endKey) (\<lambda>d.
     let u = newNsIterator ns startKey endKey updates;
         (di, d1) = db_Next d in
     bindE (it_Next u) (\<lambda>(ui, u1).
       Inr \<lparr>ciNs = ns, ciUpdates = updates, ciEndKey = endKey, includeEndKey = incl, dbItr = d1,
            updatesItr = u1, dbItem = di, updatesItem = ui, endKeyServed = False\<rparr>))"

definition serveEndKeyIfNeeded :: "state_db \<Rightarrow> combinedIterator \<Rightarrow> (VersionedKV option \<times> combinedIterator) go" where
  "serveEndKeyIfNeeded db itr =
     (if \<not> includeEndKey itr \<or> endKeyServed itr then Inr (None, itr)
      else bindE (case ub_Get (ciUpdates itr) (ciNs itr) (ciEndKey itr) of
                    Some vv \<Rightarrow> Inr (Some vv)
                  | None \<Rightarrow> GetState db (ciNs itr) (ciEndKey itr)) (\<lambda>vv.
        let itr1 = itr\<lparr>endKeyServed := True\<rparr> in
        case vv of
          None \<Rightarrow> Inr (None, itr1)
        | Some x \<Rightarrow>
            let vkv = \<lparr>vkNamespace = ciNs itr, vkKey = ciEndKey itr,
                       vkValue = \<lparr>Value = Value x, vvMetadata = None, vvVersion = vvVersion x\<rparr>\<rparr>
            in Inr (if isDelete vkv then None else Some vkv, itr1)))"

text \<open>One move: the item that is served, or dropped if it is a deletion, and the iterators after it.\<close>

definition ci_move :: "combinedIterator \<Rightarrow> (VersionedKV option \<times> combinedIterator) go" where
  "ci_move itr =
     (let compResult = compareKeys (dbItem itr) (updatesItem itr);
          selectedItem = (if compResult = -1 then dbItem itr else updatesItem itr);
          moveDBItr = (compResult = -1 \<or> compResult = 0);
          moveUpdatesItr = (compResult = 0 \<or> compResult = 1);
          itr1 = (if moveDBItr
                  then (let (di, d1) = db_Next (dbItr itr) in itr\<lparr>dbItem := di, dbItr := d1\<rparr>) else itr)
      in if moveUpdatesItr
         then bindE (it_Next (updatesItr itr1)) (\<lambda>(ui, u1).
                Inr (selectedItem, itr1\<lparr>updatesItem := ui, updatesItr := u1\<rparr>))
         else Inr (selectedItem, itr1))"

text \<open>\<open>Next\<close> calls itself while the selected item is a deletion; every call moves an iterator.\<close>

definition ci_left :: "combinedIterator \<Rightarrow> nat" where
  "ci_left itr = length (dbItr itr) + (if dbItem itr = None then 0 else 1) +
     (lastIndex (updatesItr itr) - nextIndex (updatesItr itr)) + (if updatesItem itr = None then 0 else 1)"

lemma db_Next_left:
  "db_Next l = (x, l') \<Longrightarrow> length l' + (if x = None then 0 else 1) = length l"
  by (auto simp: db_Next_def split: list.splits)

lemma it_Next_left:
  "it_Next i = Inr (x, i') \<Longrightarrow>
   (lastIndex i' - nextIndex i') + (if x = None then 0 else 1) = lastIndex i - nextIndex i"
  by (auto simp: it_Next_def Let_def split: if_splits)

lemma ci_move_left:
  assumes m: "ci_move itr = Inr (sel, itr1)" and ne: "\<not> (dbItem itr = None \<and> updatesItem itr = None)"
  shows "ci_left itr1 < ci_left itr"
proof -
  let ?c = "compareKeys (dbItem itr) (updatesItem itr)"
  obtain di d1 where d: "db_Next (dbItr itr) = (di, d1)" by (cases "db_Next (dbItr itr)")
  note dl = db_Next_left [OF d]
  have c: "?c = -1 \<and> dbItem itr \<noteq> None \<or> ?c = 0 \<and> dbItem itr \<noteq> None \<and> updatesItem itr \<noteq> None
      \<or> ?c = 1 \<and> updatesItem itr \<noteq> None"
    using ne by (auto simp: compareKeys_def split: option.splits)
  then consider "?c = -1" "dbItem itr \<noteq> None" | "?c = 0" "dbItem itr \<noteq> None" "updatesItem itr \<noteq> None"
    | "?c = 1" "updatesItem itr \<noteq> None" by blast
  then show ?thesis
  proof cases
    case 1
    then show ?thesis using m d dl by (auto simp: ci_move_def Let_def ci_left_def)
  next
    case 2
    then obtain ui u1 where u: "it_Next (updatesItr itr) = Inr (ui, u1)" using m d by (auto simp: ci_move_def Let_def)
    show ?thesis using m d dl u it_Next_left [OF u] 2 by (auto simp: ci_move_def Let_def ci_left_def)
  next
    case 3
    then obtain ui u1 where u: "it_Next (updatesItr itr) = Inr (ui, u1)" using m by (auto simp: ci_move_def Let_def)
    show ?thesis using m u it_Next_left [OF u] 3 by (auto simp: ci_move_def Let_def ci_left_def)
  qed
qed

function ci_Next :: "state_db \<Rightarrow> combinedIterator \<Rightarrow> (VersionedKV option \<times> combinedIterator) go" where
  "ci_Next db itr =
     (if dbItem itr = None \<and> updatesItem itr = None then serveEndKeyIfNeeded db itr
      else bindE (ci_move itr) (\<lambda>(sel, itr1).
             bindE (deref sel) (\<lambda>x. if isDelete x then ci_Next db itr1 else Inr (Some x, itr1))))"
  by auto

termination ci_Next
  by (relation "measure (\<lambda>(db, itr). ci_left itr)") (auto dest: ci_move_left)

declare ci_Next.simps [simp del]

subsection \<open>Comparing raw results\<close>

text \<open>\<open>convertToVersionHeight\<close> reads the fields of the version, which panics on nil.\<close>

definition convertToVersionHeight :: "Version option \<Rightarrow> Height go" where
  "convertToVersionHeight v = bindE (deref v) (\<lambda>x. Inr (NewHeight (vBlockNum x) (vTxNum x)))"

text \<open>The loop over the recorded results, with the result that the iterator gave last.\<close>

fun compare_results ::
  "state_db \<Rightarrow> KVRead list \<Rightarrow> VersionedKV option \<Rightarrow> combinedIterator \<Rightarrow> bool go" where
  "compare_results db [] result itr = Inr (result = None)"
| "compare_results db (kvRead # rest) result itr =
     (case result of
        None \<Rightarrow> Inr False
      | Some x \<Rightarrow>
          if vkKey x \<noteq> rKey kvRead then Inr False
          else bindE (convertToVersionHeight (rVersion kvRead)) (\<lambda>h.
            if \<not> AreSame (vvVersion (vkValue x)) (Some h) then Inr False
            else bindE (ci_Next db itr) (\<lambda>(r, itr1). compare_results db rest r itr1)))"

definition rangeQueryResults_validate :: "state_db \<Rightarrow> RangeQueryInfo \<Rightarrow> combinedIterator \<Rightarrow> bool go" where
  "rangeQueryResults_validate db rq itr =
     (let rqResults = (case qReadsInfo rq of Some (RawReads l) \<Rightarrow> l | _ \<Rightarrow> []) in
      bindE (ci_Next db itr) (\<lambda>(result, itr1).
        if rqResults = [] then Inr (result = None) else compare_results db rqResults result itr1))"

subsection \<open>What the iterator has to give\<close>

definition ci_ok :: "combinedIterator \<Rightarrow> bool" where
  "ci_ok itr \<longleftrightarrow> it_ok (updatesItr itr) \<and> (dbItem itr = None \<longrightarrow> dbItr itr = []) \<and>
     (updatesItem itr = None \<longrightarrow> it_rest (updatesItr itr) = [])"

definition opt_cons :: "'a option \<Rightarrow> 'a list \<Rightarrow> 'a list" where
  "opt_cons x xs = (case x of None \<Rightarrow> xs | Some y \<Rightarrow> y # xs)"

definition ci_db :: "combinedIterator \<Rightarrow> VersionedKV list" where
  "ci_db itr = opt_cons (dbItem itr) (dbItr itr)"

definition ci_ups :: "combinedIterator \<Rightarrow> VersionedKV list" where
  "ci_ups itr = opt_cons (updatesItem itr) (it_rest (updatesItr itr))"

text \<open>The merge of the two sources: the update wins, and deletions are left out.\<close>

fun merged :: "VersionedKV list \<Rightarrow> VersionedKV list \<Rightarrow> VersionedKV list" where
  "merged [] us = filter (\<lambda>x. \<not> isDelete x) us"
| "merged (d # ds) [] = filter (\<lambda>x. \<not> isDelete x) (d # ds)"
| "merged (d # ds) (u # us) =
     (if vkKey d < vkKey u then (if isDelete d then merged ds (u # us) else d # merged ds (u # us))
      else if vkKey d = vkKey u then (if isDelete u then merged ds us else u # merged ds us)
      else if isDelete u then merged (d # ds) us else u # merged (d # ds) us)"

lemma merged_Nil2 [simp]: "merged ds [] = filter (\<lambda>x. \<not> isDelete x) ds"
  by (cases ds) simp_all

definition ci_frame :: "combinedIterator \<Rightarrow> combinedIterator \<Rightarrow> bool" where
  "ci_frame itr itr1 \<longleftrightarrow> ciNs itr1 = ciNs itr \<and> ciUpdates itr1 = ciUpdates itr \<and> ciEndKey itr1 = ciEndKey itr \<and>
     includeEndKey itr1 = includeEndKey itr \<and> endKeyServed itr1 = endKeyServed itr"

lemma db_Next_item: "db_Next l = (x, l') \<Longrightarrow> opt_cons x l' = l \<and> (x = None \<longrightarrow> l' = [])"
  by (auto simp: db_Next_def opt_cons_def split: list.splits)

lemma it_Next_item:
  assumes "it_ok i"
  obtains x i' where "it_Next i = Inr (x, i')" "it_ok i'" "opt_cons x (it_rest i') = it_rest i"
    "x = None \<longrightarrow> it_rest i' = []"
  using it_Next_rest [OF assms] by (cases "it_rest i") (auto simp: opt_cons_def)

text \<open>A move takes the head of the merge, and keeps the rest of it.\<close>

lemma ci_move_merged:
  assumes ok: "ci_ok itr" and ne: "\<not> (dbItem itr = None \<and> updatesItem itr = None)"
  obtains x itr1 where "ci_move itr = Inr (Some x, itr1)" "ci_ok itr1" "ci_frame itr itr1"
    "merged (ci_db itr) (ci_ups itr) = (if isDelete x then [] else [x]) @ merged (ci_db itr1) (ci_ups itr1)"
proof -
  obtain di d1 where d: "db_Next (dbItr itr) = (di, d1)" by (cases "db_Next (dbItr itr)")
  note di = db_Next_item [OF d]
  have "it_ok (updatesItr itr)" using ok by (simp add: ci_ok_def)
  then obtain ui u1 where u: "it_Next (updatesItr itr) = Inr (ui, u1)" "it_ok u1"
      "opt_cons ui (it_rest u1) = it_rest (updatesItr itr)" "ui = None \<longrightarrow> it_rest u1 = []"
    by (rule it_Next_item)
  let ?c = "compareKeys (dbItem itr) (updatesItem itr)"
  consider (db) a where "dbItem itr = Some a" "?c = -1" "updatesItem itr = None \<or> (\<exists>b. updatesItem itr = Some b \<and> vkKey a < vkKey b)"
    | (both) a b where "dbItem itr = Some a" "updatesItem itr = Some b" "?c = 0" "vkKey a = vkKey b"
    | (up) b where "updatesItem itr = Some b" "?c = 1" "dbItem itr = None \<or> (\<exists>a. dbItem itr = Some a \<and> vkKey b < vkKey a)"
  proof (cases "dbItem itr")
    case None
    then show ?thesis using ne that(3) by (cases "updatesItem itr") (simp_all add: compareKeys_def)
  next
    case a: (Some a)
    show ?thesis
    proof (cases "updatesItem itr")
      case None
      then show ?thesis using a that(1) by (simp add: compareKeys_def)
    next
      case (Some b)
      then show ?thesis
        using a that
        by (cases "vkKey a" "vkKey b" rule: linorder_cases) (simp_all add: compareKeys_def less_not_sym)
    qed
  qed
  then show ?thesis
  proof cases
    case (db a)
    let ?i = "itr\<lparr>dbItem := di, dbItr := d1\<rparr>"
    have m: "ci_move itr = Inr (Some a, ?i)" using db d by (simp add: ci_move_def Let_def)
    have "ci_db itr = a # ci_db ?i" using db di by (simp add: ci_db_def opt_cons_def)
    moreover have "ci_ups ?i = ci_ups itr" by (simp add: ci_ups_def)
    moreover have "ci_ups itr = [] \<or> (\<exists>b us. ci_ups itr = b # us \<and> vkKey a < vkKey b)"
      using db ok by (auto simp: ci_ups_def opt_cons_def ci_ok_def)
    ultimately have "merged (ci_db itr) (ci_ups itr) = (if isDelete a then [] else [a]) @ merged (ci_db ?i) (ci_ups ?i)"
      by auto
    then show ?thesis using that [OF m] ok di by (simp add: ci_ok_def ci_frame_def)
  next
    case (both a b)
    let ?i = "itr\<lparr>dbItem := di, dbItr := d1, updatesItem := ui, updatesItr := u1\<rparr>"
    have m: "ci_move itr = Inr (Some b, ?i)" using both d u by (simp add: ci_move_def Let_def)
    have "ci_db itr = a # ci_db ?i" using both di by (simp add: ci_db_def opt_cons_def)
    moreover have "ci_ups itr = b # ci_ups ?i" using both u(3) by (simp add: ci_ups_def opt_cons_def)
    ultimately have "merged (ci_db itr) (ci_ups itr) = (if isDelete b then [] else [b]) @ merged (ci_db ?i) (ci_ups ?i)"
      using both(4) by simp
    then show ?thesis using that [OF m] ok di u by (simp add: ci_ok_def ci_frame_def)
  next
    case (up b)
    let ?i = "itr\<lparr>updatesItem := ui, updatesItr := u1\<rparr>"
    have m: "ci_move itr = Inr (Some b, ?i)" using up u by (simp add: ci_move_def Let_def)
    have "ci_db ?i = ci_db itr" by (simp add: ci_db_def)
    moreover have "ci_ups itr = b # ci_ups ?i" using up u(3) by (simp add: ci_ups_def opt_cons_def)
    moreover have "ci_db itr = [] \<or> (\<exists>a ds. ci_db itr = a # ds \<and> vkKey b < vkKey a)"
      using up ok by (auto simp: ci_db_def opt_cons_def ci_ok_def)
    ultimately have "merged (ci_db itr) (ci_ups itr) = (if isDelete b then [] else [b]) @ merged (ci_db ?i) (ci_ups ?i)"
      by auto
    then show ?thesis using that [OF m] ok u by (simp add: ci_ok_def ci_frame_def)
  qed
qed

text \<open>\<open>Next\<close> gives the head of the merge, and the end key once the merge is exhausted.\<close>

lemma ci_Next_merged:
  assumes "ci_ok itr"
  shows "\<exists>itr1. ci_ok itr1 \<and> ci_frame itr itr1 \<and>
    (case merged (ci_db itr) (ci_ups itr) of
       [] \<Rightarrow> ci_Next db itr = serveEndKeyIfNeeded db itr1 \<and> dbItem itr1 = None \<and> updatesItem itr1 = None
     | x # xs \<Rightarrow> ci_Next db itr = Inr (Some x, itr1) \<and> merged (ci_db itr1) (ci_ups itr1) = xs)"
  using assms
proof (induction db itr rule: ci_Next.induct)
  case (1 db itr)
  show ?case
  proof (cases "dbItem itr = None \<and> updatesItem itr = None")
    case True
    then have "merged (ci_db itr) (ci_ups itr) = []"
      using 1(2) by (simp add: ci_ok_def ci_db_def ci_ups_def opt_cons_def)
    moreover have "ci_Next db itr = serveEndKeyIfNeeded db itr" using True by (subst ci_Next.simps) simp
    ultimately show ?thesis using True 1(2) by (auto simp: ci_frame_def)
  next
    case False
    obtain x itr1 where m: "ci_move itr = Inr (Some x, itr1)" "ci_ok itr1" "ci_frame itr itr1"
        "merged (ci_db itr) (ci_ups itr) = (if isDelete x then [] else [x]) @ merged (ci_db itr1) (ci_ups itr1)"
      by (rule ci_move_merged [OF 1(2) False])
    have n: "ci_Next db itr = (if isDelete x then ci_Next db itr1 else Inr (Some x, itr1))"
      using m(1) by (subst ci_Next.simps) (simp only: False if_False bindE_simps prod.case deref_simps)
    show ?thesis
    proof (cases "isDelete x")
      case True
      from 1(1) [OF False m(1) _ _ True m(2)] obtain itr2 where i: "ci_ok itr2" "ci_frame itr1 itr2"
          "case merged (ci_db itr1) (ci_ups itr1) of
             [] \<Rightarrow> ci_Next db itr1 = serveEndKeyIfNeeded db itr2 \<and> dbItem itr2 = None \<and> updatesItem itr2 = None
           | x # xs \<Rightarrow> ci_Next db itr1 = Inr (Some x, itr2) \<and> merged (ci_db itr2) (ci_ups itr2) = xs"
        by auto
      have f: "ci_frame itr itr2" using m(3) i(2) by (simp add: ci_frame_def)
      have e: "ci_Next db itr = ci_Next db itr1" "merged (ci_db itr) (ci_ups itr) = merged (ci_db itr1) (ci_ups itr1)"
        using n m(4) True by simp_all
      show ?thesis unfolding e by (intro exI [of _ itr2] conjI i(1) f i(3))
    next
      case False
      then show ?thesis using n m by (intro exI [of _ itr1]) simp
    qed
  qed
qed

subsection \<open>The results of an iterator\<close>

text \<open>\<open>serves db xs itr\<close>: the calls of \<open>Next\<close> give the items \<open>xs\<close>, and then nil.\<close>

fun serves :: "state_db \<Rightarrow> VersionedKV list \<Rightarrow> combinedIterator \<Rightarrow> bool" where
  "serves db [] itr \<longleftrightarrow> (\<exists>itr1. ci_Next db itr = Inr (None, itr1))"
| "serves db (x # xs) itr \<longleftrightarrow> (\<exists>itr1. ci_Next db itr = Inr (Some x, itr1) \<and> serves db xs itr1)"

lemma ci_Next_served:
  assumes "dbItem itr = None" "updatesItem itr = None" "endKeyServed itr \<or> \<not> includeEndKey itr"
  shows "ci_Next db itr = Inr (None, itr)"
  using assms by (subst ci_Next.simps) (auto simp: serveEndKeyIfNeeded_def)

definition end_value :: "state_db \<Rightarrow> UpdateBatch \<Rightarrow> string \<Rightarrow> string \<Rightarrow> VersionedValue option go" where
  "end_value db u ns k = (case ub_Get u ns k of Some vv \<Rightarrow> Inr (Some vv) | None \<Rightarrow> GetState db ns k)"

definition end_kv :: "string \<Rightarrow> string \<Rightarrow> VersionedValue option \<Rightarrow> VersionedKV option" where
  "end_kv ns k v =
     (case v of
        None \<Rightarrow> None
      | Some x \<Rightarrow> if Value x = None then None
          else Some \<lparr>vkNamespace = ns, vkKey = k, vkValue = \<lparr>Value = Value x, vvMetadata = None, vvVersion = vvVersion x\<rparr>\<rparr>)"

lemma serveEndKey_Inr:
  assumes "includeEndKey itr" "\<not> endKeyServed itr" "end_value db (ciUpdates itr) (ciNs itr) (ciEndKey itr) = Inr v"
  shows "serveEndKeyIfNeeded db itr = Inr (end_kv (ciNs itr) (ciEndKey itr) v, itr\<lparr>endKeyServed := True\<rparr>)"
proof -
  have "serveEndKeyIfNeeded db itr = bindE (end_value db (ciUpdates itr) (ciNs itr) (ciEndKey itr)) (\<lambda>vv.
        let itr1 = itr\<lparr>endKeyServed := True\<rparr> in
        case vv of
          None \<Rightarrow> Inr (None, itr1)
        | Some x \<Rightarrow>
            let vkv = \<lparr>vkNamespace = ciNs itr, vkKey = ciEndKey itr,
                       vkValue = \<lparr>Value = Value x, vvMetadata = None, vvVersion = vvVersion x\<rparr>\<rparr>
            in Inr (if isDelete vkv then None else Some vkv, itr1))"
    unfolding serveEndKeyIfNeeded_def end_value_def by (simp only: assms(1,2) if_False not_True_eq_False simp_thms)
  then show ?thesis using assms(3) by (cases v) (simp_all add: Let_def isDelete_def end_kv_def)
qed

text \<open>The item that the end key adds.\<close>

definition end_item :: "state_db \<Rightarrow> combinedIterator \<Rightarrow> VersionedKV list" where
  "end_item db itr =
     (if \<not> includeEndKey itr \<or> endKeyServed itr then []
      else case end_value db (ciUpdates itr) (ciNs itr) (ciEndKey itr) of
        Inl _ \<Rightarrow> []
      | Inr v \<Rightarrow> (case end_kv (ciNs itr) (ciEndKey itr) v of None \<Rightarrow> [] | Some x \<Rightarrow> [x]))"

lemma end_item_frame: "ci_frame itr itr1 \<Longrightarrow> end_item db itr1 = end_item db itr"
  unfolding end_item_def ci_frame_def by (elim conjE) (simp only:)

lemma end_value_total: "\<exists>v. GetState db ns k = Inr v \<Longrightarrow> \<exists>v. end_value db u ns k = Inr v"
  by (auto simp: end_value_def split: option.split)

lemma serves_end:
  assumes "\<exists>v. GetState db (ciNs itr) (ciEndKey itr) = Inr v" "dbItem itr = None" "updatesItem itr = None"
  shows "serves db (end_item db itr) itr"
proof -
  have n: "ci_Next db itr = serveEndKeyIfNeeded db itr" using assms(2,3) by (subst ci_Next.simps) simp
  show ?thesis
  proof (cases "includeEndKey itr \<and> \<not> endKeyServed itr")
    case False
    then show ?thesis using n by (auto simp: end_item_def serveEndKeyIfNeeded_def)
  next
    case True
    let ?i = "itr\<lparr>endKeyServed := True\<rparr>"
    obtain v where v: "end_value db (ciUpdates itr) (ciNs itr) (ciEndKey itr) = Inr v"
      using end_value_total [OF assms(1)] by blast
    then have "ci_Next db itr = Inr (end_kv (ciNs itr) (ciEndKey itr) v, ?i)" using n serveEndKey_Inr True by simp
    moreover have "ci_Next db ?i = Inr (None, ?i)" by (rule ci_Next_served) (use assms in simp_all)
    ultimately show ?thesis
      using True v by (cases "end_kv (ciNs itr) (ciEndKey itr) v") (simp_all add: end_item_def)
  qed
qed

lemma serves_merged:
  assumes "ci_ok itr" "\<exists>v. GetState db (ciNs itr) (ciEndKey itr) = Inr v"
  shows "serves db (merged (ci_db itr) (ci_ups itr) @ end_item db itr) itr"
  using assms
proof (induction "merged (ci_db itr) (ci_ups itr)" arbitrary: itr)
  case Nil
  from ci_Next_merged [OF Nil(2), of db] Nil(1) obtain itr1 where i: "ci_ok itr1" "ci_frame itr itr1"
      "ci_Next db itr = serveEndKeyIfNeeded db itr1" "dbItem itr1 = None" "updatesItem itr1 = None"
    by (auto split: list.splits)
  have "serves db (end_item db itr1) itr1"
    by (rule serves_end) (use i Nil(3) in \<open>simp_all add: ci_frame_def\<close>)
  moreover have "ci_Next db itr1 = serveEndKeyIfNeeded db itr1" using i by (subst ci_Next.simps) simp
  ultimately have "serves db (end_item db itr1) itr" using i(3) by (cases "end_item db itr1") simp_all
  then show ?case using Nil(1) end_item_frame [OF i(2)] by simp
next
  case (Cons x xs)
  from ci_Next_merged [OF Cons(3), of db, folded Cons(2), unfolded list.case] obtain itr1
    where i: "ci_ok itr1" "ci_frame itr itr1" "ci_Next db itr = Inr (Some x, itr1)"
      "merged (ci_db itr1) (ci_ups itr1) = xs"
    by blast
  have "serves db (xs @ end_item db itr1) itr1"
    using Cons(1) [of itr1] i Cons(4) by (simp add: ci_frame_def)
  then show ?case using i(3) Cons(2) [symmetric] end_item_frame [OF i(2)] by simp
qed

text \<open>The recorded results and what the iterator gives now, compared by key and version.\<close>

definition same_results :: "KVRead list \<Rightarrow> VersionedKV list \<Rightarrow> bool" where
  "same_results rs xs \<longleftrightarrow>
     map (\<lambda>r. (rKey r, NewVersion (rVersion r))) rs = map (\<lambda>x. (vkKey x, vvVersion (vkValue x))) xs"

lemma compare_results_serves:
  assumes "serves db xs itr" "list_all (\<lambda>r. rVersion r \<noteq> None) rs"
  shows "ci_Next db itr = Inr (result, itr1) \<Longrightarrow> compare_results db rs result itr1 = Inr (same_results rs xs)"
  using assms
proof (induction rs arbitrary: xs itr result itr1)
  case Nil
  then show ?case by (cases xs) (auto simp: same_results_def)
next
  case (Cons r rs)
  show ?case
  proof (cases xs)
    case Nil
    then show ?thesis using Cons.prems by (simp add: same_results_def)
  next
    case xs: (Cons x ys)
    obtain v where v: "rVersion r = Some v" using Cons.prems(3) by auto
    have n: "result = Some x" "serves db ys itr1" using Cons.prems(1,2) xs by auto
    obtain q itr2 where q: "ci_Next db itr1 = Inr (q, itr2)" using n(2) by (cases ys) auto
    have "compare_results db rs q itr2 = Inr (same_results rs ys)"
      using Cons.IH [OF q n(2)] Cons.prems(3) by simp
    then show ?thesis
      using n(1) q v xs by (auto simp: convertToVersionHeight_def same_results_def NewVersion_def)
  qed
qed

lemma rangeQueryResults_validate_serves:
  assumes "serves db xs itr" "qReadsInfo rq = Some (RawReads rs)" "list_all (\<lambda>r. rVersion r \<noteq> None) rs"
  shows "rangeQueryResults_validate db rq itr = Inr (same_results rs xs)"
proof -
  obtain result itr1 where n: "ci_Next db itr = Inr (result, itr1)" using assms(1) by (cases xs) auto
  have "rs = [] \<Longrightarrow> (result = None) = same_results rs xs" using assms(1) n by (cases xs) (auto simp: same_results_def)
  then show ?thesis
    using n assms(2) compare_results_serves [OF assms(1,3) n] by (auto simp: rangeQueryResults_validate_def Let_def)
qed

subsection \<open>The merge is the state after the updates\<close>

abbreviation key_sorted :: "VersionedKV list \<Rightarrow> bool" where
  "key_sorted xs \<equiv> sorted_wrt (<) (map vkKey xs)"

lemma set_merged:
  assumes "key_sorted ds" "key_sorted us"
  shows "x \<in> set (merged ds us) \<longleftrightarrow> \<not> isDelete x \<and> (x \<in> set us \<or> x \<in> set ds \<and> vkKey x \<notin> vkKey ` set us)"
  using assms
proof (induction ds us rule: merged.induct)
  case (3 d ds u us)
  have so: "\<forall>y\<in>set ds. vkKey d < vkKey y" "\<forall>y\<in>set us. vkKey u < vkKey y" "key_sorted ds" "key_sorted us"
    using "3.prems" by auto
  consider "vkKey d < vkKey u" | "vkKey d = vkKey u" | "vkKey u < vkKey d" by force
  then show ?case
  proof cases
    case 1
    have "vkKey d \<notin> vkKey ` set (u # us)" using 1 so(2) by fastforce
    then show ?thesis using 1 "3.IH"(1,2) "3.prems"(2) so by (cases "isDelete d") auto
  next
    case 2
    have n: "vkKey y \<noteq> vkKey u" if "y \<in> set ds" for y using that so(1) 2 by force
    have ih: "x \<in> set (merged ds us) \<longleftrightarrow> \<not> isDelete x \<and> (x \<in> set us \<or> x \<in> set ds \<and> vkKey x \<notin> vkKey ` set us)"
      using "3.IH"(3,4) 2 so by (cases "isDelete u") auto
    show ?thesis using 2 ih n by (cases "isDelete u") auto
  next
    case gt: 3
    have n: "vkKey y \<noteq> vkKey u" if "y \<in> set (d # ds)" for y using that so(1) gt by force
    have o: "\<not> vkKey d < vkKey u" "vkKey d \<noteq> vkKey u" using gt by auto
    have ih: "x \<in> set (merged (d # ds) us) \<longleftrightarrow>
        \<not> isDelete x \<and> (x \<in> set us \<or> x \<in> set (d # ds) \<and> vkKey x \<notin> vkKey ` set us)"
      using "3.IH"(5,6) o "3.prems"(1) so by (cases "isDelete u") auto
    show ?thesis using n o ih by (cases "isDelete u") auto
  qed
qed auto

lemma sorted_merged:
  assumes "key_sorted ds" "key_sorted us"
  shows "key_sorted (merged ds us)"
  using assms
proof (induction ds us rule: merged.induct)
  case (3 d ds u us)
  have so: "\<forall>y\<in>set ds. vkKey d < vkKey y" "\<forall>y\<in>set us. vkKey u < vkKey y" "key_sorted ds" "key_sorted us"
    using "3.prems" by auto
  note mem = set_merged
  consider "vkKey d < vkKey u" | "vkKey d = vkKey u" | "vkKey u < vkKey d" by force
  then show ?case
  proof cases
    case 1
    have "vkKey d < vkKey y" if "y \<in> set (merged ds (u # us))" for y
      using that mem [OF so(3) "3.prems"(2)] so(1,2) 1 by (auto intro: less_trans)
    then show ?thesis using 1 3 so by auto
  next
    case 2
    have "vkKey u < vkKey y" if "y \<in> set (merged ds us)" for y
      using that mem [OF so(3,4)] so(1,2) 2 by auto
    then show ?thesis using 2 3 so by auto
  next
    case gt: 3
    have "vkKey u < vkKey y" if "y \<in> set (merged (d # ds) us)" for y
      using that mem [OF "3.prems"(1) so(4)] so(1,2) gt by (auto intro: less_trans)
    then show ?thesis using gt 3 so by auto
  qed
qed (auto simp: sorted_wrt_filter sorted_wrt_map)

text \<open>
  What the code relies on of the database: a lookup succeeds and never finds an entry without a value, and a
  range scan gives the entries of the range in the order of their keys.
\<close>

definition db_ok :: "state_db \<Rightarrow> bool" where
  "db_ok db \<longleftrightarrow>
     (\<forall>ns k. \<exists>v. GetState db ns k = Inr v \<and> (\<forall>x. v = Some x \<longrightarrow> Value x \<noteq> None)) \<and>
     (\<forall>ns s e. \<exists>l. GetStateRangeScanIterator db ns s e = Inr l \<and> key_sorted l \<and>
        (\<forall>x. x \<in> set l \<longleftrightarrow> vkNamespace x = ns \<and> in_range s e (vkKey x) \<and>
           GetState db ns (vkKey x) = Inr (Some (vkValue x))))"

definition ub_wf :: "UpdateBatch \<Rightarrow> bool" where
  "ub_wf b \<longleftrightarrow> (\<forall>ns m. map_of b ns = Some m \<longrightarrow> distinct (map fst m))"

lemma ub_wf_New [simp]: "ub_wf NewUpdateBatch"
  by (simp add: ub_wf_def NewUpdateBatch_def)

lemma ub_wf_Update: "ub_wf b \<Longrightarrow> ub_wf (ub_Update ns k vv b)"
  by (auto simp: ub_wf_def ub_Update_def getOrCreateNsUpdates_def distinct_update split: if_splits option.splits)

text \<open>The state as it will be after the updates.\<close>

definition state_view :: "state_db \<Rightarrow> UpdateBatch \<Rightarrow> string \<Rightarrow> string \<Rightarrow> VersionedValue option" where
  "state_view db u ns k =
     (case end_value db u ns k of
        Inl _ \<Rightarrow> None
      | Inr v \<Rightarrow> (case v of None \<Rightarrow> None | Some x \<Rightarrow> if Value x = None then None else Some x))"

lemma state_view_update: "ub_Get u ns k = Some vv \<Longrightarrow> state_view db u ns k = (if Value vv = None then None else Some vv)"
  by (simp add: state_view_def end_value_def)

lemma state_view_db:
  "db_ok db \<Longrightarrow> ub_Get u ns k = None \<Longrightarrow> state_view db u ns k = x \<longleftrightarrow> GetState db ns k = Inr x"
proof -
  assume a: "db_ok db" "ub_Get u ns k = None"
  obtain v where "GetState db ns k = Inr v" "\<forall>x. v = Some x \<longrightarrow> Value x \<noteq> None" using a(1) unfolding db_ok_def by blast
  then show ?thesis using a(2) by (cases v) (auto simp: state_view_def end_value_def)
qed

definition range_view :: "state_db \<Rightarrow> UpdateBatch \<Rightarrow> string \<Rightarrow> string \<Rightarrow> string \<Rightarrow> bool \<Rightarrow> string set" where
  "range_view db u ns s e incl = {k. (in_range s e k \<or> incl \<and> k = e) \<and> state_view db u ns k \<noteq> None}"

lemma updates_rest:
  assumes "ub_wf u"
  shows "key_sorted (it_rest (newNsIterator ns s e u))"
    and "x \<in> set (it_rest (newNsIterator ns s e u)) \<longleftrightarrow>
      vkNamespace x = ns \<and> in_range s e (vkKey x) \<and> ub_Get u ns (vkKey x) = Some (vkValue x)"
proof -
  have d: "distinct (map fst (getOrCreateNsUpdates u ns))"
    using assms by (auto simp: ub_wf_def getOrCreateNsUpdates_def split: option.split)
  have "sorted_wrt (<) (GetSortedKeys (getOrCreateNsUpdates u ns))"
    using d by (simp add: GetSortedKeys_def strict_sorted_iff)
  then show "key_sorted (it_rest (newNsIterator ns s e u))"
    by (simp add: newNsIterator_rest comp_def sorted_wrt_filter)
  have k: "k \<in> set (GetSortedKeys (getOrCreateNsUpdates u ns)) \<longleftrightarrow> ub_Get u ns k \<noteq> None" for k
  proof (cases "map_of u ns")
    case (Some m)
    then show ?thesis
      using map_of_eq_None_iff [of m k]
      by (cases "map_of m k") (simp_all add: GetSortedKeys_def getOrCreateNsUpdates_def ub_Get_def)
  qed (simp add: GetSortedKeys_def getOrCreateNsUpdates_def ub_Get_def)
  show "x \<in> set (it_rest (newNsIterator ns s e u)) \<longleftrightarrow>
      vkNamespace x = ns \<and> in_range s e (vkKey x) \<and> ub_Get u ns (vkKey x) = Some (vkValue x)"
    using k by (cases x) (auto simp: newNsIterator_rest image_iff)
qed

lemma newCombinedIterator_ok:
  assumes "db_ok db" "ub_wf u"
  obtains itr l where "newCombinedIterator db u ns s e incl = Inr itr" "ci_ok itr"
    "GetStateRangeScanIterator db ns s e = Inr l" "ci_db itr = l" "ci_ups itr = it_rest (newNsIterator ns s e u)"
    "ciNs itr = ns" "ciUpdates itr = u" "ciEndKey itr = e" "includeEndKey itr = incl" "\<not> endKeyServed itr"
proof -
  obtain l where l: "GetStateRangeScanIterator db ns s e = Inr l" using assms(1) unfolding db_ok_def by blast
  obtain di d1 where d: "db_Next l = (di, d1)" by (cases "db_Next l")
  note di = db_Next_item [OF d]
  obtain ui u1 where ui: "it_Next (newNsIterator ns s e u) = Inr (ui, u1)" "it_ok u1"
      "opt_cons ui (it_rest u1) = it_rest (newNsIterator ns s e u)" "ui = None \<longrightarrow> it_rest u1 = []"
    by (rule it_Next_item [OF newNsIterator_ok])
  define itr where "itr = \<lparr>ciNs = ns, ciUpdates = u, ciEndKey = e, includeEndKey = incl, dbItr = d1,
            updatesItr = u1, dbItem = di, updatesItem = ui, endKeyServed = False\<rparr>"
  have "newCombinedIterator db u ns s e incl = Inr itr"
    using l d ui(1) by (simp add: newCombinedIterator_def Let_def itr_def)
  then show ?thesis
    by (rule that) (use l di ui in \<open>simp_all add: itr_def ci_ok_def ci_db_def ci_ups_def\<close>)
qed

lemma merged_view:
  assumes db: "db_ok db" and u: "ub_wf u" and sc: "GetStateRangeScanIterator db ns s e = Inr l"
  defines "us \<equiv> it_rest (newNsIterator ns s e u)"
  shows "key_sorted (merged l us)"
    and "x \<in> set (merged l us) \<longleftrightarrow> vkNamespace x = ns \<and> in_range s e (vkKey x) \<and>
      state_view db u ns (vkKey x) = Some (vkValue x)"
proof -
  have l: "key_sorted l" "\<And>x. x \<in> set l \<longleftrightarrow> vkNamespace x = ns \<and> in_range s e (vkKey x) \<and>
      GetState db ns (vkKey x) = Inr (Some (vkValue x))"
    using db sc unfolding db_ok_def by (metis sum.inject(2))+
  have us: "key_sorted us" "\<And>x. x \<in> set us \<longleftrightarrow>
      vkNamespace x = ns \<and> in_range s e (vkKey x) \<and> ub_Get u ns (vkKey x) = Some (vkValue x)"
    unfolding us_def by (rule updates_rest [OF u])+
  show "key_sorted (merged l us)" by (rule sorted_merged [OF l(1) us(1)])
  have k: "vkKey x \<in> vkKey ` set us" if "in_range s e (vkKey x)" "ub_Get u ns (vkKey x) = Some vv" for vv
  proof -
    have "\<lparr>vkNamespace = ns, vkKey = vkKey x, vkValue = vv\<rparr> \<in> set us" using us(2) that by simp
    then show ?thesis by (intro image_eqI [where x = "\<lparr>vkNamespace = ns, vkKey = vkKey x, vkValue = vv\<rparr>"]) simp_all
  qed
  have nk: "vkKey x \<notin> vkKey ` set us" if "ub_Get u ns (vkKey x) = None" using us(2) that by auto
  note m = set_merged [OF l(1) us(1), of x]
  show "x \<in> set (merged l us) \<longleftrightarrow> vkNamespace x = ns \<and> in_range s e (vkKey x) \<and>
      state_view db u ns (vkKey x) = Some (vkValue x)"
  proof (cases "ub_Get u ns (vkKey x)")
    case None
    have "\<not> isDelete x" if "GetState db ns (vkKey x) = Inr (Some (vkValue x))"
      using db that unfolding db_ok_def isDelete_def by (metis sum.inject(2))
    then show ?thesis using m nk [OF None] us(2) [of x] l(2) [of x] None state_view_db [OF db None] by auto
  next
    case (Some vv)
    then show ?thesis
      using m k us(2) [of x] l(2) [of x] state_view_update [OF Some, of db] by (auto simp: isDelete_def)
  qed
qed

text \<open>
  The items that the iterator serves are the entries of the state after the updates, in the order of the
  keys: those in the range and, if it is included, the end key.
\<close>

definition view_item :: "state_db \<Rightarrow> UpdateBatch \<Rightarrow> string \<Rightarrow> VersionedKV \<Rightarrow> bool" where
  "view_item db u ns x \<longleftrightarrow> (\<exists>vv. state_view db u ns (vkKey x) = Some vv \<and> vvVersion (vkValue x) = vvVersion vv)"

lemma end_item_view:
  assumes "db_ok db" "\<not> endKeyServed itr" "ciNs itr = ns" "ciUpdates itr = u" "ciEndKey itr = e"
  shows "vkKey ` set (end_item db itr) = {k. includeEndKey itr \<and> k = e \<and> state_view db u ns k \<noteq> None}"
    and "\<forall>x\<in>set (end_item db itr). view_item db u ns x" and "key_sorted (end_item db itr)"
proof -
  obtain v where v: "end_value db u ns e = Inr v"
    using end_value_total assms(1) unfolding db_ok_def by metis
  then show "vkKey ` set (end_item db itr) = {k. includeEndKey itr \<and> k = e \<and> state_view db u ns k \<noteq> None}"
    and "\<forall>x\<in>set (end_item db itr). view_item db u ns x" and "key_sorted (end_item db itr)"
    using assms(2-5)
    by (auto simp: end_item_def end_kv_def state_view_def view_item_def split: option.splits if_splits)
qed

lemma view_items:
  assumes db: "db_ok db" and u: "ub_wf u" and e: "incl \<longrightarrow> e \<noteq> []"
    and i: "newCombinedIterator db u ns s e incl = Inr itr"
  obtains xs where "serves db xs itr" "key_sorted xs" "vkKey ` set xs = range_view db u ns s e incl"
    "\<forall>x\<in>set xs. view_item db u ns x"
proof -
  obtain itr' l where it: "newCombinedIterator db u ns s e incl = Inr itr'" "ci_ok itr'"
      "GetStateRangeScanIterator db ns s e = Inr l" "ci_db itr' = l" "ci_ups itr' = it_rest (newNsIterator ns s e u)"
      "ciNs itr' = ns" "ciUpdates itr' = u" "ciEndKey itr' = e" "includeEndKey itr' = incl" "\<not> endKeyServed itr'"
    by (rule newCombinedIterator_ok [OF db u])
  have eq: "itr' = itr" using it(1) i by simp
  let ?m = "merged (ci_db itr) (ci_ups itr)"
  note m = merged_view [OF db u it(3), folded it(4,5), unfolded eq]
  note en = end_item_view [OF db it(10) it(6-8), unfolded eq]
  have "\<exists>v. GetState db (ciNs itr) (ciEndKey itr) = Inr v" using db unfolding db_ok_def by blast
  then have 1: "serves db (?m @ end_item db itr) itr" using serves_merged it(2) eq by blast
  have lt: "vkKey x < e" if "x \<in> set ?m" "incl" for x using m(2) [of x] that e by (auto simp: in_range_def)
  have ek: "vkKey y = e \<and> incl" if "y \<in> set (end_item db itr)" for y using en(1) it(9) eq that by blast
  have 2: "key_sorted (?m @ end_item db itr)"
    using m(1) en(3) lt ek by (auto simp: sorted_wrt_append)
  have "vkKey ` set ?m = {k. in_range s e k \<and> state_view db u ns k \<noteq> None}"
  proof (intro set_eqI iffI)
    fix k assume "k \<in> {k. in_range s e k \<and> state_view db u ns k \<noteq> None}"
    then obtain vv where "in_range s e k" "state_view db u ns k = Some vv" by auto
    then have "\<lparr>vkNamespace = ns, vkKey = k, vkValue = vv\<rparr> \<in> set ?m" using m(2) by simp
    then show "k \<in> vkKey ` set ?m" by (intro image_eqI [where x = "\<lparr>vkNamespace = ns, vkKey = k, vkValue = vv\<rparr>"]) simp_all
  qed (use m(2) in auto)
  then have 3: "vkKey ` set (?m @ end_item db itr) = range_view db u ns s e incl"
    using en(1) it(9) eq by (auto simp: range_view_def image_Un)
  have "\<forall>x\<in>set (?m @ end_item db itr). view_item db u ns x" using m(2) en(2) by (auto simp: view_item_def)
  then show ?thesis using that 1 2 3 by blast
qed

text \<open>The entries of a range of the state, by key and version.\<close>

definition range_entries ::
  "state_db \<Rightarrow> UpdateBatch \<Rightarrow> string \<Rightarrow> string \<Rightarrow> string \<Rightarrow> bool \<Rightarrow> (string \<times> Height option) list" where
  "range_entries db u ns s e incl =
     map (\<lambda>k. (k, vvVersion (the (state_view db u ns k)))) (sorted_list_of_set (range_view db u ns s e incl))"

lemma view_entries:
  assumes "key_sorted xs" "vkKey ` set xs = range_view db u ns s e incl" "\<forall>x\<in>set xs. view_item db u ns x"
  shows "map (\<lambda>x. (vkKey x, vvVersion (vkValue x))) xs = range_entries db u ns s e incl"
proof -
  have "sorted_list_of_set (range_view db u ns s e incl) = map vkKey xs"
    using assms(1) unfolding assms(2) [symmetric]
    by (metis list.set_map sorted_list_of_set.idem_if_sorted_distinct strict_sorted_iff)
  then show ?thesis using assms(3) by (auto simp: range_entries_def view_item_def)
qed

subsection \<open>A database that holds a table\<close>

definition table_db :: "VersionedKV list \<Rightarrow> state_db" where
  "table_db l =
     \<lparr>GetState = (\<lambda>ns k. Inr (map_option vkValue (find (\<lambda>x. vkNamespace x = ns \<and> vkKey x = k) l))),
      GetStateRangeScanIterator = (\<lambda>ns s e. Inr (filter (\<lambda>x. vkNamespace x = ns \<and> in_range s e (vkKey x)) l)),
      GetKeyHashVersion = (\<lambda>_ _ _. Inr None), GetValueHash = (\<lambda>_ _ _. Inr None),
      GetStateMetadata = (\<lambda>_ _. Inr None), GetPrivateDataMetadataByHash = (\<lambda>_ _ _. Inr None),
      IsBulkOptimizable = False, LoadCommittedVersions = (\<lambda>_ _. Inr ())\<rparr>"

lemma find_key:
  assumes "distinct (map vkKey l)" "x \<in> set l"
  shows "find (\<lambda>y. vkNamespace y = vkNamespace x \<and> vkKey y = vkKey x) l = Some x"
  using assms by (induction l) (auto simp: image_iff)

lemma find_keyD:
  "find (\<lambda>y. vkNamespace y = ns \<and> vkKey y = k) l = Some z \<Longrightarrow> z \<in> set l \<and> vkNamespace z = ns \<and> vkKey z = k"
  by (metis (mono_tags, lifting) find_Some_iff nth_mem)

lemma table_db_ok:
  assumes "key_sorted l" "list_all (\<lambda>x. Value (vkValue x) \<noteq> None) l"
  shows "db_ok (table_db l)"
proof -
  have d: "distinct (map vkKey l)" using assms(1) by (simp add: strict_sorted_iff)
  have mem: "x \<in> set l \<longleftrightarrow> GetState (table_db l) (vkNamespace x) (vkKey x) = Inr (Some (vkValue x))" for x
  proof
    assume "x \<in> set l"
    then show "GetState (table_db l) (vkNamespace x) (vkKey x) = Inr (Some (vkValue x))"
      using find_key [OF d] by (simp add: table_db_def)
  next
    assume "GetState (table_db l) (vkNamespace x) (vkKey x) = Inr (Some (vkValue x))"
    then obtain z where z: "find (\<lambda>y. vkNamespace y = vkNamespace x \<and> vkKey y = vkKey x) l = Some z" "vkValue z = vkValue x"
      by (auto simp: table_db_def)
    then have "z = x" using find_keyD [OF z(1)] by (intro VersionedKV.equality) simp_all
    then show "x \<in> set l" using find_keyD [OF z(1)] by simp
  qed
  show ?thesis
    unfolding db_ok_def
  proof (intro conjI allI)
    fix ns k
    show "\<exists>v. GetState (table_db l) ns k = Inr v \<and> (\<forall>x. v = Some x \<longrightarrow> Value x \<noteq> None)"
      using find_keyD [of ns k l] assms(2)
      by (cases "find (\<lambda>y. vkNamespace y = ns \<and> vkKey y = k) l") (auto simp: table_db_def list_all_iff)
  next
    fix ns s e
    let ?f = "filter (\<lambda>x. vkNamespace x = ns \<and> in_range s e (vkKey x)) l"
    have "GetStateRangeScanIterator (table_db l) ns s e = Inr ?f" by (simp add: table_db_def)
    moreover have "key_sorted ?f" using assms(1) by (simp add: sorted_wrt_map sorted_wrt_filter)
    moreover have "x \<in> set ?f \<longleftrightarrow> vkNamespace x = ns \<and> in_range s e (vkKey x) \<and>
        GetState (table_db l) ns (vkKey x) = Inr (Some (vkValue x))" for x
      using mem [of x] by auto
    ultimately show "\<exists>f. GetStateRangeScanIterator (table_db l) ns s e = Inr f \<and> key_sorted f \<and>
        (\<forall>x. x \<in> set f \<longleftrightarrow> vkNamespace x = ns \<and> in_range s e (vkKey x) \<and>
           GetState (table_db l) ns (vkKey x) = Inr (Some (vkValue x)))" by blast
  qed
qed

end
