(* ===== verification/Merkle.thy ===== *)
theory Merkle
  imports RangeQuery "HOL-Library.Sublist"
begin

text \<open>
  The results of a range query as a Merkle tree (\<open>query_results_helper.go\<close>), and the validation of a query
  against the summary of such a tree (\<open>range_query_validator.go\<close>). The hash function and the marshalling of
  results are a parameter, the record \<open>hash_env\<close>.

  A level of the tree is a natural number; in the code it is a \<open>uint32\<close>, and no level is above the number of
  results. A level that is not in the map of the code is empty here. A loop that does not return is None.
\<close>

record hash_env =
  Hash :: "bytes \<Rightarrow> bytes option"
  marshalQueryReads :: "KVRead list \<Rightarrow> bytes option"

subsection \<open>The tree\<close>

record merkleTree =
  tree :: "nat \<Rightarrow> bytes list"
  maxLevel :: nat
  mtMaxDegree :: u32

definition newMerkleTree :: "u32 \<Rightarrow> merkleTree go" where
  "newMerkleTree d =
     (if d < 2 then Inl (Err ''maxDegree should not be less than 2 in the merkle tree'')
      else Inr \<lparr>tree = (\<lambda>_. []), maxLevel = 1, mtMaxDegree = d\<rparr>)"

definition computeCombinedHash :: "hash_env \<Rightarrow> bytes list \<Rightarrow> bytes option" where
  "computeCombinedHash he hashes = Hash he (concat hashes)"

definition push_level :: "nat \<Rightarrow> bytes \<Rightarrow> merkleTree \<Rightarrow> merkleTree" where
  "push_level cur h m = m\<lparr>tree := (tree m)(cur := [], cur + 1 := tree m (cur + 1) @ [h])\<rparr>"

text \<open>The loop of \<open>update\<close>: the error, if a hash cannot be computed, and the tree.\<close>

partial_function (option) update_loop :: "hash_env \<Rightarrow> nat \<Rightarrow> merkleTree \<Rightarrow> (go_err option \<times> merkleTree) option" where
  "update_loop he cur m =
     (if of_nat (length (tree m cur)) \<le> mtMaxDegree m then Some (None, m)
      else case computeCombinedHash he (tree m cur) of
        None \<Rightarrow> Some (Some (Err ''hash''), m)
      | Some h \<Rightarrow>
          update_loop he (cur + 1)
            ((push_level cur h m)\<lparr>maxLevel := (if maxLevel m < cur + 1 then cur + 1 else maxLevel m)\<rparr>))"

definition mt_update :: "hash_env \<Rightarrow> bytes \<Rightarrow> merkleTree \<Rightarrow> (go_err option \<times> merkleTree) option" where
  "mt_update he h m = update_loop he 1 (m\<lparr>tree := (tree m)(1 := tree m 1 @ [h])\<rparr>)"

text \<open>The loop of \<open>done\<close>, up to the highest level.\<close>

function done_loop :: "hash_env \<Rightarrow> nat \<Rightarrow> merkleTree \<Rightarrow> go_err option \<times> merkleTree" where
  "done_loop he cur m =
     (if cur < maxLevel m then
        (case tree m cur of
           [] \<Rightarrow> done_loop he (cur + 1) m
         | [h] \<Rightarrow> done_loop he (cur + 1) (push_level cur h m)
         | hs \<Rightarrow>
             (case computeCombinedHash he hs of
                None \<Rightarrow> (Some (Err ''hash''), m)
              | Some h \<Rightarrow> done_loop he (cur + 1) (push_level cur h m)))
      else (None, m))"
  by pat_completeness auto

termination done_loop
  by (relation "measure (\<lambda>(he, cur, m). maxLevel m - cur)") (auto simp: push_level_def)

declare done_loop.simps [simp del]

definition mt_done :: "hash_env \<Rightarrow> merkleTree \<Rightarrow> go_err option \<times> merkleTree" where
  "mt_done he m =
     (case done_loop he 1 m of
        (Some e, m1) \<Rightarrow> (Some e, m1)
      | (None, m1) \<Rightarrow>
          let finalHashes = tree m1 (maxLevel m1) in
          if mtMaxDegree m1 < of_nat (length finalHashes) then
            (let m2 = m1\<lparr>tree := (tree m1)(maxLevel m1 := []), maxLevel := maxLevel m1 + 1\<rparr>
             in case computeCombinedHash he finalHashes of
                  None \<Rightarrow> (Some (Err ''hash''), m2)
                | Some h \<Rightarrow> (None, m2\<lparr>tree := (tree m2)(maxLevel m2 := [h])\<rparr>))
          else (None, m1))"

definition getSummery :: "merkleTree \<Rightarrow> QueryReadsMerkleSummary" where
  "getSummery m = \<lparr>MaxDegree = mtMaxDegree m, MaxLevel = of_nat (maxLevel m), MaxLevelHashes = tree m (maxLevel m)\<rparr>"

definition mt_isEmpty :: "merkleTree \<Rightarrow> bool" where
  "mt_isEmpty m \<longleftrightarrow> maxLevel m = 1 \<and> length (tree m (maxLevel m)) = 0"

subsection \<open>Feeding it with results\<close>

record RangeQueryResultsHelper =
  pendingResults :: "KVRead list"
  hMt :: "merkleTree option"
  hMaxDegree :: u32
  hashingEnabled :: bool

definition NewRangeQueryResultsHelper :: "bool \<Rightarrow> u32 \<Rightarrow> RangeQueryResultsHelper go" where
  "NewRangeQueryResultsHelper enableHashing d =
     bindE (if enableHashing then bindE (newMerkleTree d) (\<lambda>m. Inr (Some m)) else Inr None) (\<lambda>t.
       Inr \<lparr>pendingResults = [], hMt = t, hMaxDegree = d, hashingEnabled = enableHashing\<rparr>)"

text \<open>The error of the tree's update is dropped.\<close>

definition processPendingResults ::
  "hash_env \<Rightarrow> RangeQueryResultsHelper \<Rightarrow> (go_err option \<times> RangeQueryResultsHelper) option" where
  "processPendingResults he h =
     (case marshalQueryReads he (pendingResults h) of
        None \<Rightarrow> Some (Some (Err ''marshal''), h)
      | Some b \<Rightarrow>
          let h1 = h\<lparr>pendingResults := []\<rparr> in
          (case Hash he b of
             None \<Rightarrow> Some (Some (Err ''hash''), h1)
           | Some x \<Rightarrow>
               (case hMt h1 of
                  None \<Rightarrow> Some (Some NilDeref, h1)
                | Some m \<Rightarrow>
                    (case mt_update he x m of
                       None \<Rightarrow> None
                     | Some (_, m1) \<Rightarrow> Some (None, h1\<lparr>hMt := Some m1\<rparr>)))))"

definition AddResult ::
  "hash_env \<Rightarrow> KVRead \<Rightarrow> RangeQueryResultsHelper \<Rightarrow> (go_err option \<times> RangeQueryResultsHelper) option" where
  "AddResult he r h =
     (let h1 = h\<lparr>pendingResults := pendingResults h @ [r]\<rparr> in
      if hashingEnabled h1 \<and> hMaxDegree h1 < of_nat (length (pendingResults h1))
      then processPendingResults he h1 else Some (None, h1))"

text \<open>\<open>Done\<close>: the results that are not hashed, and the summary of the tree, or an error.\<close>

definition Done :: "hash_env \<Rightarrow> RangeQueryResultsHelper \<Rightarrow> (KVRead list \<times> QueryReadsMerkleSummary option) go option" where
  "Done he h =
     (if \<not> hashingEnabled h then Some (Inr (pendingResults h, None))
      else case hMt h of
        None \<Rightarrow> Some (Inl NilDeref)
      | Some m \<Rightarrow>
          if mt_isEmpty m then Some (Inr (pendingResults h, None))
          else (case (if pendingResults h \<noteq> [] then processPendingResults he h else Some (None, h)) of
                  None \<Rightarrow> None
                | Some (Some e, h1) \<Rightarrow> Some (Inl e)
                | Some (None, h1) \<Rightarrow>
                    (case hMt h1 of
                       None \<Rightarrow> Some (Inl NilDeref)
                     | Some m1 \<Rightarrow> Some (Inr (pendingResults h1, Some (getSummery (snd (mt_done he m1))))))))"

definition GetMerkleSummary :: "RangeQueryResultsHelper \<Rightarrow> QueryReadsMerkleSummary option go" where
  "GetMerkleSummary h =
     (if \<not> hashingEnabled h then Inr None
      else bindE (deref (hMt h)) (\<lambda>m. Inr (Some (getSummery m))))"

subsection \<open>Validating against a summary\<close>

definition ms_Equal :: "QueryReadsMerkleSummary \<Rightarrow> QueryReadsMerkleSummary option \<Rightarrow> bool" where
  "ms_Equal ms another =
     (case another of
        None \<Rightarrow> False
      | Some a \<Rightarrow> MaxDegree ms = MaxDegree a \<and> MaxLevel ms = MaxLevel a \<and>
                  length (MaxLevelHashes ms) = length (MaxLevelHashes a) \<and>
                  list_all2 (=) (MaxLevelHashes ms) (MaxLevelHashes a))"

definition newProtoVersion :: "Height option \<Rightarrow> Version option" where
  "newProtoVersion h = map_option (\<lambda>x. \<lparr>vBlockNum = BlockNum x, vTxNum = TxNum x\<rparr>) h"

definition NewKVRead :: "string \<Rightarrow> Height option \<Rightarrow> KVRead" where
  "NewKVRead key v = \<lparr>rKey = key, rVersion = newProtoVersion v, rValue = None, IsRead = False, rTxid = []\<rparr>"

text \<open>
  The comparison after a result has been added: the summary so far, the recorded one and the last index
  that matched. The result is the new last index, or the verdict. An index out of range panics.
\<close>

definition match_summary ::
  "QueryReadsMerkleSummary \<Rightarrow> QueryReadsMerkleSummary \<Rightarrow> int \<Rightarrow> (bool + int) go" where
  "match_summary merkle inMerkle lastMatched =
     (if MaxLevel merkle < MaxLevel inMerkle then Inr (Inr lastMatched)
      else if lastMatched = int (length (MaxLevelHashes merkle)) - 1 then Inr (Inr lastMatched)
      else if length (MaxLevelHashes inMerkle) < length (MaxLevelHashes merkle) then Inr (Inl False)
      else let i = lastMatched + 1 in
        if i < int (length (MaxLevelHashes merkle)) \<and> i < int (length (MaxLevelHashes inMerkle))
        then Inr (if MaxLevelHashes merkle ! nat i \<noteq> MaxLevelHashes inMerkle ! nat i then Inl False else Inr i)
        else Inl (Panic ''index out of range''))"

partial_function (option) hash_loop ::
  "hash_env \<Rightarrow> state_db \<Rightarrow> QueryReadsMerkleSummary \<Rightarrow> combinedIterator \<Rightarrow> RangeQueryResultsHelper \<Rightarrow> int \<Rightarrow>
   bool go option" where
  "hash_loop he db inMerkle itr h lastMatched =
     (case ci_Next db itr of
        Inl e \<Rightarrow> Some (Inl e)
      | Inr (None, itr1) \<Rightarrow>
          (case Done he h of
             None \<Rightarrow> None
           | Some (Inl e) \<Rightarrow> Some (Inl e)
           | Some (Inr (_, merkle)) \<Rightarrow> Some (Inr (ms_Equal inMerkle merkle)))
      | Inr (Some x, itr1) \<Rightarrow>
          (case AddResult he (NewKVRead (vkKey x) (vvVersion (vkValue x))) h of
             None \<Rightarrow> None
           | Some (Some NilDeref, h1) \<Rightarrow> Some (Inl NilDeref)
           | Some (_, h1) \<Rightarrow>
               (case GetMerkleSummary h1 of
                  Inl e \<Rightarrow> Some (Inl e)
                | Inr None \<Rightarrow> Some (Inl NilDeref)
                | Inr (Some merkle) \<Rightarrow>
                    (case match_summary merkle inMerkle lastMatched of
                       Inl e \<Rightarrow> Some (Inl e)
                     | Inr (Inl b) \<Rightarrow> Some (Inr b)
                     | Inr (Inr l) \<Rightarrow> hash_loop he db inMerkle itr1 h1 l))))"

text \<open>
  \<open>validateRangeQuery\<close> drops the error of \<open>init\<close>, which leaves the helper nil: the first use of it panics.
\<close>

definition rangeQueryHash_validate ::
  "hash_env \<Rightarrow> state_db \<Rightarrow> QueryReadsMerkleSummary \<Rightarrow> combinedIterator \<Rightarrow> bool go option" where
  "rangeQueryHash_validate he db inMerkle itr =
     (case NewRangeQueryResultsHelper True (MaxDegree inMerkle) of
        Inl _ \<Rightarrow> Some (bindE (ci_Next db itr) (\<lambda>_. Inl NilDeref))
      | Inr h \<Rightarrow> hash_loop he db inMerkle itr h (-1))"

subsection \<open>The tree grows\<close>

definition mt_wf :: "merkleTree \<Rightarrow> bool" where
  "mt_wf m \<longleftrightarrow> 2 \<le> mtMaxDegree m \<and> 1 \<le> maxLevel m \<and> (\<forall>l > maxLevel m. tree m l = [])"

text \<open>The top of the tree moves up, or keeps its level and gets more hashes.\<close>

definition grows :: "merkleTree \<Rightarrow> merkleTree \<Rightarrow> bool" where
  "grows m m1 \<longleftrightarrow> maxLevel m < maxLevel m1 \<or>
     maxLevel m = maxLevel m1 \<and> prefix (tree m (maxLevel m)) (tree m1 (maxLevel m1))"

lemma grows_refl [simp]: "grows m m"
  by (simp add: grows_def)

lemma grows_trans [trans]: "grows a b \<Longrightarrow> grows b c \<Longrightarrow> grows a c"
  by (auto simp: grows_def intro: prefix_order.trans)

lemma push_level_simps [simp]:
  "maxLevel (push_level cur h m) = maxLevel m" "mtMaxDegree (push_level cur h m) = mtMaxDegree m"
  "push_level cur h m\<lparr>maxLevel := maxLevel m\<rparr> = push_level cur h m"
  by (simp_all add: push_level_def)

lemma push_level_grows: "cur < maxLevel m \<Longrightarrow> grows m (push_level cur h m)"
  by (auto simp: grows_def push_level_def)

lemma push_level_wf: "cur < maxLevel m \<Longrightarrow> mt_wf m \<Longrightarrow> mt_wf (push_level cur h m)"
  by (auto simp: mt_wf_def push_level_def)

definition mt_step :: "merkleTree \<Rightarrow> merkleTree \<Rightarrow> bool" where
  "mt_step m m1 \<longleftrightarrow> mt_wf m1 \<and> grows m m1 \<and> maxLevel m1 \<le> maxLevel m + 1 \<and> mtMaxDegree m1 = mtMaxDegree m"

lemma mt_step_refl: "mt_wf m \<Longrightarrow> mt_step m m"
  by (simp add: mt_step_def)

text \<open>The loop of \<open>update\<close> returns: above the highest level there is never more than one hash.\<close>

lemma update_loop_step:
  "mt_wf m \<Longrightarrow> cur \<le> maxLevel m \<Longrightarrow> \<exists>e m1. update_loop he cur m = Some (e, m1) \<and> mt_step m m1"
proof (induction "maxLevel m - cur" arbitrary: cur m)
  case 0
  then have cur: "cur = maxLevel m" by simp
  have one: "(1::u32) \<le> mtMaxDegree m" using 0 by (auto simp: mt_wf_def intro: order_trans [rotated])
  show ?case
  proof (cases "of_nat (length (tree m cur)) \<le> mtMaxDegree m")
    case True
    then show ?thesis using 0 by (subst update_loop.simps) (simp add: mt_step_refl)
  next
    case False
    show ?thesis
    proof (cases "computeCombinedHash he (tree m cur)")
      case None
      then show ?thesis using False 0 by (subst update_loop.simps) (simp add: mt_step_refl)
    next
      case (Some h)
      let ?m = "(push_level cur h m)\<lparr>maxLevel := cur + 1\<rparr>"
      have "update_loop he cur m = update_loop he (cur + 1) ?m"
        using False Some cur by (subst update_loop.simps) simp
      moreover have "tree ?m (cur + 1) = [h]" using 0 cur by (simp add: push_level_def mt_wf_def)
      then have "update_loop he (cur + 1) ?m = Some (None, ?m)"
        using one by (subst update_loop.simps) simp
      moreover have "mt_step m ?m"
        using 0 cur by (auto simp: mt_step_def grows_def mt_wf_def push_level_def)
      ultimately show ?thesis by auto
    qed
  qed
next
  case (Suc n)
  then have cur: "cur < maxLevel m" by simp
  show ?case
  proof (cases "of_nat (length (tree m cur)) \<le> mtMaxDegree m \<or> computeCombinedHash he (tree m cur) = None")
    case True
    then show ?thesis using Suc.prems by (subst update_loop.simps) (auto simp: mt_step_refl)
  next
    case False
    then obtain h where h: "computeCombinedHash he (tree m cur) = Some h" by auto
    let ?m = "push_level cur h m"
    have "update_loop he cur m = update_loop he (cur + 1) ?m"
      using False h cur by (subst update_loop.simps) simp
    moreover have "n = maxLevel ?m - (cur + 1)" using Suc.hyps(2) by simp
    then obtain e m1 where "update_loop he (cur + 1) ?m = Some (e, m1)" "mt_step ?m m1"
      using Suc.hyps(1) [of ?m "cur + 1"] push_level_wf [OF cur Suc.prems(1)] cur by auto
    ultimately show ?thesis
      using push_level_grows [OF cur] by (auto simp: mt_step_def intro: grows_trans)
  qed
qed

lemma mt_update_step: "mt_wf m \<Longrightarrow> \<exists>e m1. mt_update he h m = Some (e, m1) \<and> mt_step m m1"
proof -
  assume wf: "mt_wf m"
  let ?m = "m\<lparr>tree := (tree m)(1 := tree m 1 @ [h])\<rparr>"
  have 1: "mt_wf ?m" "1 \<le> maxLevel ?m" "grows m ?m" using wf by (auto simp: mt_wf_def grows_def)
  obtain e m1 where "update_loop he 1 ?m = Some (e, m1)" "mt_step ?m m1" using update_loop_step [OF 1(1,2)] by blast
  moreover from this(2) have "mt_step m m1" using 1(3) by (auto simp: mt_step_def intro: grows_trans)
  ultimately show ?thesis unfolding mt_update_def by blast
qed

lemma done_loop_step:
  "mt_wf m \<Longrightarrow> mt_wf (snd (done_loop he cur m)) \<and> grows m (snd (done_loop he cur m)) \<and>
   maxLevel (snd (done_loop he cur m)) = maxLevel m \<and> mtMaxDegree (snd (done_loop he cur m)) = mtMaxDegree m"
proof (induction he cur m rule: done_loop.induct)
  case (1 he cur m)
  show ?case
  proof (cases "cur < maxLevel m")
    case True
    note p = push_level_wf [OF True 1(4)] push_level_grows [OF True]
    show ?thesis
    proof (cases "tree m cur" rule: list.exhaust [case_names Nil Cons])
      case Nil
      then show ?thesis using 1(1) True 1(4) by (subst (1 2 3 4) done_loop.simps) simp
    next
      case (Cons h t)
      consider "t = []" | "t \<noteq> []" "computeCombinedHash he (h # t) = None"
        | x where "t \<noteq> []" "computeCombinedHash he (h # t) = Some x" by auto
      then show ?thesis
      proof cases
        case 1
        then have "done_loop he cur m = done_loop he (cur + 1) (push_level cur h m)"
          using Cons True by (subst done_loop.simps) simp
        then show ?thesis using "1.IH"(2) [OF True Cons _] 1 p by (auto intro: grows_trans)
      next
        case 2
        then have "done_loop he cur m = (Some (Err ''hash''), m)"
          using Cons True by (subst done_loop.simps) (cases t; simp)
        then show ?thesis using "1.prems" by simp
      next
        case 3
        then have "done_loop he cur m = done_loop he (cur + 1) (push_level cur x m)"
          using Cons True by (subst done_loop.simps) (cases t; simp)
        moreover obtain y ys where "t = y # ys" using 3 by (cases t) auto
        ultimately show ?thesis using "1.IH"(3) [OF True Cons] 3 p grows_trans [OF p(2) [of x]] by auto
      qed
    qed
  next
    case False
    then show ?thesis using 1(4) by (subst (1 2 3 4) done_loop.simps) simp
  qed
qed

lemma mt_done_grows:
  assumes "mt_wf m"
  shows "grows m (snd (mt_done he m)) \<and> maxLevel (snd (mt_done he m)) \<le> maxLevel m + 1"
proof -
  obtain e m1 where d: "done_loop he 1 m = (e, m1)" by (cases "done_loop he 1 m")
  have "grows m m1" "maxLevel m1 = maxLevel m" using done_loop_step [OF assms, of he 1] d by simp_all
  then show ?thesis
    using d by (auto simp: mt_done_def Let_def grows_def split: option.splits)
qed

subsection \<open>Adding results\<close>

abbreviation tree_of :: "RangeQueryResultsHelper \<Rightarrow> merkleTree" where
  "tree_of h \<equiv> the (hMt h)"

definition helper_wf :: "RangeQueryResultsHelper \<Rightarrow> bool" where
  "helper_wf h \<longleftrightarrow> hashingEnabled h \<and> hMt h \<noteq> None \<and> mt_wf (tree_of h) \<and> mtMaxDegree (tree_of h) = hMaxDegree h"

definition helper_step :: "RangeQueryResultsHelper \<Rightarrow> RangeQueryResultsHelper \<Rightarrow> bool" where
  "helper_step h h1 \<longleftrightarrow> helper_wf h1 \<and> mt_step (tree_of h) (tree_of h1)"

lemma New_helper_wf:
  assumes "NewRangeQueryResultsHelper True d = Inr h"
  shows "helper_wf h" "maxLevel (tree_of h) = 1" "tree (tree_of h) 1 = []" "pendingResults h = []"
  using assms
  by (auto simp: NewRangeQueryResultsHelper_def newMerkleTree_def helper_wf_def mt_wf_def not_less
      split: if_splits)

lemma processPendingResults_step:
  assumes "helper_wf h"
  shows "\<exists>e h1. processPendingResults he h = Some (e, h1) \<and> e \<noteq> Some NilDeref \<and> helper_step h h1"
proof -
  obtain m where m: "hMt h = Some m" "mt_wf m" using assms by (auto simp: helper_wf_def)
  have 1: "helper_step h h" "helper_step h (h\<lparr>pendingResults := []\<rparr>)"
    using assms by (auto simp: helper_step_def helper_wf_def mt_step_refl)
  show ?thesis
  proof (cases "marshalQueryReads he (pendingResults h)")
    case b: (Some b)
    show ?thesis
    proof (cases "Hash he b")
      case (Some x)
      obtain e m1 where u: "mt_update he x m = Some (e, m1)" "mt_step m m1" using mt_update_step [OF m(2)] by blast
      have "helper_step h (h\<lparr>pendingResults := [], hMt := Some m1\<rparr>)"
        using u(2) assms m by (auto simp: helper_step_def helper_wf_def mt_step_def)
      then show ?thesis using b Some u m by (simp add: processPendingResults_def)
    qed (use b 1 in \<open>simp add: processPendingResults_def\<close>)
  qed (use 1 in \<open>simp add: processPendingResults_def\<close>)
qed

lemma AddResult_step:
  assumes "helper_wf h"
  shows "\<exists>e h1. AddResult he r h = Some (e, h1) \<and> e \<noteq> Some NilDeref \<and> helper_step h h1"
proof -
  let ?h = "h\<lparr>pendingResults := pendingResults h @ [r]\<rparr>"
  have h: "helper_wf ?h" "helper_step h ?h" "tree_of ?h = tree_of h"
    using assms by (auto simp: helper_wf_def helper_step_def mt_step_refl)
  then show ?thesis
    using processPendingResults_step [OF h(1), of he]
    by (auto simp: AddResult_def Let_def helper_step_def)
qed

text \<open>Adding one result after the other; the errors are dropped, as the validation drops them.\<close>

fun add_results :: "hash_env \<Rightarrow> KVRead list \<Rightarrow> RangeQueryResultsHelper \<Rightarrow> RangeQueryResultsHelper option" where
  "add_results he [] h = Some h"
| "add_results he (r # rs) h = (case AddResult he r h of None \<Rightarrow> None | Some (_, h1) \<Rightarrow> add_results he rs h1)"

text \<open>What the simulation records of the results \<open>rs\<close>.\<close>

definition results_summary :: "hash_env \<Rightarrow> u32 \<Rightarrow> KVRead list \<Rightarrow> (KVRead list \<times> QueryReadsMerkleSummary option) go option" where
  "results_summary he d rs =
     (case NewRangeQueryResultsHelper True d of
        Inl e \<Rightarrow> Some (Inl e)
      | Inr h \<Rightarrow> (case add_results he rs h of None \<Rightarrow> None | Some h1 \<Rightarrow> Done he h1))"

lemma add_results_step:
  "helper_wf h \<Longrightarrow> \<exists>h1. add_results he rs h = Some h1 \<and> helper_wf h1 \<and> grows (tree_of h) (tree_of h1) \<and>
     maxLevel (tree_of h1) \<le> maxLevel (tree_of h) + length rs"
proof (induction rs arbitrary: h)
  case (Cons r rs)
  obtain e h1 where a: "AddResult he r h = Some (e, h1)" "helper_step h h1" using AddResult_step [OF Cons.prems] by blast
  have h1: "helper_wf h1" "grows (tree_of h) (tree_of h1)" "maxLevel (tree_of h1) \<le> maxLevel (tree_of h) + 1"
    using a(2) by (auto simp: helper_step_def mt_step_def)
  show ?case using Cons.IH [OF h1(1)] a(1) h1 by (auto intro: grows_trans)
qed simp

lemma Done_returns: "helper_wf h \<Longrightarrow> \<exists>r. Done he h = Some r"
  using processPendingResults_step [of h he]
  by (auto simp: Done_def helper_step_def helper_wf_def split: option.splits if_splits)

lemma Done_grows:
  assumes wf: "helper_wf h" and d: "Done he h = Some (Inr (p, Some ms))"
  obtains m where "ms = getSummery m" "grows (tree_of h) m" "maxLevel m \<le> maxLevel (tree_of h) + 2"
proof -
  obtain e h1 where q: "(if pendingResults h \<noteq> [] then processPendingResults he h else Some (None, h)) = Some (e, h1)"
      "helper_step h h1"
    using processPendingResults_step [OF wf, of he] wf
    by (cases "pendingResults h = []") (auto simp: helper_step_def helper_wf_def mt_step_refl)
  have h1: "helper_wf h1" "mt_step (tree_of h) (tree_of h1)" using q(2) by (simp_all add: helper_step_def)
  have ms: "ms = getSummery (snd (mt_done he (tree_of h1)))"
    using d wf h1(1) unfolding Done_def q(1)
    by (cases e) (auto simp: helper_wf_def split: if_splits option.splits)
  have "mt_wf (tree_of h1)" using h1(1) by (simp add: helper_wf_def)
  from mt_done_grows [OF this, of he] h1(2)
  show ?thesis by (intro that [OF ms]) (auto simp: mt_step_def intro: grows_trans)
qed

subsection \<open>The validation as a run over the results\<close>

abbreviation read_of :: "VersionedKV \<Rightarrow> KVRead" where
  "read_of x \<equiv> NewKVRead (vkKey x) (vvVersion (vkValue x))"

fun hash_run ::
  "hash_env \<Rightarrow> QueryReadsMerkleSummary \<Rightarrow> VersionedKV list \<Rightarrow> RangeQueryResultsHelper \<Rightarrow> int \<Rightarrow> bool go option" where
  "hash_run he ms [] h l =
     (case Done he h of
        None \<Rightarrow> None | Some (Inl e) \<Rightarrow> Some (Inl e) | Some (Inr (_, merkle)) \<Rightarrow> Some (Inr (ms_Equal ms merkle)))"
| "hash_run he ms (x # xs) h l =
     (case AddResult he (read_of x) h of
        None \<Rightarrow> None
      | Some (_, h1) \<Rightarrow>
          (case match_summary (getSummery (tree_of h1)) ms l of
             Inl e \<Rightarrow> Some (Inl e)
           | Inr (Inl b) \<Rightarrow> Some (Inr b)
           | Inr (Inr l1) \<Rightarrow> hash_run he ms xs h1 l1))"

lemma hash_loop_run:
  "serves db xs itr \<Longrightarrow> helper_wf h \<Longrightarrow> hash_loop he db ms itr h l = hash_run he ms xs h l"
proof (induction xs arbitrary: itr h l)
  case Nil
  then show ?case by (subst hash_loop.simps) auto
next
  case (Cons x xs)
  obtain itr1 where n: "ci_Next db itr = Inr (Some x, itr1)" "serves db xs itr1" using Cons.prems(1) by auto
  obtain e h1 where a: "AddResult he (read_of x) h = Some (e, h1)" "e \<noteq> Some NilDeref" "helper_step h h1"
    using AddResult_step [OF Cons.prems(2)] by blast
  have wf: "helper_wf h1" using a(3) by (simp add: helper_step_def)
  have g: "GetMerkleSummary h1 = Inr (Some (getSummery (tree_of h1)))"
    using wf by (auto simp: GetMerkleSummary_def helper_wf_def)
  have e: "e = None \<or> (\<exists>x. e = Some x \<and> x \<noteq> NilDeref)" using a(2) by (cases e) auto
  show ?case
    using e n(1) a(1) g Cons.IH [OF n(2) wf]
    by (subst hash_loop.simps) (auto split: go_err.splits sum.splits)
qed

lemma ms_Equal_iff [simp]: "ms_Equal ms o1 \<longleftrightarrow> o1 = Some ms"
  by (auto simp: ms_Equal_def list.rel_eq split: option.splits)

text \<open>The last index that matched is below the hashes so far at the level of the recorded summary.\<close>

definition matched_ok :: "merkleTree \<Rightarrow> merkleTree \<Rightarrow> int \<Rightarrow> bool" where
  "matched_ok M m l \<longleftrightarrow> -1 \<le> l \<and> (maxLevel m < maxLevel M \<longrightarrow> l = -1) \<and>
     (maxLevel m = maxLevel M \<longrightarrow> l < int (length (tree m (maxLevel m))))"

lemma matched_ok_grows:
  "matched_ok M m l \<Longrightarrow> grows m m1 \<Longrightarrow> grows m1 M \<Longrightarrow> matched_ok M m1 l"
  by (auto simp: matched_ok_def grows_def dest: prefix_length_le)

lemma match_summary_grows:
  assumes ok: "matched_ok M m l" and g: "grows m M" and b: "maxLevel M < 2 ^ 32"
  obtains l1 where "match_summary (getSummery m) (getSummery M) l = Inr (Inr l1)" "matched_ok M m l1"
proof (cases "maxLevel m < maxLevel M")
  case True
  then have "(of_nat (maxLevel m) :: u32) < of_nat (maxLevel M)" using b by (simp add: of_nat_word_less_iff take_bit_nat_eq_self)
  then show ?thesis using that [OF _ ok] by (simp add: match_summary_def getSummery_def)
next
  case False
  then have e: "maxLevel m = maxLevel M" and p: "prefix (tree m (maxLevel m)) (tree M (maxLevel M))"
    using g by (auto simp: grows_def)
  show ?thesis
  proof (cases "l = int (length (tree m (maxLevel m))) - 1")
    case True
    then show ?thesis using that [OF _ ok] e by (simp add: match_summary_def getSummery_def)
  next
    case ne: False
    then have l: "-1 \<le> l" "l + 1 < int (length (tree m (maxLevel m)))" using ok e by (auto simp: matched_ok_def)
    then have i: "nat (l + 1) < length (tree m (maxLevel m))" by auto
    have le: "length (tree m (maxLevel m)) \<le> length (tree M (maxLevel M))" using p by (rule prefix_length_le)
    have eq: "tree m (maxLevel m) ! nat (l + 1) = tree M (maxLevel M) ! nat (l + 1)"
      using p i by (auto simp: prefix_def nth_append)
    have "match_summary (getSummery m) (getSummery M) l = Inr (Inr (l + 1))"
      using e l le eq ne by (simp add: match_summary_def getSummery_def Let_def)
    then show ?thesis by (rule that) (use l e in \<open>simp add: matched_ok_def\<close>)
  qed
qed

lemma hash_run_complete:
  assumes "helper_wf h" "add_results he (map read_of xs) h = Some h1" "Done he h1 = Some (Inr (p, Some (getSummery M)))"
    "grows (tree_of h1) M" "matched_ok M (tree_of h) l" "maxLevel M < 2 ^ 32"
  shows "hash_run he (getSummery M) xs h l = Some (Inr True)"
  using assms(1,2,5)
proof (induction xs arbitrary: h l)
  case Nil
  then show ?case using assms(3) by simp
next
  case (Cons x xs)
  obtain e h2 where a: "AddResult he (read_of x) h = Some (e, h2)" "helper_step h h2"
    using AddResult_step [OF Cons.prems(1)] by blast
  have h2: "helper_wf h2" "grows (tree_of h) (tree_of h2)" using a(2) by (auto simp: helper_step_def mt_step_def)
  have r: "add_results he (map read_of xs) h2 = Some h1" using Cons.prems(2) a(1) by simp
  have g: "grows (tree_of h2) M" using add_results_step [OF h2(1)] r assms(4) by (metis grows_trans option.inject)
  obtain l1 where l: "match_summary (getSummery (tree_of h2)) (getSummery M) l = Inr (Inr l1)" "matched_ok M (tree_of h2) l1"
    using match_summary_grows [OF matched_ok_grows [OF Cons.prems(3) h2(2) g] g assms(6)] .
  show ?case using a(1) l(1) Cons.IH [OF h2(1) r l(2)] by simp
qed

lemma hash_run_sound:
  "helper_wf h \<Longrightarrow> hash_run he ms xs h l = Some (Inr True) \<Longrightarrow>
   \<exists>h1 p. add_results he (map read_of xs) h = Some h1 \<and> Done he h1 = Some (Inr (p, Some ms))"
proof (induction xs arbitrary: h l)
  case Nil
  then show ?case by (auto split: option.splits sum.splits)
next
  case (Cons x xs)
  obtain e h1 where a: "AddResult he (read_of x) h = Some (e, h1)" "helper_step h h1"
    using AddResult_step [OF Cons.prems(1)] by blast
  have "helper_wf h1" using a(2) by (simp add: helper_step_def)
  moreover obtain l1 where "hash_run he ms xs h1 l1 = Some (Inr True)"
  proof (cases "match_summary (getSummery (tree_of h1)) ms l")
    case (Inr v)
    then show ?thesis
      using Cons.prems(2) a(1) that by (cases v) (auto simp: match_summary_def Let_def split: if_splits)
  qed (use Cons.prems(2) a(1) in simp)
  ultimately show ?case using Cons.IH a(1) by simp
qed

lemma hash_run_returns: "helper_wf h \<Longrightarrow> \<exists>r. hash_run he ms xs h l = Some r"
proof (induction xs arbitrary: h l)
  case Nil
  then show ?case using Done_returns [OF Nil, of he] by (auto split: sum.splits)
next
  case (Cons x xs)
  obtain e h1 where a: "AddResult he (read_of x) h = Some (e, h1)" "helper_step h h1"
    using AddResult_step [OF Cons.prems] by blast
  then show ?case using Cons.IH [of h1] by (auto simp: helper_step_def split: sum.splits)
qed

lemma hash_validate_run:
  assumes "serves db xs itr" "NewRangeQueryResultsHelper True (MaxDegree ms) = Inr h"
  shows "rangeQueryHash_validate he db ms itr = hash_run he ms xs h (-1)"
  using assms(2) hash_loop_run [OF assms(1) New_helper_wf(1) [OF assms(2)]] by (simp add: rangeQueryHash_validate_def)

text \<open>The results that were simulated are not rejected.\<close>

lemma hash_validate_complete:
  assumes "serves db xs itr" "length xs + 3 < 2 ^ 32"
    "results_summary he (MaxDegree ms) (map read_of xs) = Some (Inr (p, Some ms))"
  shows "rangeQueryHash_validate he db ms itr = Some (Inr True)"
proof (cases "NewRangeQueryResultsHelper True (MaxDegree ms)")
  case (Inr h)
  note h = New_helper_wf [OF Inr]
  obtain h1 where a: "add_results he (map read_of xs) h = Some h1" "helper_wf h1"
      "maxLevel (tree_of h1) \<le> 1 + length xs"
    using add_results_step [OF h(1), of he "map read_of xs"] h(2) by auto
  have d: "Done he h1 = Some (Inr (p, Some ms))" using Inr a(1) assms(3) by (simp add: results_summary_def)
  obtain m where m: "ms = getSummery m" "grows (tree_of h1) m" "maxLevel m \<le> maxLevel (tree_of h1) + 2"
    using Done_grows [OF a(2) d] .
  have "hash_run he (getSummery m) xs h (-1) = Some (Inr True)"
    by (rule hash_run_complete [OF h(1) a(1) d [unfolded m(1)] m(2)])
      (use m(3) a(3) assms(2) h(2,3) in \<open>auto simp: matched_ok_def\<close>)
  then show ?thesis using hash_validate_run [OF assms(1) Inr] m(1) by simp
qed (use assms(3) in \<open>simp add: results_summary_def\<close>)

text \<open>C8. A range query that was recorded as a Merkle summary passes validation if and only if the summary of the
  results that the iterator gives now is the recorded one: comparing the tree with the summary while it is
  being built never rejects the results that were simulated.
\<close>

theorem hash_validate_exact:
  assumes "serves db xs itr" "length xs + 3 < 2 ^ 32"
  shows "rangeQueryHash_validate he db ms itr = Some (Inr True) \<longleftrightarrow>
    (\<exists>p. results_summary he (MaxDegree ms) (map read_of xs) = Some (Inr (p, Some ms)))"
proof (cases "NewRangeQueryResultsHelper True (MaxDegree ms)")
  case (Inl e)
  then show ?thesis
    using assms(1) by (cases xs) (auto simp: rangeQueryHash_validate_def results_summary_def)
next
  case (Inr h)
  have "\<exists>p. results_summary he (MaxDegree ms) (map read_of xs) = Some (Inr (p, Some ms))"
    if "rangeQueryHash_validate he db ms itr = Some (Inr True)"
    using hash_run_sound [OF New_helper_wf(1) [OF Inr]] that Inr
    by (fastforce simp: hash_validate_run [OF assms(1) Inr] results_summary_def)
  then show ?thesis using hash_validate_complete [OF assms] by blast
qed

text \<open>C34. Building a Merkle tree over results returns, whatever the results, the hash function and the maximum
  degree are, and so does the validation against a summary.
\<close>

theorem results_summary_returns:
  "(\<exists>r. results_summary he d rs = Some r) \<and> (serves db xs itr \<longrightarrow> (\<exists>r. rangeQueryHash_validate he db ms itr = Some r))"
proof (intro conjI impI)
  show "\<exists>r. results_summary he d rs = Some r"
  proof (cases "NewRangeQueryResultsHelper True d")
    case (Inr h)
    obtain h1 where "add_results he rs h = Some h1" "helper_wf h1"
      using add_results_step [OF New_helper_wf(1) [OF Inr]] by blast
    then show ?thesis using Inr Done_returns by (simp add: results_summary_def)
  qed (simp add: results_summary_def)
next
  assume "serves db xs itr"
  then show "\<exists>r. rangeQueryHash_validate he db ms itr = Some r"
    using hash_loop_run hash_run_returns New_helper_wf(1)
    by (cases "NewRangeQueryResultsHelper True (MaxDegree ms)") (auto simp: rangeQueryHash_validate_def)
qed

subsection \<open>A run that panics\<close>

definition total_env :: "hash_env \<Rightarrow> bool" where
  "total_env he \<longleftrightarrow> (\<forall>b. Hash he b \<noteq> None) \<and> (\<forall>rs. marshalQueryReads he rs \<noteq> None)"

lemma total_envE:
  assumes "total_env he"
  obtains H M where "Hash he = (\<lambda>b. Some (H b))" "marshalQueryReads he = (\<lambda>rs. Some (M rs))"
  using that [of "\<lambda>b. the (Hash he b)" "\<lambda>rs. the (marshalQueryReads he rs)"] assms
  by (auto simp: total_env_def fun_eq_iff)

subsection \<open>What is kept of the results\<close>

text \<open>No level but \<open>cur\<close> has more hashes than the maximum degree.\<close>

definition mt_bounded :: "nat \<Rightarrow> merkleTree \<Rightarrow> bool" where
  "mt_bounded cur m \<longleftrightarrow> mtMaxDegree m < -1 \<and>
     (\<forall>l. length (tree m l) \<le> unat (mtMaxDegree m) + 1) \<and> (\<forall>l. l \<noteq> cur \<longrightarrow> length (tree m l) \<le> unat (mtMaxDegree m))"

text \<open>A tree at level \<open>cur\<close> of an update: there are hashes at the top.\<close>

definition mt_full :: "nat \<Rightarrow> merkleTree \<Rightarrow> bool" where
  "mt_full cur m \<longleftrightarrow> mt_bounded cur m \<and> tree m 0 = [] \<and> tree m (maxLevel m) \<noteq> []"

lemma mt_bounded_length:
  assumes "mt_bounded cur m"
  shows "of_nat (length (tree m l)) \<le> mtMaxDegree m \<longleftrightarrow> length (tree m l) \<le> unat (mtMaxDegree m)"
proof -
  have "unat (mtMaxDegree m) < unat (-1 :: u32)" using assms unfolding mt_bounded_def word_less_nat_alt by blast
  then have "unat (mtMaxDegree m) + 1 < 2 ^ 32" by (simp add: unsigned_minus_1_eq_mask mask_eq_exp_minus_1)
  moreover have "length (tree m l) \<le> unat (mtMaxDegree m) + 1"
    using assms unfolding mt_bounded_def by blast
  ultimately have "unat (of_nat (length (tree m l)) :: u32) = length (tree m l)"
    by (simp add: unat_of_nat take_bit_nat_eq_self)
  then show ?thesis by (simp add: word_le_nat_alt)
qed

lemma mt_bounded_fits:
  assumes "mt_bounded cur m" "length (tree m cur) \<le> unat (mtMaxDegree m)"
  shows "mt_bounded l m"
proof -
  have "length (tree m k) \<le> unat (mtMaxDegree m)" for k
    using assms by (cases "k = cur") (simp_all add: mt_bounded_def)
  then show ?thesis using assms(1) by (simp add: mt_bounded_def)
qed

lemma mt_bounded_push: "mt_bounded cur m \<Longrightarrow> mt_bounded (cur + 1) (push_level cur h m)"
  by (auto simp: mt_bounded_def push_level_def)

lemma update_loop_full:
  assumes "update_loop he cur m = Some r"
  shows "total_env he \<longrightarrow> mt_full cur m \<longrightarrow> 0 < cur \<longrightarrow> cur \<le> maxLevel m \<longrightarrow> mt_full 0 (snd r)"
proof (rule update_loop.raw_induct [where
      P = "\<lambda>he cur m r. total_env he \<longrightarrow> mt_full cur m \<longrightarrow> 0 < cur \<longrightarrow> cur \<le> maxLevel m \<longrightarrow> mt_full 0 (snd r)",
      OF _ assms], intro impI, goal_cases)
  case (1 update_loop he cur m r)
  obtain H M where he: "Hash he = (\<lambda>b. Some (H b))" "marshalQueryReads he = (\<lambda>rs. Some (M rs))"
    using 1(3) by (rule total_envE)
  have b: "mt_bounded cur m" using 1(4) by (simp add: mt_full_def)
  show ?case
  proof (cases "length (tree m cur) \<le> unat (mtMaxDegree m)")
    case True
    then show ?thesis using 1(2,4) mt_bounded_fits [OF b True] by (auto simp: mt_bounded_length [OF b] mt_full_def)
  next
    case False
    let ?m = "(push_level cur (H (concat (tree m cur))) m)
      \<lparr>maxLevel := if maxLevel m < cur + 1 then cur + 1 else maxLevel m\<rparr>"
    have "mt_full (cur + 1) ?m"
      using 1(4-6) mt_bounded_push [OF b] by (auto simp: mt_full_def mt_bounded_def push_level_def)
    moreover have "update_loop he (cur + 1) ?m = Some r"
      using 1(2) False by (simp add: mt_bounded_length [OF b] computeCombinedHash_def he)
    ultimately show ?thesis using 1(1) [of he "cur + 1" ?m r] 1(3) by simp
  qed
qed

lemma mt_wf_degree: "mt_wf m \<Longrightarrow> 2 \<le> unat (mtMaxDegree m)"
  by (simp add: mt_wf_def word_le_nat_alt)

lemma mt_update_full:
  assumes "total_env he" "mt_wf m" "mt_bounded 0 m" "tree m 0 = []" "mt_isEmpty m \<or> tree m (maxLevel m) \<noteq> []"
    "mt_update he h m = Some r"
  shows "mt_full 0 (snd r)"
proof -
  let ?m = "m\<lparr>tree := (tree m)(1 := tree m 1 @ [h])\<rparr>"
  have "mt_bounded 1 m" using mt_bounded_fits [OF assms(3)] assms(4) by simp
  moreover have "length (tree m 1) \<le> unat (mtMaxDegree m)" using assms(3) by (simp add: mt_bounded_def)
  ultimately have "mt_full 1 ?m" using assms(4,5) by (auto simp: mt_full_def mt_bounded_def mt_isEmpty_def)
  moreover have "update_loop he 1 ?m = Some r" using assms(6) by (simp add: mt_update_def)
  ultimately show ?thesis using update_loop_full [of he 1 ?m r] assms(1,2) by (simp add: mt_wf_def)
qed

lemma done_loop_full:
  "total_env he \<Longrightarrow> mt_full cur m \<Longrightarrow> 0 < cur \<Longrightarrow> cur \<le> maxLevel m \<Longrightarrow>
   fst (done_loop he cur m) = None \<and> mt_full (maxLevel m) (snd (done_loop he cur m))"
proof (induction he cur m rule: done_loop.induct)
  case (1 he cur m)
  obtain H M where he: "Hash he = (\<lambda>b. Some (H b))" "marshalQueryReads he = (\<lambda>rs. Some (M rs))"
    using 1(4) by (rule total_envE)
  have b: "mt_bounded cur m" using 1(5) by (simp add: mt_full_def)
  have p: "mt_full (cur + 1) (push_level cur h m)" if "cur < maxLevel m" for h
    using 1(5,6) that mt_bounded_push [OF b] by (auto simp: mt_full_def push_level_def)
  show ?case
  proof (cases "cur < maxLevel m")
    case True
    show ?thesis
    proof (cases "tree m cur")
      case Nil
      have "mt_full (cur + 1) m" using Nil 1(5) mt_bounded_fits [OF b] by (simp add: mt_full_def)
      then show ?thesis using "1.IH"(1) [OF True Nil] "1.prems"(1) True Nil by (subst (1 2) done_loop.simps) simp
    next
      case (Cons h t)
      show ?thesis
      proof (cases t)
        case Nil
        then show ?thesis
          using "1.IH"(2) [OF True Cons Nil "1.prems"(1) p [OF True]] True Cons by (subst (1 2) done_loop.simps) simp
      next
        case t: (Cons y ys)
        let ?h = "H (concat (h # y # ys))"
        have c: "computeCombinedHash he (h # y # ys) = Some ?h" by (simp add: computeCombinedHash_def he)
        then have "computeCombinedHash he (h # t) = Some ?h" using t by simp
        then show ?thesis
          using "1.IH"(3) [OF True Cons t _ "1.prems"(1) p [OF True]] True Cons t c
          by (subst (1 2) done_loop.simps) simp
      qed
    qed
  next
    case False
    then have "cur = maxLevel m" using 1(7) by simp
    then show ?thesis using 1(5) by (subst (1 2) done_loop.simps) simp
  qed
qed

lemma mt_done_full:
  assumes "total_env he" "mt_full 0 m" "mt_wf m"
  shows "mt_full 0 (snd (mt_done he m)) \<and> mtMaxDegree (snd (mt_done he m)) = mtMaxDegree m"
proof -
  obtain H M where he: "Hash he = (\<lambda>b. Some (H b))" "marshalQueryReads he = (\<lambda>rs. Some (M rs))"
    using assms(1) by (rule total_envE)
  have "mt_full 1 m" using assms(2) mt_bounded_fits [of 0 m] by (auto simp: mt_full_def)
  then obtain m1 where d: "done_loop he 1 m = (None, m1)" "mt_full (maxLevel m) m1"
    using done_loop_full [OF assms(1), of 1 m] assms(3) by (cases "done_loop he 1 m") (auto simp: mt_wf_def)
  have m1: "mt_wf m1" "maxLevel m1 = maxLevel m" "mtMaxDegree m1 = mtMaxDegree m"
    using done_loop_step [OF assms(3), of he 1] d(1) by simp_all
  have b: "mt_bounded (maxLevel m) m1" using d(2) by (simp add: mt_full_def)
  have two: "Suc 0 \<le> unat (mtMaxDegree m)" using mt_wf_degree [OF assms(3)] by simp
  show ?thesis
  proof (cases "length (tree m1 (maxLevel m)) \<le> unat (mtMaxDegree m)")
    case True
    then show ?thesis
      using d m1 mt_bounded_fits [OF b] mt_bounded_length [OF b, of "maxLevel m"]
      by (simp add: mt_done_def Let_def mt_full_def not_le [symmetric])
  next
    case False
    then show ?thesis
      using d m1 two mt_bounded_length [OF b, of "maxLevel m"]
      by (auto simp: mt_done_def Let_def mt_full_def mt_bounded_def mt_wf_def computeCombinedHash_def he not_le)
  qed
qed

text \<open>A helper that was given the results \<open>rs\<close>.\<close>

definition kept :: "u32 \<Rightarrow> KVRead list \<Rightarrow> RangeQueryResultsHelper \<Rightarrow> bool" where
  "kept d rs h \<longleftrightarrow> helper_wf h \<and> hMaxDegree h = d \<and> length (pendingResults h) \<le> unat d \<and>
     mt_bounded 0 (tree_of h) \<and> tree (tree_of h) 0 = [] \<and>
     (if mt_isEmpty (tree_of h) then pendingResults h = rs
      else unat d < length rs \<and> mt_full 0 (tree_of h))"

lemma mt_full_not_empty: "mt_full cur m \<Longrightarrow> \<not> mt_isEmpty m"
  by (simp add: mt_full_def mt_isEmpty_def)

lemma processPendingResults_full:
  assumes "total_env he" "helper_wf h" "mt_bounded 0 (tree_of h)" "tree (tree_of h) 0 = []"
    "mt_isEmpty (tree_of h) \<or> mt_full 0 (tree_of h)"
  obtains h1 where "processPendingResults he h = Some (None, h1)" "helper_step h h1" "mt_full 0 (tree_of h1)"
    "pendingResults h1 = []" "hMaxDegree h1 = hMaxDegree h"
proof -
  obtain H M where he: "Hash he = (\<lambda>b. Some (H b))" "marshalQueryReads he = (\<lambda>rs. Some (M rs))"
    using assms(1) by (rule total_envE)
  obtain m where m: "hMt h = Some m" "mt_wf m" using assms(2) by (auto simp: helper_wf_def)
  let ?x = "H (M (pendingResults h))"
  obtain e m1 where u: "mt_update he ?x m = Some (e, m1)" using mt_update_step [OF m(2)] by blast
  have p: "processPendingResults he h = Some (None, h\<lparr>pendingResults := [], hMt := Some m1\<rparr>)"
    using m u by (simp add: processPendingResults_def he)
  have "helper_step h (h\<lparr>pendingResults := [], hMt := Some m1\<rparr>)"
    using processPendingResults_step [OF assms(2), of he] p by auto
  moreover have "mt_full 0 m1" using mt_update_full [OF assms(1) m(2) _ _ _ u] assms(3-5) m(1) by (auto simp: mt_full_def)
  ultimately show ?thesis by (intro that [OF p]) simp_all
qed

lemma unat_small: "n < 2 ^ 32 \<Longrightarrow> unat (of_nat n :: u32) = n"
  by (simp add: unat_of_nat take_bit_nat_eq_self)

lemma AddResult_kept:
  assumes "total_env he" "kept d rs h"
  obtains e h1 where "AddResult he r h = Some (e, h1)" "kept d (rs @ [r]) h1"
proof -
  let ?h = "h\<lparr>pendingResults := pendingResults h @ [r]\<rparr>" and ?d = "unat d"
  have k: "helper_wf h" "hMaxDegree h = d" "length (pendingResults h) \<le> ?d" "mt_bounded 0 (tree_of h)" "tree (tree_of h) 0 = []"
    using assms(2) by (simp_all add: kept_def)
  have w: "helper_wf ?h" using k(1) by (simp add: helper_wf_def)
  have on: "hashingEnabled h" "mtMaxDegree (tree_of h) = d" using k(1,2) by (simp_all add: helper_wf_def)
  have "d < -1" using k(4) on(2) by (simp add: mt_bounded_def)
  then have "?d < unat (-1 :: u32)" by (simp only: word_less_nat_alt)
  then have "?d + 1 < 2 ^ 32" by (simp add: unsigned_minus_1_eq_mask mask_eq_exp_minus_1)
  then have "unat (of_nat (length (pendingResults ?h)) :: u32) = length (pendingResults ?h)"
    using k(3) by (intro unat_small) simp
  then have c: "d < of_nat (length (pendingResults ?h)) \<longleftrightarrow> ?d < length (pendingResults ?h)"
    by (simp only: word_less_nat_alt)
  show ?thesis
  proof (cases "?d < length (pendingResults ?h)")
    case True
    have "mt_isEmpty (tree_of ?h) \<or> mt_full 0 (tree_of ?h)" using assms(2) by (auto simp: kept_def split: if_splits)
    then obtain h1 where p: "processPendingResults he ?h = Some (None, h1)" "helper_step ?h h1" "mt_full 0 (tree_of h1)"
        "pendingResults h1 = []" "hMaxDegree h1 = d"
      using processPendingResults_full [OF assms(1) w] k(2,4,5) by auto
    have "?d < length (rs @ [r])" using assms(2) True by (auto simp: kept_def split: if_splits)
    then have "kept d (rs @ [r]) h1"
      using p mt_full_not_empty [OF p(3)] by (simp add: kept_def helper_step_def mt_full_def)
    moreover have "AddResult he r h = Some (None, h1)"
      using p(1) c True on(1) k(2) by (simp add: AddResult_def Let_def del: of_nat_Suc)
    ultimately show ?thesis by (intro that)
  next
    case False
    have "AddResult he r h = Some (None, ?h)" using c False on(1) k(2) by (simp add: AddResult_def Let_def)
    moreover have "kept d (rs @ [r]) ?h" using assms(2) False w by (auto simp: kept_def split: if_splits)
    ultimately show ?thesis by (rule that)
  qed
qed

lemma add_results_kept:
  "total_env he \<Longrightarrow> kept d rs0 h \<Longrightarrow> \<exists>h1. add_results he rs h = Some h1 \<and> kept d (rs0 @ rs) h1"
proof (induction rs arbitrary: rs0 h)
  case (Cons r rs)
  obtain e h1 where "AddResult he r h = Some (e, h1)" "kept d (rs0 @ [r]) h1" using AddResult_kept [OF Cons.prems] .
  then show ?case using Cons.IH [OF Cons.prems(1), of "rs0 @ [r]" h1] by simp
qed simp

lemma Done_kept:
  assumes "total_env he" "kept d rs h"
  shows "\<exists>p s. Done he h = Some (Inr (p, s)) \<and>
    (if length rs \<le> unat d then p = rs \<and> s = None
     else p = [] \<and> (\<exists>m. s = Some (getSummery m) \<and> mt_full 0 m \<and> mtMaxDegree m = d))"
proof -
  have on: "hashingEnabled h" "hMt h = Some (tree_of h)" "helper_wf h" "hMaxDegree h = d"
    using assms(2) by (auto simp: kept_def helper_wf_def)
  show ?thesis
  proof (cases "mt_isEmpty (tree_of h)")
    case True
    then have "Done he h = Some (Inr (pendingResults h, None))" using on(1) unfolding Done_def by (subst on(2)) simp
    then show ?thesis using True assms(2) by (auto simp: kept_def)
  next
    case False
    then have f: "mt_full 0 (tree_of h)" "unat d < length rs" using assms(2) by (auto simp: kept_def)
    obtain h1 where q: "(if pendingResults h \<noteq> [] then processPendingResults he h else Some (None, h)) = Some (None, h1)"
        "helper_wf h1" "mt_full 0 (tree_of h1)" "pendingResults h1 = []" "hMaxDegree h1 = d"
    proof (cases "pendingResults h = []")
      case True
      then show ?thesis using that [of h] on f by simp
    next
      case ne: False
      then show ?thesis
        using that processPendingResults_full [OF assms(1) on(3)] f on(4) by (auto simp: mt_full_def helper_step_def)
    qed
    obtain m1 where h1: "hMt h1 = Some m1" "mt_wf m1" "mtMaxDegree m1 = hMaxDegree h1"
      using q(2) by (auto simp: helper_wf_def)
    have "Done he h = Some (Inr ([], Some (getSummery (snd (mt_done he m1)))))"
      unfolding Done_def q(1) using on(1) False q(4) h1(1) by (subst on(2)) simp
    then show ?thesis using mt_done_full [OF assms(1) _ h1(2)] h1 q(3,5) f(2) by auto
  qed
qed

lemma new_kept:
  assumes "2 \<le> d" "d < -1"
  shows "\<exists>h. NewRangeQueryResultsHelper True d = Inr h \<and> kept d [] h"
proof -
  obtain h where h: "NewRangeQueryResultsHelper True d = Inr h"
    using assms(1) by (simp add: NewRangeQueryResultsHelper_def newMerkleTree_def not_less [symmetric])
  note w = New_helper_wf [OF h]
  have "h = \<lparr>pendingResults = [], hMt = Some \<lparr>tree = (\<lambda>_. []), maxLevel = 1, mtMaxDegree = d\<rparr>,
      hMaxDegree = d, hashingEnabled = True\<rparr>"
    using h assms(1) by (simp add: NewRangeQueryResultsHelper_def newMerkleTree_def split: if_splits)
  then have "kept d [] h" using w assms(2) by (simp_all add: kept_def mt_isEmpty_def mt_bounded_def)
  then show ?thesis using h by blast
qed



subsection \<open>A concrete query\<close>

definition ex_hash_env :: hash_env where
  "ex_hash_env = \<lparr>Hash = (\<lambda>b. Some (take 3 b)), marshalQueryReads = (\<lambda>rs. Some (concat (map rKey rs)))\<rparr>"

text \<open>An iterator over entries of the database alone.\<close>

definition itr_of :: "VersionedKV list \<Rightarrow> combinedIterator" where
  "itr_of xs = \<lparr>ciNs = [], ciUpdates = NewUpdateBatch, ciEndKey = [], includeEndKey = False, dbItr = tl xs,
     updatesItr = newNsIterator [] [] [] NewUpdateBatch, dbItem = (if xs = [] then None else Some (hd xs)),
     updatesItem = None, endKeyServed = False\<rparr>"

lemma itr_of_serves: "list_all (\<lambda>x. \<not> isDelete x) xs \<Longrightarrow> serves db xs (itr_of xs)"
proof (induction xs)
  case Nil
  then show ?case using ci_Next_served [of "itr_of []"] by (simp add: itr_of_def)
next
  case (Cons x xs)
  have "ci_Next db (itr_of (x # xs)) = Inr (Some x, itr_of xs)"
    using Cons.prems
    by (subst ci_Next.simps)
      (cases xs; simp add: itr_of_def ci_move_def compareKeys_def db_Next_def Let_def)
  then show ?case using Cons by simp
qed

definition ex_entry :: "char \<Rightarrow> VersionedKV" where
  "ex_entry c = \<lparr>vkNamespace = ''ns'', vkKey = [c],
     vkValue = \<lparr>Value = Some ''v'', vvMetadata = None, vvVersion = Some (NewHeight 1 0)\<rparr>\<rparr>"

definition ex_entries :: "VersionedKV list" where
  "ex_entries = map ex_entry ''abcdefghi''"

lemma ex_entries_serve: "serves db (take n ex_entries) (itr_of (take n ex_entries))"
proof (rule itr_of_serves)
  have "list_all (\<lambda>x. \<not> isDelete x) ex_entries" by (simp add: ex_entries_def ex_entry_def isDelete_def)
  then show "list_all (\<lambda>x. \<not> isDelete x) (take n ex_entries)" unfolding list_all_iff by (blast dest: in_set_takeD)
qed

lemma ex_hash_env_total: "total_env ex_hash_env"
  by (simp add: total_env_def ex_hash_env_def)

definition ex_summary :: QueryReadsMerkleSummary where
  "ex_summary = \<lparr>MaxDegree = 2, MaxLevel = 1, MaxLevelHashes = [''abc'', ''def'']\<rparr>"

lemma ex_summary_6:
  "results_summary ex_hash_env 2 (map read_of (take 6 ex_entries)) = Some (Inr ([], Some ex_summary))"
  by (simp add: results_summary_def NewRangeQueryResultsHelper_def newMerkleTree_def ex_entries_def ex_entry_def
      AddResult_def processPendingResults_def ex_hash_env_def mt_update_def update_loop.simps Done_def mt_isEmpty_def
      mt_done_def done_loop.simps getSummery_def ex_summary_def NewKVRead_def)

theorem hash_validate_exact_witness:
  "rangeQueryHash_validate ex_hash_env (table_db []) ex_summary (itr_of (take 6 ex_entries)) = Some (Inr True)"
proof -
  have "MaxDegree ex_summary = 2" by (simp add: ex_summary_def)
  moreover have "length (take 6 ex_entries) + 3 < 2 ^ 32" by (simp add: ex_entries_def)
  ultimately show ?thesis
    using hash_validate_exact [OF ex_entries_serve [of "table_db []" 6], of ex_hash_env ex_summary] ex_summary_6 by simp
qed

theorem results_summary_returns_witness:
  "\<exists>r. rangeQueryHash_validate ex_hash_env (table_db []) ex_summary (itr_of (take 6 ex_entries)) = Some r"
  using results_summary_returns [of ex_hash_env 2 "[]" "table_db []" "take 6 ex_entries" "itr_of (take 6 ex_entries)" ex_summary]
    ex_entries_serve by blast



end
