(* ===== verification/TxOps.thy ===== *)
theory TxOps
  imports Merkle
begin

unbundle bit_operations_syntax

text \<open>
  The writes of a transaction (\<open>tx_ops_preparation.go\<close>) and the updates that the valid transactions of a block
  leave (\<open>val.go\<close>). Marshalling metadata is a parameter, \<open>mm\<close>; a list of metadata entries that is nil is the
  empty list, and so is a private hash that is nil, which is what decoding a message gives.

  \<open>prepareTxOps\<close> ranges over a map whose values are pointers and changes or deletes the entry it is at. Here the
  entries are replaced one by one.
\<close>

subsection \<open>Operations on keys\<close>

type_synonym keyOpsFlag = "8 word"

definition upsertVal :: keyOpsFlag where "upsertVal = 1"

definition metadataUpdate_flag :: keyOpsFlag where "metadataUpdate_flag = 2"

definition metadataDelete_flag :: keyOpsFlag where "metadataDelete_flag = 4"

definition keyDelete :: keyOpsFlag where "keyDelete = 8"

lemmas flag_defs = upsertVal_def metadataUpdate_flag_def metadataDelete_flag_def keyDelete_def

record compositeKey =
  ckNs :: string
  ckColl :: string
  ckKey :: string

record keyOps =
  flag :: keyOpsFlag
  koValue :: "bytes option"
  koMetadata :: "bytes option"

type_synonym txOps = "(compositeKey, keyOps) gomap"

definition getOrCreateKeyEntry :: "compositeKey \<Rightarrow> txOps \<Rightarrow> keyOps" where
  "getOrCreateKeyEntry k txops =
     (case map_of txops k of None \<Rightarrow> \<lparr>flag = 0, koValue = None, koMetadata = None\<rparr> | Some ops \<Rightarrow> ops)"

definition upsert :: "compositeKey \<Rightarrow> bytes option \<Rightarrow> txOps \<Rightarrow> txOps" where
  "upsert k val txops =
     (let ops = getOrCreateKeyEntry k txops in put k (ops\<lparr>flag := flag ops + upsertVal, koValue := val\<rparr>) txops)"

definition key_delete :: "compositeKey \<Rightarrow> txOps \<Rightarrow> txOps" where
  "key_delete k txops = (let ops = getOrCreateKeyEntry k txops in put k (ops\<lparr>flag := flag ops + keyDelete\<rparr>) txops)"

definition metadataUpdate :: "compositeKey \<Rightarrow> bytes option \<Rightarrow> txOps \<Rightarrow> txOps" where
  "metadataUpdate k metadata txops =
     (let ops = getOrCreateKeyEntry k txops
      in put k (ops\<lparr>flag := flag ops + metadataUpdate_flag, koMetadata := metadata\<rparr>) txops)"

definition metadataDelete :: "compositeKey \<Rightarrow> txOps \<Rightarrow> txOps" where
  "metadataDelete k txops =
     (let ops = getOrCreateKeyEntry k txops in put k (ops\<lparr>flag := flag ops + metadataDelete_flag\<rparr>) txops)"

definition ko_isDelete :: "keyOps \<Rightarrow> bool" where
  "ko_isDelete ops \<longleftrightarrow> flag ops AND keyDelete = keyDelete"

definition isUpsertAndMetadataUpdate :: "keyOps \<Rightarrow> bool" where
  "isUpsertAndMetadataUpdate ops \<longleftrightarrow>
     (if flag ops AND upsertVal = upsertVal
      then flag ops AND metadataUpdate_flag = metadataUpdate_flag \<or> flag ops AND metadataDelete_flag = metadataDelete_flag
      else False)"

definition isOnlyUpsert :: "keyOps \<Rightarrow> bool" where
  "isOnlyUpsert ops \<longleftrightarrow> flag ops OR upsertVal = upsertVal"

subsection \<open>The operations of a transaction\<close>

definition SerializeMetadata :: "(KVMetadataWrite \<Rightarrow> bytes option) \<Rightarrow> KVMetadataEntry list \<Rightarrow> bytes option" where
  "SerializeMetadata mm entries = mm \<lparr>mKey = [], mEntries = entries\<rparr>"

definition applyKVWrite :: "string \<Rightarrow> string \<Rightarrow> KVWrite \<Rightarrow> txOps \<Rightarrow> txOps" where
  "applyKVWrite ns coll kvWrite txops =
     (let k = \<lparr>ckNs = ns, ckColl = coll, ckKey = wKey kvWrite\<rparr> in
      if IsDelete kvWrite then key_delete k txops else upsert k (wValue kvWrite) txops)"

definition applyMetadata ::
  "(KVMetadataWrite \<Rightarrow> bytes option) \<Rightarrow> string \<Rightarrow> string \<Rightarrow> KVMetadataWrite \<Rightarrow> txOps \<Rightarrow> txOps go" where
  "applyMetadata mm ns coll metadataWrite txops =
     (let k = \<lparr>ckNs = ns, ckColl = coll, ckKey = mKey metadataWrite\<rparr> in
      if mEntries metadataWrite = [] then Inr (metadataDelete k txops)
      else bindE (of_option ''marshal'' (SerializeMetadata mm (mEntries metadataWrite))) (\<lambda>b.
        Inr (metadataUpdate k (Some b) txops)))"

text \<open>The caller drops the error of \<open>applyMetadata\<close>.\<close>

definition drop_error :: "('a \<Rightarrow> 's \<Rightarrow> 's go) \<Rightarrow> 'a \<Rightarrow> 's \<Rightarrow> 's" where
  "drop_error f x s = (case f x s of Inl _ \<Rightarrow> s | Inr s1 \<Rightarrow> s1)"

definition apply_coll :: "(KVMetadataWrite \<Rightarrow> bytes option) \<Rightarrow> string \<Rightarrow> CollHashedRwSet \<Rightarrow> txOps \<Rightarrow> txOps" where
  "apply_coll mm ns c txops =
     (let coll = CollectionName c;
          txops1 = fold (\<lambda>w. applyKVWrite ns coll
            \<lparr>wKey = whKeyHash w, IsDelete = whIsDelete w, wValue = whValueHash w, IsWrite = False, wTxid = []\<rparr>)
            (HashedWrites (HashedRwSet c)) txops
      in fold (\<lambda>m. drop_error (applyMetadata mm ns coll) \<lparr>mKey = mhKeyHash m, mEntries = mhEntries m\<rparr>)
           (hMetadataWrites (HashedRwSet c)) txops1)"

definition apply_ns :: "(KVMetadataWrite \<Rightarrow> bytes option) \<Rightarrow> NsRwSet \<Rightarrow> txOps \<Rightarrow> txOps" where
  "apply_ns mm nsRWSet txops =
     (let ns = NameSpace nsRWSet;
          txops1 = fold (applyKVWrite ns []) (Writes (KvRwSet nsRWSet)) txops;
          txops2 = fold (drop_error (applyMetadata mm ns [])) (MetadataWrites (KvRwSet nsRWSet)) txops1
      in fold (apply_coll mm ns) (CollHashedRwSets nsRWSet) txops2)"

definition applyTxRwset :: "(KVMetadataWrite \<Rightarrow> bytes option) \<Rightarrow> TxRwSet \<Rightarrow> txOps \<Rightarrow> txOps" where
  "applyTxRwset mm rwset txops = fold (apply_ns mm) (NsRwSets rwset) txops"

subsection \<open>The updates of a block\<close>

record PubAndHashUpdates =
  PubUpdates :: UpdateBatch
  HashUpdates :: UpdateMap

definition NewPubAndHashUpdates :: PubAndHashUpdates where
  "NewPubAndHashUpdates = \<lparr>PubUpdates = NewUpdateBatch, HashUpdates = []\<rparr>"

definition retrieveLatestState ::
  "compositeKey \<Rightarrow> PubAndHashUpdates \<Rightarrow> state_db \<Rightarrow> VersionedValue option go" where
  "retrieveLatestState ck u db =
     (if ckColl ck = [] then
        (case ub_Get (PubUpdates u) (ckNs ck) (ckKey ck) of
           None \<Rightarrow> GetState db (ckNs ck) (ckKey ck) | Some vv \<Rightarrow> Inr (Some vv))
      else
        (case um_Get (HashUpdates u) (ckNs ck) (ckColl ck) (ckKey ck) of
           None \<Rightarrow> GetValueHash db (ckNs ck) (ckColl ck) (ckKey ck) | Some vv \<Rightarrow> Inr (Some vv)))"

definition retrieveLatestMetadata :: "compositeKey \<Rightarrow> PubAndHashUpdates \<Rightarrow> state_db \<Rightarrow> bytes option go" where
  "retrieveLatestMetadata ck u db =
     (if ckColl ck = [] then
        (case ub_Get (PubUpdates u) (ckNs ck) (ckKey ck) of
           Some vv \<Rightarrow> Inr (vvMetadata vv) | None \<Rightarrow> GetStateMetadata db (ckNs ck) (ckKey ck))
      else
        (case um_Get (HashUpdates u) (ckNs ck) (ckColl ck) (ckKey ck) of
           Some vv \<Rightarrow> Inr (vvMetadata vv)
         | None \<Rightarrow> GetPrivateDataMetadataByHash db (ckNs ck) (ckColl ck) (ckKey ck)))"

text \<open>One entry of the map: its new contents, or None if it is deleted from the map.\<close>

definition prepare_op :: "PubAndHashUpdates \<Rightarrow> state_db \<Rightarrow> compositeKey \<Rightarrow> keyOps \<Rightarrow> keyOps option go" where
  "prepare_op u db ck ops =
     (if ko_isDelete ops \<or> isUpsertAndMetadataUpdate ops then Inr (Some ops)
      else if isOnlyUpsert ops then
        bindE (retrieveLatestMetadata ck u db) (\<lambda>m. Inr (Some (ops\<lparr>koMetadata := m\<rparr>)))
      else bindE (retrieveLatestState ck u db) (\<lambda>latestVal.
        case latestVal of None \<Rightarrow> Inr None | Some vv \<Rightarrow> Inr (Some (ops\<lparr>koValue := Value vv\<rparr>))))"

fun prepare_ops :: "PubAndHashUpdates \<Rightarrow> state_db \<Rightarrow> txOps \<Rightarrow> txOps go" where
  "prepare_ops u db [] = Inr []"
| "prepare_ops u db ((ck, ops) # rest) =
     bindE (prepare_op u db ck ops) (\<lambda>r.
     bindE (prepare_ops u db rest) (\<lambda>l.
       Inr (case r of None \<Rightarrow> l | Some o1 \<Rightarrow> (ck, o1) # l)))"

definition prepareTxOps ::
  "(KVMetadataWrite \<Rightarrow> bytes option) \<Rightarrow> TxRwSet \<Rightarrow> PubAndHashUpdates \<Rightarrow> state_db \<Rightarrow> txOps go" where
  "prepareTxOps mm rwset u db = prepare_ops u db (applyTxRwset mm rwset [])"

definition apply_op ::
  "Height option \<Rightarrow> compositeKey \<times> keyOps \<Rightarrow> PubAndHashUpdates \<Rightarrow> PubAndHashUpdates go" where
  "apply_op h c u =
     (case c of (ck, ops) \<Rightarrow>
        if ckColl ck = [] then
          (if ko_isDelete ops then Inr (u\<lparr>PubUpdates := ub_Delete (ckNs ck) (ckKey ck) h (PubUpdates u)\<rparr>)
           else bindE (ub_PutValAndMetadata (ckNs ck) (ckKey ck) (koValue ops) (koMetadata ops) h (PubUpdates u)) (\<lambda>b.
             Inr (u\<lparr>PubUpdates := b\<rparr>)))
        else
          (if ko_isDelete ops
           then Inr (u\<lparr>HashUpdates := um_Delete (ckNs ck) (ckColl ck) (ckKey ck) h (HashUpdates u)\<rparr>)
           else bindE (um_PutValAndMetadata (ckNs ck) (ckColl ck) (ckKey ck) (koValue ops) (koMetadata ops) h
               (HashUpdates u)) (\<lambda>b. Inr (u\<lparr>HashUpdates := b\<rparr>))))"

definition ApplyWriteSet ::
  "(KVMetadataWrite \<Rightarrow> bytes option) \<Rightarrow> TxRwSet \<Rightarrow> Height option \<Rightarrow> state_db \<Rightarrow> PubAndHashUpdates \<Rightarrow> PubAndHashUpdates go" where
  "ApplyWriteSet mm rwset h db u = bindE (prepareTxOps mm rwset u db) (\<lambda>txops. foldE (apply_op h) txops u)"

subsection \<open>Transactions\<close>

datatype TxValidationCode = VALID | MVCC_READ_CONFLICT | PHANTOM_READ_CONFLICT | OtherCode int

record Transaction =
  IndexInBlock :: int
  ID :: string
  RWSet :: "TxRwSet option"
  ValidationCode :: TxValidationCode

record val_Block =
  vbNum :: u64
  vbTxs :: "Transaction list"

definition ContainsPvtWrites :: "Transaction \<Rightarrow> bool go" where
  "ContainsPvtWrites t =
     bindE (deref (RWSet t)) (\<lambda>rw.
       Inr (\<exists>ns\<in>set (NsRwSets rw). \<exists>c\<in>set (CollHashedRwSets ns). PvtRwSetHash c \<noteq> []))"

definition RetrieveHash :: "Transaction \<Rightarrow> string \<Rightarrow> string \<Rightarrow> bytes" where
  "RetrieveHash t ns coll =
     (case RWSet t of
        None \<Rightarrow> []
      | Some rw \<Rightarrow>
          (case concat (map (\<lambda>n. if NameSpace n \<noteq> ns then [] else filter (\<lambda>c. CollectionName c = coll) (CollHashedRwSets n))
              (NsRwSets rw)) of
             [] \<Rightarrow> [] | c # _ \<Rightarrow> PvtRwSetHash c))"

subsection \<open>The operations as a list\<close>

datatype key_op = OpUpsert "bytes option" | OpDelete | OpMeta bytes | OpMetaDelete

fun upd_op :: "key_op \<Rightarrow> keyOps \<Rightarrow> keyOps" where
  "upd_op (OpUpsert v) ops = ops\<lparr>flag := flag ops + upsertVal, koValue := v\<rparr>"
| "upd_op OpDelete ops = ops\<lparr>flag := flag ops + keyDelete\<rparr>"
| "upd_op (OpMeta m) ops = ops\<lparr>flag := flag ops + metadataUpdate_flag, koMetadata := Some m\<rparr>"
| "upd_op OpMetaDelete ops = ops\<lparr>flag := flag ops + metadataDelete_flag\<rparr>"

definition do_op :: "compositeKey \<times> key_op \<Rightarrow> txOps \<Rightarrow> txOps" where
  "do_op c txops = put (fst c) (upd_op (snd c) (getOrCreateKeyEntry (fst c) txops)) txops"

abbreviation ckey :: "string \<Rightarrow> string \<Rightarrow> string \<Rightarrow> compositeKey" where
  "ckey ns coll k \<equiv> \<lparr>ckNs = ns, ckColl = coll, ckKey = k\<rparr>"

definition write_op :: "KVWrite \<Rightarrow> key_op" where
  "write_op w = (if IsDelete w then OpDelete else OpUpsert (wValue w))"

definition meta_ops :: "(KVMetadataWrite \<Rightarrow> bytes option) \<Rightarrow> KVMetadataEntry list \<Rightarrow> key_op list" where
  "meta_ops mm es =
     (if es = [] then [OpMetaDelete]
      else case SerializeMetadata mm es of None \<Rightarrow> [] | Some b \<Rightarrow> [OpMeta b])"

definition coll_op_list :: "(KVMetadataWrite \<Rightarrow> bytes option) \<Rightarrow> string \<Rightarrow> CollHashedRwSet \<Rightarrow> (compositeKey \<times> key_op) list" where
  "coll_op_list mm ns c =
     map (\<lambda>w. (ckey ns (CollectionName c) (whKeyHash w), if whIsDelete w then OpDelete else OpUpsert (whValueHash w)))
       (HashedWrites (HashedRwSet c)) @
     concat (map (\<lambda>m. map (Pair (ckey ns (CollectionName c) (mhKeyHash m))) (meta_ops mm (mhEntries m)))
       (hMetadataWrites (HashedRwSet c)))"

definition ns_op_list :: "(KVMetadataWrite \<Rightarrow> bytes option) \<Rightarrow> NsRwSet \<Rightarrow> (compositeKey \<times> key_op) list" where
  "ns_op_list mm n =
     map (\<lambda>w. (ckey (NameSpace n) [] (wKey w), write_op w)) (Writes (KvRwSet n)) @
     concat (map (\<lambda>m. map (Pair (ckey (NameSpace n) [] (mKey m))) (meta_ops mm (mEntries m))) (MetadataWrites (KvRwSet n))) @
     concat (map (coll_op_list mm (NameSpace n)) (CollHashedRwSets n))"

definition op_list :: "(KVMetadataWrite \<Rightarrow> bytes option) \<Rightarrow> TxRwSet \<Rightarrow> (compositeKey \<times> key_op) list" where
  "op_list mm rw = concat (map (ns_op_list mm) (NsRwSets rw))"

lemma applyKVWrite_op: "applyKVWrite ns coll w = do_op (ckey ns coll (wKey w), write_op w)"
  by (simp add: fun_eq_iff applyKVWrite_def do_op_def write_op_def upsert_def key_delete_def Let_def)

lemma applyMetadata_ops:
  "drop_error (applyMetadata mm ns coll) m = fold do_op (map (Pair (ckey ns coll (mKey m))) (meta_ops mm (mEntries m)))"
  by (cases "SerializeMetadata mm (mEntries m)")
    (simp_all add: fun_eq_iff drop_error_def applyMetadata_def meta_ops_def do_op_def metadataUpdate_def
      metadataDelete_def Let_def)

lemma fold_ops:
  "(\<And>x. f x = fold do_op (g x)) \<Longrightarrow> fold f xs = fold do_op (concat (map g xs))"
  by (induction xs) (simp_all add: fun_eq_iff)

lemma fold_op: "(\<And>x. f x = do_op (g x)) \<Longrightarrow> fold f xs = fold do_op (map g xs)"
  by (induction xs) (simp_all add: fun_eq_iff)

lemma apply_coll_ops: "apply_coll mm ns c = fold do_op (coll_op_list mm ns c)"
  unfolding apply_coll_def Let_def coll_op_list_def fold_append fun_eq_iff comp_def
  by (subst fold_op [OF applyKVWrite_op], subst fold_ops [OF applyMetadata_ops]) (simp add: write_op_def cong: if_cong)

lemma apply_ns_ops: "apply_ns mm n = fold do_op (ns_op_list mm n)"
  unfolding apply_ns_def Let_def ns_op_list_def fold_append fun_eq_iff comp_def
  by (subst fold_op [OF applyKVWrite_op], subst fold_ops [OF applyMetadata_ops], subst fold_ops [OF apply_coll_ops]) simp

lemma applyTxRwset_ops: "applyTxRwset mm rw = fold do_op (op_list mm rw)"
  unfolding applyTxRwset_def op_list_def fun_eq_iff by (subst fold_ops [OF apply_ns_ops]) simp

text \<open>What is recorded for a key: its operations in their order.\<close>

definition ops_on :: "compositeKey \<Rightarrow> (compositeKey \<times> key_op) list \<Rightarrow> key_op list" where
  "ops_on ck l = map snd (filter (\<lambda>c. fst c = ck) l)"

lemma ops_on_append [simp]: "ops_on ck (l @ l') = ops_on ck l @ ops_on ck l'"
  by (simp add: ops_on_def)

abbreviation no_op :: keyOps where
  "no_op \<equiv> \<lparr>flag = 0, koValue = None, koMetadata = None\<rparr>"

lemma do_op_lookup:
  "map_of (fold do_op l t) ck =
     (if ops_on ck l = [] then map_of t ck else Some (fold upd_op (ops_on ck l) (getOrCreateKeyEntry ck t)))"
proof (induction l arbitrary: t)
  case (Cons c l)
  have "getOrCreateKeyEntry ck (do_op c t) =
      (if fst c = ck then upd_op (snd c) (getOrCreateKeyEntry ck t) else getOrCreateKeyEntry ck t)"
    by (simp add: getOrCreateKeyEntry_def do_op_def)
  then show ?case using Cons by (simp add: ops_on_def) (simp add: do_op_def)
qed (simp add: ops_on_def)

lemma distinct_do_op: "distinct (map fst t) \<Longrightarrow> distinct (map fst (fold do_op l t))"
  by (induction l arbitrary: t) (simp_all add: do_op_def distinct_update)

lemma applyTxRwset_lookup:
  "map_of (applyTxRwset mm rw []) ck =
     (if ops_on ck (op_list mm rw) = [] then None else Some (fold upd_op (ops_on ck (op_list mm rw)) no_op))"
  by (simp add: applyTxRwset_ops do_op_lookup getOrCreateKeyEntry_def)

subsection \<open>Merging with the latest state\<close>

lemma prepare_ops_lookup:
  "prepare_ops u db l = Inr l1 \<Longrightarrow> distinct (map fst l) \<Longrightarrow>
   distinct (map fst l1) \<and> fst ` set l1 \<subseteq> fst ` set l \<and>
   (\<forall>ck. case map_of l ck of
      None \<Rightarrow> map_of l1 ck = None
    | Some ops \<Rightarrow> prepare_op u db ck ops = Inr (map_of l1 ck))"
proof (induction u db l arbitrary: l1 rule: prepare_ops.induct)
  case (2 u db ck ops rest)
  obtain r l2 where r: "prepare_op u db ck ops = Inr r" "prepare_ops u db rest = Inr l2"
      "l1 = (case r of None \<Rightarrow> l2 | Some o1 \<Rightarrow> (ck, o1) # l2)"
    using "2.prems"(1) by auto
  have i: "distinct (map fst l2)" "fst ` set l2 \<subseteq> fst ` set rest"
      "\<And>c. case map_of rest c of None \<Rightarrow> map_of l2 c = None | Some ops \<Rightarrow> prepare_op u db c ops = Inr (map_of l2 c)"
    using "2.IH" [OF r(1) r(2)] "2.prems"(2) by auto
  have n: "ck \<notin> fst ` set l2" using i(2) "2.prems"(2) by auto
  then have "map_of l2 ck = None" by (simp add: map_of_eq_None_iff)
  moreover have "map_of rest c = None \<Longrightarrow> map_of l2 c = None"
      "map_of rest c = Some o1 \<Longrightarrow> prepare_op u db c o1 = Inr (map_of l2 c)" for c o1
    using i(3) [of c] by simp_all
  ultimately show ?case using i(1,2) n r by (cases r) (auto split: option.split)
qed simp

definition op_entry :: "Height option \<Rightarrow> keyOps \<Rightarrow> VersionedValue" where
  "op_entry h ops =
     (if ko_isDelete ops then \<lparr>Value = None, vvMetadata = None, vvVersion = h\<rparr>
      else \<lparr>Value = koValue ops, vvMetadata = koMetadata ops, vvVersion = h\<rparr>)"

lemma apply_op_Get:
  assumes "apply_op h (ck, ops) u = Inr u1"
  shows "ub_Get (PubUpdates u1) ns k =
    (if ck = ckey ns [] k then Some (op_entry h ops) else ub_Get (PubUpdates u) ns k)"
    and "ko_isDelete ops \<or> koValue ops \<noteq> None"
proof -
  have ck: "ck = ckey ns [] k \<longleftrightarrow> ckNs ck = ns \<and> ckColl ck = [] \<and> ckKey ck = k" by (cases ck) simp
  show "ub_Get (PubUpdates u1) ns k =
    (if ck = ckey ns [] k then Some (op_entry h ops) else ub_Get (PubUpdates u) ns k)"
    using assms unfolding ck
    by (auto simp: apply_op_def ub_Delete_def ub_PutValAndMetadata_def ub_Get_Update op_entry_def split: if_splits)
  show "ko_isDelete ops \<or> koValue ops \<noteq> None"
    using assms by (auto simp: apply_op_def ub_PutValAndMetadata_def um_PutValAndMetadata_def split: if_splits)
qed

lemma foldE_apply_op_Get:
  "foldE (apply_op h) l u = Inr u1 \<Longrightarrow> distinct (map fst l) \<Longrightarrow>
   ub_Get (PubUpdates u1) ns k =
     (case map_of l (ckey ns [] k) of None \<Rightarrow> ub_Get (PubUpdates u) ns k | Some ops \<Rightarrow> Some (op_entry h ops)) \<and>
   (\<forall>ops. map_of l (ckey ns [] k) = Some ops \<longrightarrow> ko_isDelete ops \<or> koValue ops \<noteq> None)"
proof (induction l arbitrary: u)
  case (Cons c l)
  obtain ck ops where c: "c = (ck, ops)" by (cases c)
  obtain u2 where u2: "apply_op h (ck, ops) u = Inr u2" "foldE (apply_op h) l u2 = Inr u1" using Cons.prems(1) c by auto
  have "ck = ckey ns [] k \<Longrightarrow> map_of l (ckey ns [] k) = None"
    using Cons.prems(2) c by (auto simp: map_of_eq_None_iff)
  then show ?case
    using Cons.IH [OF u2(2)] Cons.prems(2) apply_op_Get [OF u2(1)] c by (auto split: option.splits)
qed simp

subsection \<open>The effect on values\<close>

text \<open>The writes and the metadata writes of a transaction to a key of the public state.\<close>

definition on_ns :: "(NsRwSet \<Rightarrow> 'a list) \<Rightarrow> TxRwSet \<Rightarrow> string \<Rightarrow> 'a list" where
  "on_ns f rw ns = concat (map f (filter (\<lambda>n. NameSpace n = ns) (NsRwSets rw)))"

definition tx_writes :: "TxRwSet \<Rightarrow> string \<Rightarrow> string \<Rightarrow> KVWrite list" where
  "tx_writes rw ns k = filter (\<lambda>w. wKey w = k) (on_ns (\<lambda>n. Writes (KvRwSet n)) rw ns)"

definition tx_metas :: "TxRwSet \<Rightarrow> string \<Rightarrow> string \<Rightarrow> KVMetadataWrite list" where
  "tx_metas rw ns k = filter (\<lambda>m. mKey m = k) (on_ns (\<lambda>n. MetadataWrites (KvRwSet n)) rw ns)"

text \<open>
  What the code relies on of a read-write set: a key has at most one write and at most one metadata write,
  and a collection has a name.
\<close>

definition rwset_once :: "TxRwSet \<Rightarrow> bool" where
  "rwset_once rw \<longleftrightarrow> list_all (\<lambda>n. list_all (\<lambda>c. CollectionName c \<noteq> []) (CollHashedRwSets n) \<and>
     distinct (map wKey (on_ns (\<lambda>n. Writes (KvRwSet n)) rw (NameSpace n))) \<and>
     distinct (map mKey (on_ns (\<lambda>n. MetadataWrites (KvRwSet n)) rw (NameSpace n)))) (NsRwSets rw)"

definition written :: "TxRwSet \<Rightarrow> string \<Rightarrow> string \<Rightarrow> bytes option option" where
  "written rw ns k = (case tx_writes rw ns k of [] \<Rightarrow> None | w # _ \<Rightarrow> Some (if IsDelete w then None else wValue w))"

definition vals :: "state_db \<Rightarrow> PubAndHashUpdates \<Rightarrow> string \<Rightarrow> string \<Rightarrow> bytes option" where
  "vals db u ns k = (case state_view db (PubUpdates u) ns k of None \<Rightarrow> None | Some vv \<Rightarrow> Value vv)"

definition apply_values :: "TxRwSet \<Rightarrow> (string \<Rightarrow> string \<Rightarrow> bytes option) \<Rightarrow> string \<Rightarrow> string \<Rightarrow> bytes option" where
  "apply_values rw s ns k = (case written rw ns k of None \<Rightarrow> s ns k | Some v \<Rightarrow> v)"

fun is_write_op :: "key_op \<Rightarrow> bool" where
  "is_write_op (OpUpsert v) = True"
| "is_write_op OpDelete = True"
| "is_write_op _ = False"

lemma is_write_write_op [simp]: "is_write_op (write_op w)"
  by (simp add: write_op_def)

lemma meta_ops_not_write: "x \<in> set (meta_ops mm es) \<Longrightarrow> \<not> is_write_op x" and meta_ops_length: "length (meta_ops mm es) \<le> 1"
  by (auto simp: meta_ops_def split: if_splits option.splits)

lemma ops_on_map: "ops_on ck (map (\<lambda>w. (f w, g w)) l) = map g (filter (\<lambda>w. f w = ck) l)"
  by (induction l) (simp_all add: ops_on_def)

lemma ops_on_concat: "ops_on ck (concat ls) = concat (map (ops_on ck) ls)"
  by (induction ls) (simp_all add: ops_on_def)

lemma ops_on_Pair: "ops_on ck (map (Pair c) l) = (if c = ck then l else [])"
  by (induction l) (auto simp: ops_on_def)

lemma ops_on_metas:
  "ops_on (ckey ns [] k) (concat (map (\<lambda>m. map (Pair (ckey n [] (mKey m))) (meta_ops mm (mEntries m))) l)) =
     (if n = ns then concat (map (\<lambda>m. meta_ops mm (mEntries m)) (filter (\<lambda>m. mKey m = k) l)) else [])"
  by (induction l) (simp_all add: ops_on_Pair, simp add: ops_on_def)

lemma coll_ops_on: "CollectionName c \<noteq> [] \<Longrightarrow> ops_on (ckey ns [] k) (coll_op_list mm n c) = []"
  by (auto simp: coll_op_list_def ops_on_def filter_empty_conv)

lemma ns_ops_on:
  assumes "list_all (\<lambda>c. CollectionName c \<noteq> []) (CollHashedRwSets n)"
  shows "ops_on (ckey ns [] k) (ns_op_list mm n) =
    (if NameSpace n = ns then map write_op (filter (\<lambda>w. wKey w = k) (Writes (KvRwSet n))) @
       concat (map (\<lambda>m. meta_ops mm (mEntries m)) (filter (\<lambda>m. mKey m = k) (MetadataWrites (KvRwSet n)))) else [])"
proof -
  have "ops_on (ckey ns [] k) (concat (map (coll_op_list mm (NameSpace n)) (CollHashedRwSets n))) = []"
    using assms by (auto simp: ops_on_concat list_all_iff coll_ops_on)
  then show ?thesis by (simp add: ns_op_list_def ops_on_map ops_on_metas)
qed

lemma filter_metas:
  "filter is_write_op (concat (map (\<lambda>m. meta_ops mm (mEntries m)) l)) = []"
  "length (filter (\<lambda>x. \<not> is_write_op x) (concat (map (\<lambda>m. meta_ops mm (mEntries m)) l))) \<le> length l"
proof -
  show "filter is_write_op (concat (map (\<lambda>m. meta_ops mm (mEntries m)) l)) = []"
    by (auto simp: filter_empty_conv dest: meta_ops_not_write)
  have "length (concat (map (\<lambda>m. meta_ops mm (mEntries m)) l)) \<le> length l"
  proof (induction l)
    case (Cons m l)
    then show ?case using meta_ops_length [of mm "mEntries m"] by simp
  qed simp
  then show "length (filter (\<lambda>x. \<not> is_write_op x) (concat (map (\<lambda>m. meta_ops mm (mEntries m)) l))) \<le> length l"
    using order_trans length_filter_le by blast
qed

lemma filter_write_ops [simp]:
  "filter is_write_op (map write_op l) = map write_op l" "filter (\<lambda>x. \<not> is_write_op x) (map write_op l) = []"
  by (simp_all add: filter_empty_conv filter_id_conv)

lemma op_list_filter:
  assumes "\<forall>n\<in>set l. list_all (\<lambda>c. CollectionName c \<noteq> []) (CollHashedRwSets n)"
  shows "filter is_write_op (ops_on (ckey ns [] k) (op_list mm \<lparr>NsRwSets = l\<rparr>)) =
      map write_op (tx_writes \<lparr>NsRwSets = l\<rparr> ns k) \<and>
    length (filter (\<lambda>x. \<not> is_write_op x) (ops_on (ckey ns [] k) (op_list mm \<lparr>NsRwSets = l\<rparr>))) \<le>
      length (tx_metas \<lparr>NsRwSets = l\<rparr> ns k)"
  using assms
proof (induction l)
  case Nil
  then show ?case by (simp add: op_list_def ops_on_def tx_writes_def on_ns_def)
next
  case (Cons n l)
  have 1: "list_all (\<lambda>c. CollectionName c \<noteq> []) (CollHashedRwSets n)" using Cons.prems by simp
  have 2: "\<forall>n\<in>set l. list_all (\<lambda>c. CollectionName c \<noteq> []) (CollHashedRwSets n)" using Cons.prems by simp
  have o: "ops_on (ckey ns [] k) (op_list mm \<lparr>NsRwSets = n # l\<rparr>) =
      ops_on (ckey ns [] k) (ns_op_list mm n) @ ops_on (ckey ns [] k) (op_list mm \<lparr>NsRwSets = l\<rparr>)"
    by (simp add: op_list_def)
  let ?ms = "filter (\<lambda>m. mKey m = k) (MetadataWrites (KvRwSet n))"
  show ?case
    using Cons.IH [OF 2] filter_metas [of mm ?ms]
    by (simp add: o ns_ops_on [OF 1] tx_writes_def tx_metas_def on_ns_def)
qed

lemma distinct_filter_key: "distinct (map f l) \<Longrightarrow> length (filter (\<lambda>x. f x = k) l) \<le> 1"
  by (induction l) (auto simp: filter_empty_conv image_iff)

lemma rwset_once_ops:
  assumes "rwset_once rw"
  shows "filter is_write_op (ops_on (ckey ns [] k) (op_list mm rw)) = map write_op (tx_writes rw ns k)"
    and "length (tx_writes rw ns k) \<le> 1"
    and "length (filter (\<lambda>x. \<not> is_write_op x) (ops_on (ckey ns [] k) (op_list mm rw))) \<le> 1"
proof -
  have rw: "rw = \<lparr>NsRwSets = NsRwSets rw\<rparr>" by simp
  have c: "\<forall>n\<in>set (NsRwSets rw). list_all (\<lambda>c. CollectionName c \<noteq> []) (CollHashedRwSets n)"
    using assms by (auto simp: rwset_once_def list_all_iff)
  note f = op_list_filter [OF c, folded rw, of ns k mm]
  then show "filter is_write_op (ops_on (ckey ns [] k) (op_list mm rw)) = map write_op (tx_writes rw ns k)" by simp
  have d: "distinct (map wKey (on_ns (\<lambda>n. Writes (KvRwSet n)) rw ns)) \<and>
      distinct (map mKey (on_ns (\<lambda>n. MetadataWrites (KvRwSet n)) rw ns))"
  proof (cases "\<exists>n\<in>set (NsRwSets rw). NameSpace n = ns")
    case True
    then show ?thesis using assms by (auto simp: rwset_once_def list_all_iff)
  next
    case False
    then have "filter (\<lambda>n. NameSpace n = ns) (NsRwSets rw) = []" by (auto simp: filter_empty_conv)
    then show ?thesis by (simp add: on_ns_def)
  qed
  show "length (tx_writes rw ns k) \<le> 1" unfolding tx_writes_def by (rule distinct_filter_key) (use d in simp)
  have "length (tx_metas rw ns k) \<le> 1" unfolding tx_metas_def by (rule distinct_filter_key) (use d in simp)
  then show "length (filter (\<lambda>x. \<not> is_write_op x) (ops_on (ckey ns [] k) (op_list mm rw))) \<le> 1" using f by simp
qed

text \<open>At most one write and at most one metadata operation: the flags tell them apart.\<close>

lemma one_write_ops:
  assumes w: "filter is_write_op l = map write_op ws" and l: "length ws \<le> 1" "length (filter (\<lambda>x. \<not> is_write_op x) l) \<le> 1"
    and ne: "l \<noteq> []"
  defines "ops \<equiv> fold upd_op l no_op"
  shows "case ws of
      [] \<Rightarrow> \<not> ko_isDelete ops \<and> \<not> isUpsertAndMetadataUpdate ops \<and> \<not> isOnlyUpsert ops
    | x # _ \<Rightarrow> ko_isDelete ops = IsDelete x \<and> (\<not> IsDelete x \<longrightarrow> koValue ops = wValue x \<and>
        (isUpsertAndMetadataUpdate ops \<or> isOnlyUpsert ops))"
proof -
  have "length l = length (filter is_write_op l) + length (filter (\<lambda>x. \<not> is_write_op x) l)"
    by (simp add: sum_length_filter_compl)
  then have "length l \<le> 2" using w l by simp
  then consider x where "l = [x]" | x y where "l = [x, y]"
    using ne by (cases l; cases "tl l"; cases "tl (tl l)") auto
  then show ?thesis
  proof cases
    case 1
    then show ?thesis
      using w l unfolding ops_def
      by (cases x; cases ws) (auto simp: write_op_def flag_defs ko_isDelete_def isUpsertAndMetadataUpdate_def isOnlyUpsert_def split: if_splits)
  next
    case 2
    then show ?thesis
      using w l unfolding ops_def
      by (cases x; cases y; cases ws)
        (auto simp: write_op_def flag_defs ko_isDelete_def isUpsertAndMetadataUpdate_def isOnlyUpsert_def split: if_splits)
  qed
qed

lemma ApplyWriteSet_Get:
  assumes "ApplyWriteSet mm rw h db u = Inr u1"
  shows "let l = ops_on (ckey ns [] k) (op_list mm rw) in
    if l = [] then ub_Get (PubUpdates u1) ns k = ub_Get (PubUpdates u) ns k
    else \<exists>r. prepare_op u db (ckey ns [] k) (fold upd_op l no_op) = Inr r \<and>
      (case r of
         None \<Rightarrow> ub_Get (PubUpdates u1) ns k = ub_Get (PubUpdates u) ns k
       | Some ops \<Rightarrow> ub_Get (PubUpdates u1) ns k = Some (op_entry h ops) \<and> (ko_isDelete ops \<or> koValue ops \<noteq> None))"
proof -
  obtain l1 where l1: "prepare_ops u db (applyTxRwset mm rw []) = Inr l1" "foldE (apply_op h) l1 u = Inr u1"
    using assms by (auto simp: ApplyWriteSet_def prepareTxOps_def)
  have "distinct (map fst (applyTxRwset mm rw []))" by (simp add: applyTxRwset_ops distinct_do_op)
  note p = prepare_ops_lookup [OF l1(1) this]
  note q = p [THEN conjunct2, THEN conjunct2, rule_format, of "ckey ns [] k"]
  note g = foldE_apply_op_Get [OF l1(2) p [THEN conjunct1], of ns k]
  show ?thesis
  proof (cases "ops_on (ckey ns [] k) (op_list mm rw) = []")
    case True
    then show ?thesis using q g by (simp add: applyTxRwset_lookup)
  next
    case False
    then show ?thesis
      using q g by (cases "map_of l1 (ckey ns [] k)") (simp_all add: applyTxRwset_lookup)
  qed
qed

lemma vals_update:
  "ub_Get (PubUpdates u) ns k = Some vv \<Longrightarrow> vals db u ns k = Value vv"
  by (simp add: vals_def state_view_update)

lemma vals_same: "ub_Get (PubUpdates u1) ns k = ub_Get (PubUpdates u) ns k \<Longrightarrow> vals db u1 ns k = vals db u ns k"
  by (simp add: vals_def state_view_def end_value_def)

lemma vals_db: "db_ok db \<Longrightarrow> ub_Get (PubUpdates u) ns k = None \<Longrightarrow> GetState db ns k = Inr x \<Longrightarrow>
  vals db u ns k = (case x of None \<Rightarrow> None | Some vv \<Rightarrow> Value vv)"
  using state_view_db [of db "PubUpdates u" ns k x] by (simp add: vals_def)

lemma retrieveLatestState_vals:
  assumes "db_ok db" "retrieveLatestState (ckey ns [] k) u db = Inr r"
  shows "vals db u ns k = (case r of None \<Rightarrow> None | Some vv \<Rightarrow> Value vv)"
  using assms vals_db [OF assms(1)] vals_update
  by (cases "ub_Get (PubUpdates u) ns k") (auto simp: retrieveLatestState_def)

lemma ApplyWriteSet_vals:
  assumes once: "rwset_once rw" and db: "db_ok db" and a: "ApplyWriteSet mm rw h db u = Inr u1"
  shows "vals db u1 = apply_values rw (vals db u)"
proof (intro ext)
  fix ns k
  let ?l = "ops_on (ckey ns [] k) (op_list mm rw)" and ?ck = "ckey ns [] k"
  note g = ApplyWriteSet_Get [OF a, of ns k, unfolded Let_def]
  note o = rwset_once_ops(1) [OF once, where ns = ns and k = k and mm = mm]
    rwset_once_ops(2) [OF once, where ns = ns and k = k] rwset_once_ops(3) [OF once, where ns = ns and k = k and mm = mm]
  show "vals db u1 ns k = apply_values rw (vals db u) ns k"
  proof (cases "?l = []")
    case True
    then have "tx_writes rw ns k = []" using o(1) by simp
    moreover have "ub_Get (PubUpdates u1) ns k = ub_Get (PubUpdates u) ns k" using g True by simp
    note vals_same [OF this, of db]
    ultimately show ?thesis by (simp add: apply_values_def written_def)
  next
    case False
    define ops where "ops = fold upd_op ?l no_op"
    note w = one_write_ops [OF o False, folded ops_def]
    obtain r where r: "prepare_op u db ?ck ops = Inr r" and g1: "case r of
         None \<Rightarrow> ub_Get (PubUpdates u1) ns k = ub_Get (PubUpdates u) ns k
       | Some ops \<Rightarrow> ub_Get (PubUpdates u1) ns k = Some (op_entry h ops) \<and> (ko_isDelete ops \<or> koValue ops \<noteq> None)"
      using g unfolding if_not_P [OF False] ops_def by blast
    show ?thesis
    proof (cases "tx_writes rw ns k")
      case Nil
      then have f: "\<not> ko_isDelete ops" "\<not> isUpsertAndMetadataUpdate ops" "\<not> isOnlyUpsert ops" using w by simp_all
      obtain x where x: "retrieveLatestState ?ck u db = Inr x"
          "r = (case x of None \<Rightarrow> None | Some vv \<Rightarrow> Some (ops\<lparr>koValue := Value vv\<rparr>))"
        using r f by (auto simp: prepare_op_def split: option.splits)
      have d: "\<not> ko_isDelete (ops\<lparr>koValue := v\<rparr>)" for v using f(1) by (simp add: ko_isDelete_def)
      have "vals db u1 ns k = vals db u ns k"
      proof (cases x)
        case None
        then show ?thesis using g1 x(2) by (intro vals_same) simp
      next
        case (Some vv)
        then have "vals db u1 ns k = Value vv" using g1 x(2) d by (simp add: vals_update op_entry_def)
        then show ?thesis using retrieveLatestState_vals [OF db x(1)] Some by simp
      qed
      then show ?thesis using Nil by (simp add: apply_values_def written_def)
    next
      case (Cons y ys)
      have k: "ko_isDelete ops \<or> isUpsertAndMetadataUpdate ops \<or> isOnlyUpsert ops"
          "ko_isDelete ops = IsDelete y" "\<not> IsDelete y \<longrightarrow> koValue ops = wValue y"
        using w unfolding Cons by auto
      obtain o1 where o1: "r = Some o1" "flag o1 = flag ops" "koValue o1 = koValue ops"
      proof (cases "ko_isDelete ops \<or> isUpsertAndMetadataUpdate ops")
        case True
        then have "r = Some ops" using r by (simp add: prepare_op_def)
        then show ?thesis using that by simp
      next
        case False
        then obtain m where "r = Some (ops\<lparr>koMetadata := m\<rparr>)" using r k(1) by (auto simp: prepare_op_def)
        then show ?thesis using that by simp
      qed
      have "ub_Get (PubUpdates u1) ns k = Some (op_entry h o1)" using g1 o1(1) by simp
      moreover have "Value (op_entry h o1) = (if IsDelete y then None else wValue y)"
        using o1(2,3) k(2,3) by (simp add: op_entry_def ko_isDelete_def)
      ultimately show ?thesis using Cons by (simp add: apply_values_def written_def vals_update)
    qed
  qed
qed

end
