(* ===== verification/Builder.thy ===== *)
theory Builder
  imports TxOps
begin

text \<open>
  The builder of a read-write set (\<open>rwset_builder.go\<close>), which the simulation of a transaction fills. The maps
  of a builder are keyed by the raw keys, also where the messages carry hashes; \<open>sha\<close> is SHA-256. A map of
  metadata that is nil is the empty map.
\<close>

subsection \<open>State\<close>

record collHashRwBuilder =
  chCollName :: string
  chReadMap :: "(string, KVReadHash) gomap"
  chWriteMap :: "(string, KVWriteHash) gomap"
  chMetadataWriteMap :: "(string, KVMetadataWriteHash) gomap"
  pvtDataHash :: bytes

record rangeQueryKey =
  rqStartKey :: string
  rqEndKey :: string
  rqItrExhausted :: bool

record nsPubRwBuilder =
  bNamespace :: string
  readMap :: "(string, KVRead) gomap"
  writeMap :: "(string, KVWrite) gomap"
  metadataWriteMap :: "(string, KVMetadataWrite) gomap"
  rangeQueriesMap :: "rangeQueryKey \<rightharpoonup> RangeQueryInfo"
  rangeQueriesKeys :: "rangeQueryKey list"
  collHashRwBuilders :: "(string, collHashRwBuilder) gomap"

record collPvtRwBuilder =
  cpbCollectionName :: string
  cpbWriteMap :: "(string, KVWrite) gomap"
  cpbMetadataWriteMap :: "(string, KVMetadataWrite) gomap"

record nsPvtRwBuilder =
  pbNamespace :: string
  collPvtRwBuilders :: "(string, collPvtRwBuilder) gomap"

record RWSetBuilder =
  pubRwBuilderMap :: "(string, nsPubRwBuilder) gomap"
  pvtRwBuilderMap :: "(string, nsPvtRwBuilder) gomap"

definition NewRWSetBuilder :: RWSetBuilder where
  "NewRWSetBuilder = \<lparr>pubRwBuilderMap = [], pvtRwBuilderMap = []\<rparr>"

definition newNsPubRwBuilder :: "string \<Rightarrow> nsPubRwBuilder" where
  "newNsPubRwBuilder ns = \<lparr>bNamespace = ns, readMap = [], writeMap = [], metadataWriteMap = [],
     rangeQueriesMap = Map.empty, rangeQueriesKeys = [], collHashRwBuilders = []\<rparr>"

definition newNsPvtRwBuilder :: "string \<Rightarrow> nsPvtRwBuilder" where
  "newNsPvtRwBuilder ns = \<lparr>pbNamespace = ns, collPvtRwBuilders = []\<rparr>"

definition newCollHashRwBuilder :: "string \<Rightarrow> collHashRwBuilder" where
  "newCollHashRwBuilder c =
     \<lparr>chCollName = c, chReadMap = [], chWriteMap = [], chMetadataWriteMap = [], pvtDataHash = []\<rparr>"

definition newCollPvtRwBuilder :: "string \<Rightarrow> collPvtRwBuilder" where
  "newCollPvtRwBuilder c = \<lparr>cpbCollectionName = c, cpbWriteMap = [], cpbMetadataWriteMap = []\<rparr>"

text \<open>\<open>getOrCreate...\<close> and then a change of what it returned: the entry of the map is replaced.\<close>

definition get_or :: "'k \<Rightarrow> 'v \<Rightarrow> ('k, 'v) gomap \<Rightarrow> 'v" where
  "get_or k d m = (case map_of m k of None \<Rightarrow> d | Some v \<Rightarrow> v)"

definition upd_or :: "'k \<Rightarrow> 'v \<Rightarrow> ('v \<Rightarrow> 'v) \<Rightarrow> ('k, 'v) gomap \<Rightarrow> ('k, 'v) gomap" where
  "upd_or k d f m = put k (f (get_or k d m)) m"

definition getOrCreateNsPubRwBuilder :: "string \<Rightarrow> (nsPubRwBuilder \<Rightarrow> nsPubRwBuilder) \<Rightarrow> RWSetBuilder \<Rightarrow> RWSetBuilder" where
  "getOrCreateNsPubRwBuilder ns f b =
     b\<lparr>pubRwBuilderMap := upd_or ns (newNsPubRwBuilder ns) f (pubRwBuilderMap b)\<rparr>"

definition getOrCreateNsPvtRwBuilder :: "string \<Rightarrow> (nsPvtRwBuilder \<Rightarrow> nsPvtRwBuilder) \<Rightarrow> RWSetBuilder \<Rightarrow> RWSetBuilder" where
  "getOrCreateNsPvtRwBuilder ns f b =
     b\<lparr>pvtRwBuilderMap := upd_or ns (newNsPvtRwBuilder ns) f (pvtRwBuilderMap b)\<rparr>"

definition getOrCreateCollHashedRwBuilder ::
  "string \<Rightarrow> string \<Rightarrow> (collHashRwBuilder \<Rightarrow> collHashRwBuilder) \<Rightarrow> RWSetBuilder \<Rightarrow> RWSetBuilder" where
  "getOrCreateCollHashedRwBuilder ns coll f =
     getOrCreateNsPubRwBuilder ns (\<lambda>n.
       n\<lparr>collHashRwBuilders := upd_or coll (newCollHashRwBuilder coll) f (collHashRwBuilders n)\<rparr>)"

definition getOrCreateCollPvtRwBuilder ::
  "string \<Rightarrow> string \<Rightarrow> (collPvtRwBuilder \<Rightarrow> collPvtRwBuilder) \<Rightarrow> RWSetBuilder \<Rightarrow> RWSetBuilder" where
  "getOrCreateCollPvtRwBuilder ns coll f =
     getOrCreateNsPvtRwBuilder ns (\<lambda>n.
       n\<lparr>collPvtRwBuilders := upd_or coll (newCollPvtRwBuilder coll) f (collPvtRwBuilders n)\<rparr>)"

subsection \<open>Messages\<close>

definition newKVWrite :: "string \<Rightarrow> bytes option \<Rightarrow> KVWrite" where
  "newKVWrite key value = \<lparr>wKey = key, IsDelete = (value = None), wValue = value, IsWrite = False, wTxid = []\<rparr>"

definition newPvtKVReadHash :: "(bytes \<Rightarrow> bytes) \<Rightarrow> string \<Rightarrow> Height option \<Rightarrow> KVReadHash" where
  "newPvtKVReadHash sha key v = \<lparr>rhKeyHash = sha key, rhVersion = newProtoVersion v\<rparr>"

definition newPvtKVWriteAndHash :: "(bytes \<Rightarrow> bytes) \<Rightarrow> string \<Rightarrow> bytes option \<Rightarrow> KVWrite \<times> KVWriteHash" where
  "newPvtKVWriteAndHash sha key value =
     (let kvWrite = newKVWrite key value
      in (kvWrite, \<lparr>whKeyHash = sha key, whIsDelete = IsDelete kvWrite,
            whValueHash = (if \<not> IsDelete kvWrite then Some (sha (str value)) else None)\<rparr>))"

text \<open>\<open>GetValuesBySortedKeys\<close> for a map with string keys.\<close>

definition GetValuesBySortedKeys :: "(string, 'v) gomap \<Rightarrow> 'v list" where
  "GetValuesBySortedKeys m = map (\<lambda>k. the (map_of m k)) (sort (map fst m))"

definition metadata_entries :: "(string, bytes) gomap \<Rightarrow> KVMetadataEntry list" where
  "metadata_entries m = map (\<lambda>name. \<lparr>eName = name, eValue = the (map_of m name)\<rparr>) (sort (map fst m))"

definition mapToMetadataWrite :: "string \<Rightarrow> (string, bytes) gomap \<Rightarrow> KVMetadataWrite" where
  "mapToMetadataWrite key m = \<lparr>mKey = key, mEntries = metadata_entries m\<rparr>"

definition mapToMetadataWriteHash :: "(bytes \<Rightarrow> bytes) \<Rightarrow> string \<Rightarrow> (string, bytes) gomap \<Rightarrow> KVMetadataWriteHash" where
  "mapToMetadataWriteHash sha key m = \<lparr>mhKeyHash = sha key, mhEntries = metadata_entries m\<rparr>"

subsection \<open>Filling it\<close>

text \<open>What a chaincode reports: an entry that is there already is kept.\<close>

definition AddToReadSetResult :: "string \<Rightarrow> KVRead \<Rightarrow> RWSetBuilder \<Rightarrow> RWSetBuilder" where
  "AddToReadSetResult ns readkv =
     getOrCreateNsPubRwBuilder ns (\<lambda>n.
       if map_of (readMap n) (rKey readkv) = None then n\<lparr>readMap := put (rKey readkv) readkv (readMap n)\<rparr> else n)"

definition AddToWriteSetResult :: "string \<Rightarrow> KVWrite \<Rightarrow> RWSetBuilder \<Rightarrow> RWSetBuilder" where
  "AddToWriteSetResult ns writekv =
     getOrCreateNsPubRwBuilder ns (\<lambda>n.
       if map_of (writeMap n) (wKey writekv) = None then n\<lparr>writeMap := put (wKey writekv) writekv (writeMap n)\<rparr> else n)"

definition AddToReadSet :: "string \<Rightarrow> string \<Rightarrow> Height option \<Rightarrow> RWSetBuilder \<Rightarrow> RWSetBuilder" where
  "AddToReadSet ns key v =
     getOrCreateNsPubRwBuilder ns (\<lambda>n. n\<lparr>readMap := put key (NewKVRead key v) (readMap n)\<rparr>)"

definition AddToWriteSet :: "string \<Rightarrow> string \<Rightarrow> bytes option \<Rightarrow> RWSetBuilder \<Rightarrow> RWSetBuilder" where
  "AddToWriteSet ns key value =
     getOrCreateNsPubRwBuilder ns (\<lambda>n. n\<lparr>writeMap := put key (newKVWrite key value) (writeMap n)\<rparr>)"

definition AddToMetadataWriteSet :: "string \<Rightarrow> string \<Rightarrow> (string, bytes) gomap \<Rightarrow> RWSetBuilder \<Rightarrow> RWSetBuilder" where
  "AddToMetadataWriteSet ns key metadata =
     getOrCreateNsPubRwBuilder ns (\<lambda>n.
       n\<lparr>metadataWriteMap := put key (mapToMetadataWrite key metadata) (metadataWriteMap n)\<rparr>)"

definition AddToRangeQuerySet :: "string \<Rightarrow> RangeQueryInfo \<Rightarrow> RWSetBuilder \<Rightarrow> RWSetBuilder" where
  "AddToRangeQuerySet ns rqi =
     getOrCreateNsPubRwBuilder ns (\<lambda>n.
       let key = \<lparr>rqStartKey = StartKey rqi, rqEndKey = EndKey rqi, rqItrExhausted = ItrExhausted rqi\<rparr> in
       if rangeQueriesMap n key = None
       then n\<lparr>rangeQueriesMap := (rangeQueriesMap n)(key \<mapsto> rqi), rangeQueriesKeys := rangeQueriesKeys n @ [key]\<rparr>
       else n)"

definition AddToHashedReadSet ::
  "(bytes \<Rightarrow> bytes) \<Rightarrow> string \<Rightarrow> string \<Rightarrow> string \<Rightarrow> Height option \<Rightarrow> RWSetBuilder \<Rightarrow> RWSetBuilder" where
  "AddToHashedReadSet sha ns coll key v =
     getOrCreateCollHashedRwBuilder ns coll (\<lambda>c. c\<lparr>chReadMap := put key (newPvtKVReadHash sha key v) (chReadMap c)\<rparr>)"

definition AddToPvtAndHashedWriteSet ::
  "(bytes \<Rightarrow> bytes) \<Rightarrow> string \<Rightarrow> string \<Rightarrow> string \<Rightarrow> bytes option \<Rightarrow> RWSetBuilder \<Rightarrow> RWSetBuilder" where
  "AddToPvtAndHashedWriteSet sha ns coll key value b =
     (let (kvWrite, kvWriteHash) = newPvtKVWriteAndHash sha key value;
          b1 = getOrCreateCollPvtRwBuilder ns coll (\<lambda>c. c\<lparr>cpbWriteMap := put key kvWrite (cpbWriteMap c)\<rparr>) b
      in getOrCreateCollHashedRwBuilder ns coll (\<lambda>c. c\<lparr>chWriteMap := put key kvWriteHash (chWriteMap c)\<rparr>) b1)"

definition AddToHashedMetadataWriteSet ::
  "(bytes \<Rightarrow> bytes) \<Rightarrow> string \<Rightarrow> string \<Rightarrow> string \<Rightarrow> (string, bytes) gomap \<Rightarrow> RWSetBuilder \<Rightarrow> RWSetBuilder" where
  "AddToHashedMetadataWriteSet sha ns coll key metadata b =
     (let b1 = getOrCreateCollPvtRwBuilder ns coll (\<lambda>c.
            c\<lparr>cpbMetadataWriteMap := put key \<lparr>mKey = key, mEntries = []\<rparr> (cpbMetadataWriteMap c)\<rparr>) b
      in getOrCreateCollHashedRwBuilder ns coll (\<lambda>c.
           c\<lparr>chMetadataWriteMap := put key (mapToMetadataWriteHash sha key metadata) (chMetadataWriteMap c)\<rparr>) b1)"

subsection \<open>The read-write set\<close>

definition collHash_build :: "collHashRwBuilder \<Rightarrow> CollHashedRwSet" where
  "collHash_build b =
     \<lparr>CollectionName = chCollName b,
      HashedRwSet = \<lparr>HashedReads = GetValuesBySortedKeys (chReadMap b), HashedWrites = GetValuesBySortedKeys (chWriteMap b),
        hMetadataWrites = GetValuesBySortedKeys (chMetadataWriteMap b)\<rparr>,
      PvtRwSetHash = pvtDataHash b\<rparr>"

definition nsPub_build :: "nsPubRwBuilder \<Rightarrow> NsRwSet" where
  "nsPub_build b =
     \<lparr>NameSpace = bNamespace b,
      KvRwSet = \<lparr>Reads = GetValuesBySortedKeys (readMap b),
        RangeQueriesInfo = map (\<lambda>k. the (rangeQueriesMap b k)) (rangeQueriesKeys b),
        Writes = GetValuesBySortedKeys (writeMap b), MetadataWrites = GetValuesBySortedKeys (metadataWriteMap b)\<rparr>,
      CollHashedRwSets = map collHash_build (GetValuesBySortedKeys (collHashRwBuilders b))\<rparr>"

definition collPvt_build :: "collPvtRwBuilder \<Rightarrow> CollPvtRwSet" where
  "collPvt_build b =
     \<lparr>pvCollectionName = cpbCollectionName b,
      pvKvRwSet = \<lparr>Reads = [], RangeQueriesInfo = [], Writes = GetValuesBySortedKeys (cpbWriteMap b),
        MetadataWrites = GetValuesBySortedKeys (cpbMetadataWriteMap b)\<rparr>\<rparr>"

definition nsPvt_build :: "nsPvtRwBuilder \<Rightarrow> NsPvtRwSet" where
  "nsPvt_build b =
     \<lparr>pvNameSpace = pbNamespace b, CollPvtRwSets = map collPvt_build (GetValuesBySortedKeys (collPvtRwBuilders b))\<rparr>"

definition GetTxReadWriteSet :: "RWSetBuilder \<Rightarrow> TxRwSet" where
  "GetTxReadWriteSet b = \<lparr>NsRwSets = map nsPub_build (GetValuesBySortedKeys (pubRwBuilderMap b))\<rparr>"

definition getTxPvtReadWriteSet :: "RWSetBuilder \<Rightarrow> TxPvtRwSet option" where
  "getTxPvtReadWriteSet b =
     (let l = map nsPvt_build (GetValuesBySortedKeys (pvtRwBuilderMap b))
      in if l = [] then None else Some \<lparr>NsPvtRwSets = l\<rparr>)"

definition setPvtCollectionHash :: "(bytes \<Rightarrow> bytes) \<Rightarrow> string \<Rightarrow> string \<Rightarrow> bytes \<Rightarrow> RWSetBuilder \<Rightarrow> RWSetBuilder" where
  "setPvtCollectionHash sha ns coll p = getOrCreateCollHashedRwBuilder ns coll (\<lambda>c. c\<lparr>pvtDataHash := sha p\<rparr>)"

text \<open>The public results, the private ones if there are any, and the builder after it.\<close>

definition GetTxSimulationResults ::
  "codec \<Rightarrow> (bytes \<Rightarrow> bytes) \<Rightarrow> RWSetBuilder \<Rightarrow> ((TxReadWriteSet \<times> TxPvtReadWriteSet option) \<times> RWSetBuilder) go" where
  "GetTxSimulationResults cd sha b =
     bindE (case getTxPvtReadWriteSet b of
              None \<Rightarrow> Inr (None, b)
            | Some p \<Rightarrow>
                bindE (of_option ''marshal'' (txPvt_toProtoMsg cd p)) (\<lambda>m.
                  Inr (Some m, fold (\<lambda>n. fold (\<lambda>c. setPvtCollectionHash sha (npNamespace n) (cpCollectionName c) (cpRwset c))
                    (CollectionPvtRwset n)) (NsPvtRwset m) b))) (\<lambda>(pvt, b1).
     bindE (of_option ''marshal'' (tx_toProtoMsg cd (GetTxReadWriteSet b1))) (\<lambda>pub. Inr ((pub, pvt), b1)))"

subsection \<open>Maps whose values carry their keys\<close>

definition keyed :: "('k \<Rightarrow> 'v \<Rightarrow> bool) \<Rightarrow> ('k, 'v) gomap \<Rightarrow> bool" where
  "keyed P m \<longleftrightarrow> distinct (map fst m) \<and> (\<forall>k v. map_of m k = Some v \<longrightarrow> P k v)"

lemma keyed_Nil [simp]: "keyed P []"
  by (simp add: keyed_def)

lemma keyed_put: "keyed P m \<Longrightarrow> P k v \<Longrightarrow> keyed P (put k v m)"
  by (simp add: keyed_def distinct_update)

lemma keyed_upd_or:
  assumes "keyed P m" "P k d" "\<And>v. P k v \<Longrightarrow> P k (f v)"
  shows "keyed P (upd_or k d f m)"
proof -
  have "P k (get_or k d m)" using assms(1,2) by (auto simp: get_or_def keyed_def split: option.split)
  then show ?thesis using assms(1,3) by (simp add: upd_or_def keyed_put)
qed

lemma map_of_upd_or: "map_of (upd_or k d f m) = (map_of m)(k \<mapsto> f (get_or k d m))"
  by (simp add: upd_or_def)

text \<open>The values in the order of their keys: one for each key.\<close>

lemma values_keys:
  assumes "keyed P m" "\<And>k v. P k v \<Longrightarrow> key v = k"
  shows "map key (GetValuesBySortedKeys m) = sort (map fst m)"
proof -
  have "key (the (map_of m k)) = k" if "k \<in> set (map fst m)" for k
  proof -
    have "k \<in> dom (map_of m)" using that by (simp add: dom_map_of_conv_image_fst)
    then obtain v where "map_of m k = Some v" by blast
    then show ?thesis using assms by (simp add: keyed_def)
  qed
  then have "map (\<lambda>k. key (the (map_of m k))) (sort (map fst m)) = sort (map fst m)" by (intro map_idI) simp
  then show ?thesis by (simp add: GetValuesBySortedKeys_def comp_def)
qed

lemma values_sorted:
  assumes "keyed P m" "\<And>k v. P k v \<Longrightarrow> key v = k"
  shows "sorted_wrt (<) (map key (GetValuesBySortedKeys m))"
  using assms(1) by (simp add: values_keys [OF assms] keyed_def strict_sorted_iff)

lemma set_values: "v \<in> set (GetValuesBySortedKeys m) \<longleftrightarrow> (\<exists>k. map_of m k = Some v)"
proof -
  have "v \<in> set (GetValuesBySortedKeys m) \<longleftrightarrow> (\<exists>k\<in>dom (map_of m). v = the (map_of m k))"
    by (auto simp: GetValuesBySortedKeys_def dom_map_of_conv_image_fst)
  then show ?thesis by force
qed

lemma filter_values:
  assumes "keyed P m" "\<And>k v. P k v \<Longrightarrow> key v = k"
  shows "filter (\<lambda>v. key v = k) (GetValuesBySortedKeys m) = (case map_of m k of None \<Rightarrow> [] | Some v \<Rightarrow> [v])"
proof -
  let ?l = "GetValuesBySortedKeys m"
  have d: "length (filter (\<lambda>v. key v = k) ?l) \<le> 1"
    using values_sorted [OF assms] by (intro distinct_filter_key) (simp add: strict_sorted_iff)
  have kv: "map_of m k1 = Some v \<Longrightarrow> key v = k1" for k1 v using assms unfolding keyed_def by blast
  have m: "v \<in> set (filter (\<lambda>v. key v = k) ?l) \<longleftrightarrow> map_of m k = Some v" for v
    using kv set_values [of v m] by auto
  show ?thesis
  proof (cases "filter (\<lambda>v. key v = k) ?l")
    case Nil
    then have "\<not> (\<exists>v. map_of m k = Some v)" using m by (metis empty_iff empty_set)
    then show ?thesis using Nil by (cases "map_of m k") auto
  next
    case (Cons v vs)
    then have "vs = []" using d by simp
    then show ?thesis using Cons m [of v] by simp
  qed
qed

subsection \<open>The invariant of a builder\<close>

definition coll_ok :: "string \<Rightarrow> collHashRwBuilder \<Rightarrow> bool" where
  "coll_ok c b \<longleftrightarrow> chCollName b = c \<and> c \<noteq> []"

definition ns_ok :: "string \<Rightarrow> nsPubRwBuilder \<Rightarrow> bool" where
  "ns_ok ns n \<longleftrightarrow> bNamespace n = ns \<and> keyed (\<lambda>k r. rKey r = k) (readMap n) \<and> keyed (\<lambda>k w. wKey w = k) (writeMap n) \<and>
     keyed (\<lambda>k w. mKey w = k) (metadataWriteMap n) \<and> keyed coll_ok (collHashRwBuilders n)"

abbreviation builder_ok :: "RWSetBuilder \<Rightarrow> bool" where
  "builder_ok b \<equiv> keyed ns_ok (pubRwBuilderMap b)"

lemma ns_ok_new [simp]: "ns_ok ns (newNsPubRwBuilder ns)"
  by (simp add: ns_ok_def newNsPubRwBuilder_def)

lemma builder_ok_upd:
  "builder_ok b \<Longrightarrow> (\<And>n. ns_ok ns n \<Longrightarrow> ns_ok ns (f n)) \<Longrightarrow> builder_ok (getOrCreateNsPubRwBuilder ns f b)"
  by (simp add: getOrCreateNsPubRwBuilder_def keyed_upd_or)

lemma builder_ok_coll:
  assumes "builder_ok b" "coll \<noteq> []" "\<And>c. chCollName (f c) = chCollName c"
  shows "builder_ok (getOrCreateCollHashedRwBuilder ns coll f b)"
proof -
  have "keyed coll_ok m \<Longrightarrow> keyed coll_ok (upd_or coll (newCollHashRwBuilder coll) f m)" for m
    using assms(2,3) by (intro keyed_upd_or) (auto simp: coll_ok_def newCollHashRwBuilder_def)
  then show ?thesis
    unfolding getOrCreateCollHashedRwBuilder_def by (intro builder_ok_upd [OF assms(1)]) (simp add: ns_ok_def)
qed

lemma builder_ok_pvt [simp]: "builder_ok (getOrCreateCollPvtRwBuilder ns coll f b) = builder_ok b"
  by (simp add: getOrCreateCollPvtRwBuilder_def getOrCreateNsPvtRwBuilder_def)

lemma builder_ok_New [simp]: "builder_ok NewRWSetBuilder"
  by (simp add: NewRWSetBuilder_def)

subsection \<open>Sequences of operations\<close>

datatype builder_op =
    ReadResult string KVRead
  | WriteResult string KVWrite
  | ReadKey string string "Height option"
  | WriteKey string string "bytes option"
  | WriteMetadata string string "(string, bytes) gomap"
  | QueryRange string RangeQueryInfo
  | ReadHash string string string "Height option"
  | WritePvt string string string "bytes option"
  | WriteHashMetadata string string string "(string, bytes) gomap"

fun build_step :: "(bytes \<Rightarrow> bytes) \<Rightarrow> builder_op \<Rightarrow> RWSetBuilder \<Rightarrow> RWSetBuilder" where
  "build_step sha (ReadResult ns r) = AddToReadSetResult ns r"
| "build_step sha (WriteResult ns w) = AddToWriteSetResult ns w"
| "build_step sha (ReadKey ns k v) = AddToReadSet ns k v"
| "build_step sha (WriteKey ns k v) = AddToWriteSet ns k v"
| "build_step sha (WriteMetadata ns k m) = AddToMetadataWriteSet ns k m"
| "build_step sha (QueryRange ns q) = AddToRangeQuerySet ns q"
| "build_step sha (ReadHash ns c k v) = AddToHashedReadSet sha ns c k v"
| "build_step sha (WritePvt ns c k v) = AddToPvtAndHashedWriteSet sha ns c k v"
| "build_step sha (WriteHashMetadata ns c k m) = AddToHashedMetadataWriteSet sha ns c k m"

fun names_coll :: "builder_op \<Rightarrow> bool" where
  "names_coll (ReadHash ns c k v) \<longleftrightarrow> c \<noteq> []"
| "names_coll (WritePvt ns c k v) \<longleftrightarrow> c \<noteq> []"
| "names_coll (WriteHashMetadata ns c k m) \<longleftrightarrow> c \<noteq> []"
| "names_coll _ \<longleftrightarrow> True"

lemmas add_defs = AddToReadSetResult_def AddToWriteSetResult_def AddToReadSet_def AddToWriteSet_def
  AddToMetadataWriteSet_def AddToRangeQuerySet_def

lemma ns_ok_adds:
  assumes "ns_ok ns n"
  shows "rKey r = k \<Longrightarrow> ns_ok ns (n\<lparr>readMap := put k r (readMap n)\<rparr>)"
    and "wKey w = k \<Longrightarrow> ns_ok ns (n\<lparr>writeMap := put k w (writeMap n)\<rparr>)"
    and "mKey m = k \<Longrightarrow> ns_ok ns (n\<lparr>metadataWriteMap := put k m (metadataWriteMap n)\<rparr>)"
    and "ns_ok ns (n\<lparr>rangeQueriesMap := qm, rangeQueriesKeys := qk\<rparr>)"
  using assms by (simp_all add: ns_ok_def keyed_put)

lemma build_step_ok:
  assumes "builder_ok b" "names_coll op"
  shows "builder_ok (build_step sha op b)"
proof (cases op)
  case (ReadHash ns c k v)
  then show ?thesis using assms by (simp add: AddToHashedReadSet_def builder_ok_coll)
next
  case (WritePvt ns c k v)
  then show ?thesis using assms by (simp add: AddToPvtAndHashedWriteSet_def Let_def builder_ok_coll split: prod.split)
next
  case (WriteHashMetadata ns c k m)
  then show ?thesis using assms by (simp add: AddToHashedMetadataWriteSet_def builder_ok_coll)
qed (simp add: add_defs Let_def, rule builder_ok_upd [OF assms(1)],
    simp add: ns_ok_adds NewKVRead_def newKVWrite_def mapToMetadataWrite_def)+

lemma build_steps_ok:
  "builder_ok b \<Longrightarrow> list_all names_coll ops \<Longrightarrow> builder_ok (fold (build_step sha) ops b)"
  by (induction ops arbitrary: b) (simp_all add: build_step_ok)

subsection \<open>The set that is built\<close>

lemma on_ns_build:
  assumes "builder_ok b"
  shows "on_ns f (GetTxReadWriteSet b) ns = (case map_of (pubRwBuilderMap b) ns of None \<Rightarrow> [] | Some n \<Rightarrow> f (nsPub_build n))"
proof -
  have "filter (\<lambda>n. bNamespace n = ns) (GetValuesBySortedKeys (pubRwBuilderMap b)) =
      (case map_of (pubRwBuilderMap b) ns of None \<Rightarrow> [] | Some n \<Rightarrow> [n])"
    by (rule filter_values [OF assms]) (simp add: ns_ok_def)
  then show ?thesis
    by (simp add: on_ns_def GetTxReadWriteSet_def filter_map comp_def nsPub_build_def split: option.split)
qed

lemma ns_ok_of: "builder_ok b \<Longrightarrow> map_of (pubRwBuilderMap b) ns = Some n \<Longrightarrow> ns_ok ns n"
  by (simp add: keyed_def)

abbreviation ns_of :: "RWSetBuilder \<Rightarrow> string \<Rightarrow> nsPubRwBuilder" where
  "ns_of b ns \<equiv> get_or ns (newNsPubRwBuilder ns) (pubRwBuilderMap b)"

lemma tx_writes_build:
  assumes "builder_ok b"
  shows "tx_writes (GetTxReadWriteSet b) ns k = (case map_of (writeMap (ns_of b ns)) k of None \<Rightarrow> [] | Some w \<Rightarrow> [w])"
proof (cases "map_of (pubRwBuilderMap b) ns")
  case (Some n)
  then have "keyed (\<lambda>k w. wKey w = k) (writeMap n)" using ns_ok_of [OF assms] by (simp add: ns_ok_def)
  from filter_values [OF this, of wKey k] show ?thesis
    using Some by (simp add: tx_writes_def on_ns_build [OF assms] nsPub_build_def get_or_def)
qed (simp add: tx_writes_def on_ns_build [OF assms] get_or_def newNsPubRwBuilder_def)

lemma builder_ok_once:
  assumes "builder_ok b"
  shows "rwset_once (GetTxReadWriteSet b)"
proof -
  have "list_all (\<lambda>c. CollectionName c \<noteq> []) (CollHashedRwSets n) \<and>
      distinct (map wKey (on_ns (\<lambda>n. Writes (KvRwSet n)) (GetTxReadWriteSet b) (NameSpace n))) \<and>
      distinct (map mKey (on_ns (\<lambda>n. MetadataWrites (KvRwSet n)) (GetTxReadWriteSet b) (NameSpace n)))"
    if "n \<in> set (NsRwSets (GetTxReadWriteSet b))" for n
  proof -
    note n = that
    obtain ns x where x: "n = nsPub_build x" "map_of (pubRwBuilderMap b) ns = Some x"
      using n by (auto simp: GetTxReadWriteSet_def set_values)
    have o: "bNamespace x = ns" "keyed (\<lambda>k w. wKey w = k) (writeMap x)" "keyed (\<lambda>k w. mKey w = k) (metadataWriteMap x)"
        "keyed coll_ok (collHashRwBuilders x)"
      using ns_ok_of [OF assms x(2)] by (simp_all add: ns_ok_def)
    have "list_all (\<lambda>c. CollectionName c \<noteq> []) (CollHashedRwSets n)"
      using o(4) by (auto simp: x(1) nsPub_build_def list_all_iff set_values collHash_build_def keyed_def coll_ok_def)
    moreover have "distinct (map wKey (GetValuesBySortedKeys (writeMap x)))" "distinct (map mKey (GetValuesBySortedKeys (metadataWriteMap x)))"
      using values_sorted [OF o(2)] values_sorted [OF o(3)] by (simp_all add: strict_sorted_iff)
    ultimately show ?thesis using x o(1) by (simp add: on_ns_build [OF assms] nsPub_build_def)
  qed
  then show ?thesis by (auto simp: rwset_once_def list_all_iff)
qed

text \<open>The write that a sequence of operations leaves for a key.\<close>

fun write_of :: "string \<Rightarrow> string \<Rightarrow> builder_op \<Rightarrow> KVWrite option \<Rightarrow> KVWrite option" where
  "write_of ns k (WriteKey n key v) w = (if n = ns \<and> key = k then Some (newKVWrite k v) else w)"
| "write_of ns k (WriteResult n x) w = (if n = ns \<and> wKey x = k \<and> w = None then Some x else w)"
| "write_of ns k _ w = w"

lemma get_or_upd: "get_or ns (newNsPubRwBuilder ns) (pubRwBuilderMap (getOrCreateNsPubRwBuilder n f b)) =
  (if n = ns then f (ns_of b ns) else ns_of b ns)"
  by (auto simp: getOrCreateNsPubRwBuilder_def get_or_def map_of_upd_or)

lemma build_step_write:
  "map_of (writeMap (ns_of (build_step sha op b) ns)) k = write_of ns k op (map_of (writeMap (ns_of b ns)) k)"
  by (cases op)
    (auto simp: add_defs AddToHashedReadSet_def AddToPvtAndHashedWriteSet_def AddToHashedMetadataWriteSet_def Let_def
      get_or_upd getOrCreateCollHashedRwBuilder_def getOrCreateCollPvtRwBuilder_def getOrCreateNsPvtRwBuilder_def
      newPvtKVWriteAndHash_def)

lemma build_steps_write:
  "map_of (writeMap (ns_of (fold (build_step sha) ops b) ns)) k = fold (write_of ns k) ops (map_of (writeMap (ns_of b ns)) k)"
  by (induction ops arbitrary: b) (simp_all add: build_step_write)

text \<open>C33. Whatever is put into a builder, and in whatever order, the read-write set that it builds has its
  namespaces, its reads and its writes in strictly ascending order of their keys, has at most one write for a
  key, and the write of a key is the last one that the simulation made, or the first one that the chaincode
  reported if the simulation made none before.\<close>

theorem built_rwset:
  fixes sha ops
  assumes "list_all names_coll ops"
  defines "rw \<equiv> GetTxReadWriteSet (fold (build_step sha) ops NewRWSetBuilder)"
  shows "rwset_once rw \<and> sorted_wrt (<) (map NameSpace (NsRwSets rw)) \<and>
    (\<forall>n\<in>set (NsRwSets rw). sorted_wrt (<) (map rKey (Reads (KvRwSet n))) \<and> sorted_wrt (<) (map wKey (Writes (KvRwSet n)))) \<and>
    tx_writes rw ns k = (case fold (write_of ns k) ops None of None \<Rightarrow> [] | Some w \<Rightarrow> [w])"
proof (intro conjI ballI)
  let ?b = "fold (build_step sha) ops NewRWSetBuilder"
  have ok: "builder_ok ?b" by (rule build_steps_ok [OF builder_ok_New assms(1)])
  show "rwset_once rw" unfolding rw_def by (rule builder_ok_once [OF ok])
  have "map NameSpace (NsRwSets rw) = map bNamespace (GetValuesBySortedKeys (pubRwBuilderMap ?b))"
    by (simp add: rw_def GetTxReadWriteSet_def nsPub_build_def)
  then show "sorted_wrt (<) (map NameSpace (NsRwSets rw))" using values_sorted [OF ok, of bNamespace] by (simp add: ns_ok_def)
  fix n assume "n \<in> set (NsRwSets rw)"
  then obtain m x where x: "n = nsPub_build x" "map_of (pubRwBuilderMap ?b) m = Some x"
    by (auto simp: rw_def GetTxReadWriteSet_def set_values)
  have k: "keyed (\<lambda>k r. rKey r = k) (readMap x)" "keyed (\<lambda>k w. wKey w = k) (writeMap x)"
    using ns_ok_of [OF ok x(2)] by (simp_all add: ns_ok_def)
  show "sorted_wrt (<) (map rKey (Reads (KvRwSet n)))" "sorted_wrt (<) (map wKey (Writes (KvRwSet n)))"
    using values_sorted [OF k(1)] values_sorted [OF k(2)] by (simp_all add: x(1) nsPub_build_def)
next
  show "tx_writes rw ns k = (case fold (write_of ns k) ops None of None \<Rightarrow> [] | Some w \<Rightarrow> [w])"
    unfolding rw_def tx_writes_build [OF build_steps_ok [OF builder_ok_New assms(1)]] build_steps_write
    by (simp add: NewRWSetBuilder_def get_or_def newNsPubRwBuilder_def)
qed

theorem built_rwset_witness:
  "let rw = GetTxReadWriteSet (fold (build_step id)
       [WriteKey ''ns'' ''b'' (Some ''1''), ReadKey ''ns'' ''a'' None, WriteKey ''ns'' ''b'' (Some ''2''),
        WritePvt ''ns'' ''c'' ''k'' None] NewRWSetBuilder)
   in rwset_once rw \<and> tx_writes rw ''ns'' ''b'' = [newKVWrite ''b'' (Some ''2'')]"
  using built_rwset [of "[WriteKey ''ns'' ''b'' (Some ''1''), ReadKey ''ns'' ''a'' None, WriteKey ''ns'' ''b'' (Some ''2''),
        WritePvt ''ns'' ''c'' ''k'' None]" id "''ns''" "''b''"]
  by simp

end
