(* ===== verification/StateValidator.thy ===== *)
theory StateValidator
  imports TxOps
begin

text \<open>
  The state-based validator (\<open>state_based_validator.go\<close>): the check of the reads of every transaction of a block
  against the state as the valid transactions before it leave it. In this repository a public read is checked
  by its value, and only if it is marked as a read.
\<close>

record val_env =
  veHash :: hash_env
  veMarshal :: "KVMetadataWrite \<Rightarrow> bytes option"

subsection \<open>Public reads\<close>

text \<open>\<open>bytes.Equal\<close>, for which nil is the empty slice.\<close>

definition bytes_Equal :: "bytes option \<Rightarrow> bytes option \<Rightarrow> bool" where
  "bytes_Equal a b \<longleftrightarrow> str a = str b"

definition validateKVRead :: "state_db \<Rightarrow> string \<Rightarrow> KVRead \<Rightarrow> UpdateBatch \<Rightarrow> bool go" where
  "validateKVRead db ns kvRead updates =
     (if ub_Exists updates ns (rKey kvRead) then
        (case ub_Get updates ns (rKey kvRead) of
           None \<Rightarrow> Inr (rValue kvRead = None)
         | Some vv \<Rightarrow> Inr (bytes_Equal (Value vv) (rValue kvRead)))
      else bindE (GetState db ns (rKey kvRead)) (\<lambda>committed.
        case committed of
          None \<Rightarrow> Inr (rValue kvRead = None)
        | Some vv \<Rightarrow> Inr (bytes_Equal (Value vv) (rValue kvRead))))"

text \<open>A loop that stops at the first check that fails or that has an error.\<close>

fun all_valid :: "('a \<Rightarrow> bool go) \<Rightarrow> 'a list \<Rightarrow> bool go" where
  "all_valid f [] = Inr True"
| "all_valid f (x # xs) = bindE (f x) (\<lambda>valid. if valid then all_valid f xs else Inr False)"

definition validateReadSet :: "state_db \<Rightarrow> string \<Rightarrow> KVRead list \<Rightarrow> UpdateBatch \<Rightarrow> bool go" where
  "validateReadSet db ns kvReads updates =
     all_valid (\<lambda>r. if IsRead r then validateKVRead db ns r updates else Inr True) kvReads"

subsection \<open>Range queries\<close>

definition GetReadsMerkleHashes :: "RangeQueryInfo \<Rightarrow> QueryReadsMerkleSummary option" where
  "GetReadsMerkleHashes rq = (case qReadsInfo rq of Some (ReadsMerkleHashes ms) \<Rightarrow> Some ms | _ \<Rightarrow> None)"

text \<open>
  A loop that does not return is None in \<open>rangeQueryHash_validate\<close>. It does not occur for an iterator that can
  be made, and it is a failure of its own here.
\<close>

definition returned :: "'a go option \<Rightarrow> 'a go" where
  "returned r = (case r of None \<Rightarrow> Inl (Panic ''does not return'') | Some x \<Rightarrow> x)"

definition validateRangeQuery :: "hash_env \<Rightarrow> state_db \<Rightarrow> string \<Rightarrow> RangeQueryInfo \<Rightarrow> UpdateBatch \<Rightarrow> bool go" where
  "validateRangeQuery he db ns rq updates =
     bindE (newCombinedIterator db updates ns (StartKey rq) (EndKey rq) (\<not> ItrExhausted rq)) (\<lambda>itr.
       case GetReadsMerkleHashes rq of
         Some ms \<Rightarrow> returned (rangeQueryHash_validate he db ms itr)
       | None \<Rightarrow> rangeQueryResults_validate db rq itr)"

definition validateRangeQueries ::
  "hash_env \<Rightarrow> state_db \<Rightarrow> string \<Rightarrow> RangeQueryInfo list \<Rightarrow> UpdateBatch \<Rightarrow> bool go" where
  "validateRangeQueries he db ns rqs updates = all_valid (\<lambda>rq. validateRangeQuery he db ns rq updates) rqs"

subsection \<open>Hashed reads\<close>

definition validateKVReadHash :: "state_db \<Rightarrow> string \<Rightarrow> string \<Rightarrow> KVReadHash \<Rightarrow> UpdateMap \<Rightarrow> bool go" where
  "validateKVReadHash db ns coll r updates =
     (if um_Contains updates ns coll (rhKeyHash r) then Inr False
      else bindE (GetKeyHashVersion db ns coll (rhKeyHash r)) (\<lambda>committed.
        Inr (AreSame committed (NewVersion (rhVersion r)))))"

definition validateCollHashedReadSet :: "state_db \<Rightarrow> string \<Rightarrow> string \<Rightarrow> KVReadHash list \<Rightarrow> UpdateMap \<Rightarrow> bool go" where
  "validateCollHashedReadSet db ns coll rs updates = all_valid (\<lambda>r. validateKVReadHash db ns coll r updates) rs"

definition validateNsHashedReadSets :: "state_db \<Rightarrow> string \<Rightarrow> CollHashedRwSet list \<Rightarrow> UpdateMap \<Rightarrow> bool go" where
  "validateNsHashedReadSets db ns cs updates =
     all_valid (\<lambda>c. validateCollHashedReadSet db ns (CollectionName c) (HashedReads (HashedRwSet c)) updates) cs"

subsection \<open>A transaction\<close>

fun validate_ns :: "hash_env \<Rightarrow> state_db \<Rightarrow> PubAndHashUpdates \<Rightarrow> NsRwSet list \<Rightarrow> TxValidationCode go" where
  "validate_ns he db u [] = Inr VALID"
| "validate_ns he db u (n # rest) =
     bindE (validateReadSet db (NameSpace n) (Reads (KvRwSet n)) (PubUpdates u)) (\<lambda>valid.
     if \<not> valid then Inr MVCC_READ_CONFLICT
     else bindE (validateRangeQueries he db (NameSpace n) (RangeQueriesInfo (KvRwSet n)) (PubUpdates u)) (\<lambda>valid.
     if \<not> valid then Inr PHANTOM_READ_CONFLICT
     else bindE (validateNsHashedReadSets db (NameSpace n) (CollHashedRwSets n) (HashUpdates u)) (\<lambda>valid.
     if \<not> valid then Inr MVCC_READ_CONFLICT
     else validate_ns he db u rest)))"

definition validateTx :: "hash_env \<Rightarrow> state_db \<Rightarrow> TxRwSet option \<Rightarrow> PubAndHashUpdates \<Rightarrow> TxValidationCode go" where
  "validateTx he db rw u = bindE (deref rw) (\<lambda>x. validate_ns he db u (NsRwSets x))"

definition validateEndorserTX ::
  "hash_env \<Rightarrow> state_db \<Rightarrow> TxRwSet option \<Rightarrow> bool \<Rightarrow> PubAndHashUpdates \<Rightarrow> TxValidationCode go" where
  "validateEndorserTX he db rw doMVCCValidation u = (if doMVCCValidation then validateTx he db rw u else Inr VALID)"

subsection \<open>A block\<close>

text \<open>The keys of all reads, each once, in the order in which they are met.\<close>

definition read_keys :: "TxRwSet \<Rightarrow> (string \<times> string) list" where
  "read_keys rw = concat (map (\<lambda>n. map (\<lambda>r. (NameSpace n, rKey r)) (Reads (KvRwSet n))) (NsRwSets rw))"

definition hashed_read_keys :: "TxRwSet \<Rightarrow> (string \<times> string \<times> bytes) list" where
  "hashed_read_keys rw =
     concat (map (\<lambda>n. concat (map (\<lambda>c. map (\<lambda>r. (NameSpace n, CollectionName c, rhKeyHash r))
       (HashedReads (HashedRwSet c))) (CollHashedRwSets n))) (NsRwSets rw))"

definition add_new :: "'a \<Rightarrow> 'a list \<Rightarrow> 'a list" where
  "add_new x xs = (if x \<in> set xs then xs else xs @ [x])"

definition preLoadCommittedVersionOfRSet :: "state_db \<Rightarrow> val_Block \<Rightarrow> unit go" where
  "preLoadCommittedVersionOfRSet db block =
     bindE (foldE (\<lambda>tx (p, h). bindE (deref (RWSet tx)) (\<lambda>rw.
         Inr (fold add_new (read_keys rw) p, fold add_new (hashed_read_keys rw) h))) (vbTxs block) ([], []))
       (\<lambda>(pubKeys, hashedKeys).
         if pubKeys \<noteq> [] \<or> hashedKeys \<noteq> [] then LoadCommittedVersions db pubKeys hashedKeys else Inr ())"

text \<open>
  One transaction: its code is set and, if it is valid, its writes are added to the updates. An error of
  \<open>ApplyWriteSet\<close> is dropped, a panic is not.
\<close>

definition apply_valid ::
  "val_env \<Rightarrow> state_db \<Rightarrow> u64 \<Rightarrow> Transaction \<Rightarrow> PubAndHashUpdates \<Rightarrow> PubAndHashUpdates go" where
  "apply_valid ve db num tx u =
     bindE (deref (RWSet tx)) (\<lambda>rw.
       case ApplyWriteSet (veMarshal ve) rw (Some (NewHeight num (word_of_int (IndexInBlock tx)))) db u of
         Inl (Err e) \<Rightarrow> Inr u
       | r \<Rightarrow> r)"

definition validate_step ::
  "val_env \<Rightarrow> state_db \<Rightarrow> bool \<Rightarrow> u64 \<Rightarrow> Transaction \<Rightarrow> Transaction list \<times> PubAndHashUpdates \<Rightarrow>
   (Transaction list \<times> PubAndHashUpdates) go" where
  "validate_step ve db doMVCC num tx s =
     (case s of (done, u) \<Rightarrow>
        bindE (validateEndorserTX (veHash ve) db (RWSet tx) doMVCC u) (\<lambda>code.
        bindE (if code = VALID then apply_valid ve db num tx u else Inr u) (\<lambda>u1.
          Inr (done @ [tx\<lparr>ValidationCode := code\<rparr>], u1))))"

definition ValidateAndPrepareBatch ::
  "val_env \<Rightarrow> state_db \<Rightarrow> val_Block \<Rightarrow> bool \<Rightarrow> (Transaction list \<times> PubAndHashUpdates) go" where
  "ValidateAndPrepareBatch ve db block doMVCC =
     bindE (if IsBulkOptimizable db then preLoadCommittedVersionOfRSet db block else Inr ()) (\<lambda>_.
       foldE (validate_step ve db doMVCC (vbNum block)) (vbTxs block) ([], NewPubAndHashUpdates))"

subsection \<open>Valid reads\<close>

lemma all_valid_True [simp]: "all_valid f xs = Inr True \<longleftrightarrow> (\<forall>x\<in>set xs. f x = Inr True)"
proof (induction xs)
  case (Cons x xs)
  show ?case using Cons by (cases "f x") auto
qed simp

lemma all_valid_total: "(\<And>x. x \<in> set xs \<Longrightarrow> \<exists>b. f x = Inr b) \<Longrightarrow> \<exists>b. all_valid f xs = Inr b"
proof (induction xs)
  case (Cons x xs)
  obtain b where "f x = Inr b" using Cons.prems by fastforce
  moreover obtain c where "all_valid f xs = Inr c" using Cons.IH Cons.prems by (meson list.set_intros(2))
  ultimately show ?case by (cases b) auto
qed auto

text \<open>The reads that are checked have the values of the state \<open>s\<close>.\<close>

definition reads_match :: "(string \<Rightarrow> string \<Rightarrow> bytes option) \<Rightarrow> TxRwSet \<Rightarrow> bool" where
  "reads_match s rw \<longleftrightarrow> (\<forall>n\<in>set (NsRwSets rw). \<forall>r\<in>set (Reads (KvRwSet n)).
     IsRead r \<longrightarrow> bytes_Equal (s (NameSpace n) (rKey r)) (rValue r))"

lemma validateKVRead_vals:
  assumes "db_ok db" "validateKVRead db ns r (PubUpdates u) = Inr b"
  shows "b \<Longrightarrow> bytes_Equal (vals db u ns (rKey r)) (rValue r)"
    and "vals db u ns (rKey r) = rValue r \<Longrightarrow> b"
proof -
  have "b \<longrightarrow> bytes_Equal (vals db u ns (rKey r)) (rValue r)" "vals db u ns (rKey r) = rValue r \<longrightarrow> b"
  proof (atomize (full), cases "ub_Get (PubUpdates u) ns (rKey r)")
    case None
    obtain x where x: "GetState db ns (rKey r) = Inr x" using assms None by (auto simp: validateKVRead_def ub_Exists_Get)
    show "(b \<longrightarrow> bytes_Equal (vals db u ns (rKey r)) (rValue r)) \<and> (vals db u ns (rKey r) = rValue r \<longrightarrow> b)"
      using assms(2) None x vals_db [OF assms(1) None x]
      by (cases x) (auto simp: validateKVRead_def ub_Exists_Get bytes_Equal_def)
  next
    case (Some vv)
    show "(b \<longrightarrow> bytes_Equal (vals db u ns (rKey r)) (rValue r)) \<and> (vals db u ns (rKey r) = rValue r \<longrightarrow> b)"
      using assms(2) Some vals_update [OF Some, of db]
      by (auto simp: validateKVRead_def ub_Exists_Get bytes_Equal_def)
  qed
  then show "b \<Longrightarrow> bytes_Equal (vals db u ns (rKey r)) (rValue r)"
    and "vals db u ns (rKey r) = rValue r \<Longrightarrow> b" by blast+
qed

lemma validate_ns_reads:
  "db_ok db \<Longrightarrow> validate_ns he db u l = Inr VALID \<Longrightarrow> reads_match (vals db u) \<lparr>NsRwSets = l\<rparr>"
proof (induction l)
  case (Cons n l)
  have v: "validateReadSet db (NameSpace n) (Reads (KvRwSet n)) (PubUpdates u) = Inr True" "validate_ns he db u l = Inr VALID"
    using Cons.prems(2) by (auto split: if_splits)
  have "bytes_Equal (vals db u (NameSpace n) (rKey r)) (rValue r)" if "r \<in> set (Reads (KvRwSet n))" "IsRead r" for r
    using v(1) that validateKVRead_vals(1) [OF Cons.prems(1), of "NameSpace n" r u True]
    by (auto simp: validateReadSet_def)
  then show ?case using Cons.IH [OF Cons.prems(1) v(2)] by (simp add: reads_match_def)
qed (simp add: reads_match_def)

lemma validateTx_reads:
  assumes "db_ok db" "validateTx he db (Some rw) u = Inr VALID"
  shows "reads_match (vals db u) rw"
  using validate_ns_reads [OF assms(1), of he u "NsRwSets rw"] assms(2) by (simp add: validateTx_def reads_match_def)

subsection \<open>A block is a serial execution\<close>

text \<open>What the code relies on of the database in addition: its lookups of metadata and hashes succeed.\<close>

definition db_total :: "state_db \<Rightarrow> bool" where
  "db_total db \<longleftrightarrow> (\<forall>ns k. \<exists>m. GetStateMetadata db ns k = Inr m) \<and>
     (\<forall>ns c k. \<exists>m. GetPrivateDataMetadataByHash db ns c k = Inr m) \<and>
     (\<forall>ns c k. \<exists>v. GetValueHash db ns c k = Inr v)"

text \<open>
  \<open>serial s txs s1\<close>: executed one after the other from the state \<open>s\<close>, the valid transactions read what they had
  read in their simulation, and their writes give the state \<open>s1\<close>.
\<close>

fun serial :: "(string \<Rightarrow> string \<Rightarrow> bytes option) \<Rightarrow> Transaction list \<Rightarrow> (string \<Rightarrow> string \<Rightarrow> bytes option) \<Rightarrow> bool" where
  "serial s [] s1 \<longleftrightarrow> s1 = s"
| "serial s (tx # txs) s1 \<longleftrightarrow>
     (if ValidationCode tx = VALID
      then (\<exists>rw. RWSet tx = Some rw \<and> reads_match s rw \<and> serial (apply_values rw s) txs s1)
      else serial s txs s1)"

lemma serial_append: "serial s (xs @ ys) s1 \<longleftrightarrow> (\<exists>s2. serial s xs s2 \<and> serial s2 ys s1)"
proof (induction xs arbitrary: s)
  case (Cons x xs)
  show ?case using Cons.IH by (cases "ValidationCode x = VALID") auto
qed simp

lemma retrieveLatestMetadata_total: "db_total db \<Longrightarrow> \<exists>m. retrieveLatestMetadata ck u db = Inr m"
  unfolding retrieveLatestMetadata_def db_total_def by (auto split: option.split)

lemma prepare_op_total: "db_ok db \<Longrightarrow> db_total db \<Longrightarrow> \<exists>r. prepare_op u db ck ops = Inr r"
proof -
  assume db: "db_ok db" "db_total db"
  have "\<exists>v. GetState db ns k = Inr v" for ns k using db(1) unfolding db_ok_def by blast
  then have "\<exists>r. retrieveLatestState ck u db = Inr r"
    using db(2) unfolding retrieveLatestState_def db_total_def by (auto split: option.split)
  moreover have "\<exists>r. retrieveLatestMetadata ck u db = Inr r" using db(2) by (rule retrieveLatestMetadata_total)
  ultimately obtain r m where "retrieveLatestState ck u db = Inr r" "retrieveLatestMetadata ck u db = Inr m" by blast
  then show ?thesis unfolding prepare_op_def by (cases r) auto
qed

lemma prepare_ops_total: "db_ok db \<Longrightarrow> db_total db \<Longrightarrow> \<exists>l1. prepare_ops u db l = Inr l1"
proof (induction l)
  case (Cons c l)
  obtain ck ops where c: "c = (ck, ops)" by (cases c)
  obtain r where "prepare_op u db ck ops = Inr r" using prepare_op_total [OF Cons.prems] by blast
  then show ?case using Cons.IH [OF Cons.prems] c by auto
qed simp

lemma apply_op_not_Err: "apply_op h c u \<noteq> Inl (Err e)"
  by (cases c) (auto simp: apply_op_def ub_PutValAndMetadata_def um_PutValAndMetadata_def)

lemma foldE_apply_op_not_Err: "foldE (apply_op h) l u \<noteq> Inl (Err e)"
proof (induction l arbitrary: u)
  case (Cons c l)
  then show ?case using apply_op_not_Err [of h c u e] by (cases "apply_op h c u") auto
qed simp

lemma ApplyWriteSet_not_Err:
  assumes "db_ok db" "db_total db"
  shows "ApplyWriteSet mm rw h db u \<noteq> Inl (Err e)"
proof -
  obtain l1 where "prepareTxOps mm rw u db = Inr l1"
    using prepare_ops_total [OF assms] unfolding prepareTxOps_def by blast
  then show ?thesis using foldE_apply_op_not_Err by (simp add: ApplyWriteSet_def)
qed

lemma validate_step_serial:
  assumes "db_ok db" "db_total db" "\<forall>rw. RWSet tx = Some rw \<longrightarrow> rwset_once rw"
    and st: "validate_step ve db True num tx (txs, u) = Inr (txs1, u1)"
  shows "\<exists>code. txs1 = txs @ [tx\<lparr>ValidationCode := code\<rparr>] \<and>
    serial (vals db u) [tx\<lparr>ValidationCode := code\<rparr>] (vals db u1)"
proof -
  obtain code where c: "validateTx (veHash ve) db (RWSet tx) u = Inr code"
      "(if code = VALID then apply_valid ve db num tx u else Inr u) = Inr u1" "txs1 = txs @ [tx\<lparr>ValidationCode := code\<rparr>]"
    using st by (auto simp: validate_step_def validateEndorserTX_def)
  obtain rw where rw: "RWSet tx = Some rw" using c(1) by (cases "RWSet tx") (auto simp: validateTx_def)
  have "serial (vals db u) [tx\<lparr>ValidationCode := code\<rparr>] (vals db u1)"
  proof (cases "code = VALID")
    case True
    obtain h where "ApplyWriteSet (veMarshal ve) rw h db u = Inr u1"
      using c(2) True rw ApplyWriteSet_not_Err [OF assms(1,2)]
      by (auto simp: apply_valid_def split: sum.splits go_err.splits)
    then have "vals db u1 = apply_values rw (vals db u)" using ApplyWriteSet_vals assms(1,3) rw by blast
    moreover have "reads_match (vals db u) rw" using validateTx_reads [OF assms(1)] c(1) True rw by simp
    ultimately show ?thesis using True rw by simp
  qed (use c(2) in simp)
  then show ?thesis using c(3) by blast
qed

abbreviation no_code :: "Transaction \<Rightarrow> Transaction" where
  "no_code tx \<equiv> tx\<lparr>ValidationCode := VALID\<rparr>"

definition tx_once :: "Transaction \<Rightarrow> bool" where
  "tx_once tx \<longleftrightarrow> (case RWSet tx of None \<Rightarrow> True | Some rw \<Rightarrow> rwset_once rw)"

lemma validate_steps_serial:
  assumes "db_ok db" "db_total db"
  shows "list_all tx_once l \<Longrightarrow> foldE (validate_step ve db True num) l (txs0, u0) = Inr (txs, u) \<Longrightarrow>
    \<exists>ys. txs = txs0 @ ys \<and> map no_code ys = map no_code l \<and> serial (vals db u0) ys (vals db u)"
proof (induction l arbitrary: txs0 u0)
  case (Cons tx l)
  obtain txs1 u1 where st: "validate_step ve db True num tx (txs0, u0) = Inr (txs1, u1)"
      "foldE (validate_step ve db True num) l (txs1, u1) = Inr (txs, u)" using Cons.prems(2) by auto
  have once: "\<forall>rw. RWSet tx = Some rw \<longrightarrow> rwset_once rw" using Cons.prems(1) by (auto simp: tx_once_def)
  obtain code where c: "txs1 = txs0 @ [tx\<lparr>ValidationCode := code\<rparr>]"
      "serial (vals db u0) [tx\<lparr>ValidationCode := code\<rparr>] (vals db u1)"
    using validate_step_serial [OF assms once st(1)] by blast
  obtain ys where ys: "txs = txs1 @ ys" "map no_code ys = map no_code l" "serial (vals db u1) ys (vals db u)"
    using Cons.IH [OF _ st(2)] Cons.prems(1) by auto
  have "serial (vals db u0) ([tx\<lparr>ValidationCode := code\<rparr>] @ ys) (vals db u)"
    using c(2) ys(3) unfolding serial_append by blast
  then show ?case using c(1) ys(1,2) by (intro exI [of _ "tx\<lparr>ValidationCode := code\<rparr> # ys"]) simp
qed simp

text \<open>The committed value of a key.\<close>

definition committed :: "state_db \<Rightarrow> string \<Rightarrow> string \<Rightarrow> bytes option" where
  "committed db ns k = (case GetState db ns k of Inr (Some vv) \<Rightarrow> Value vv | _ \<Rightarrow> None)"

lemma vals_New: "db_ok db \<Longrightarrow> vals db NewPubAndHashUpdates = committed db"
proof (intro ext)
  fix ns k
  assume db: "db_ok db"
  then obtain x where "GetState db ns k = Inr x" unfolding db_ok_def by blast
  then show "vals db NewPubAndHashUpdates ns k = committed db ns k"
    using vals_db [OF db, of NewPubAndHashUpdates ns k x]
    by (simp add: committed_def NewPubAndHashUpdates_def ub_Get_New split: option.splits)
qed


subsection \<open>Range queries\<close>

lemma validateRangeQuery_items:
  assumes "db_ok db" "ub_wf u"
  shows "\<exists>xs itr. serves db xs itr \<and>
    validateRangeQuery he db ns rq u =
       (case GetReadsMerkleHashes rq of
          Some ms \<Rightarrow> returned (rangeQueryHash_validate he db ms itr)
        | None \<Rightarrow> rangeQueryResults_validate db rq itr) \<and>
    newCombinedIterator db u ns (StartKey rq) (EndKey rq) (\<not> ItrExhausted rq) = Inr itr"
proof -
  obtain itr l where i: "newCombinedIterator db u ns (StartKey rq) (EndKey rq) (\<not> ItrExhausted rq) = Inr itr" "ci_ok itr"
    using newCombinedIterator_ok [OF assms] by metis
  have "\<exists>v. GetState db (ciNs itr) (ciEndKey itr) = Inr v" using assms(1) unfolding db_ok_def by blast
  then have "serves db (merged (ci_db itr) (ci_ups itr) @ end_item db itr) itr" by (rule serves_merged [OF i(2)])
  then show ?thesis using i(1) by (intro exI conjI) (simp_all add: validateRangeQuery_def)
qed

text \<open>C7. A range query whose results were recorded passes validation if and only if the recorded keys and versions
  are the entries of the range, in the order of the keys, in the state after the valid transactions before it:
  there are no phantoms.
\<close>

theorem validateRangeQuery_exact:
  assumes "db_ok db" "ub_wf u" "qReadsInfo rq = Some (RawReads rs)" "list_all (\<lambda>r. rVersion r \<noteq> None) rs"
    "ItrExhausted rq \<or> EndKey rq \<noteq> []"
  shows "validateRangeQuery he db ns rq u =
    Inr (map (\<lambda>r. (rKey r, NewVersion (rVersion r))) rs =
      range_entries db u ns (StartKey rq) (EndKey rq) (\<not> ItrExhausted rq))"
proof -
  obtain ys itr where i: "validateRangeQuery he db ns rq u = rangeQueryResults_validate db rq itr"
      "newCombinedIterator db u ns (StartKey rq) (EndKey rq) (\<not> ItrExhausted rq) = Inr itr"
    using validateRangeQuery_items [OF assms(1,2), of he ns rq] assms(3) by (auto simp: GetReadsMerkleHashes_def)
  obtain xs where x: "serves db xs itr" "key_sorted xs"
      "vkKey ` set xs = range_view db u ns (StartKey rq) (EndKey rq) (\<not> ItrExhausted rq)"
      "\<forall>x\<in>set xs. view_item db u ns x"
    using view_items [OF assms(1,2) _ i(2)] assms(5) by blast
  show ?thesis
    unfolding i(1) rangeQueryResults_validate_serves [OF x(1) assms(3,4)] same_results_def view_entries [OF x(2-4)] ..
qed

text \<open>C37. A range query recorded with a summary whose maximum degree is below two makes the validation dereference
  a nil helper: the error of the validator's initialisation is dropped.
\<close>

theorem bad_degree_panics:
  assumes "db_ok db" "ub_wf u" "qReadsInfo rq = Some (ReadsMerkleHashes ms)" "MaxDegree ms < 2"
  shows "validateRangeQuery he db ns rq u = Inl NilDeref"
proof -
  obtain xs itr where i: "serves db xs itr"
      "validateRangeQuery he db ns rq u = returned (rangeQueryHash_validate he db ms itr)"
    using validateRangeQuery_items [OF assms(1,2), of he ns rq] assms(3) by (auto simp: GetReadsMerkleHashes_def)
  obtain r where "ci_Next db itr = Inr r" using i(1) by (cases xs) auto
  moreover have "NewRangeQueryResultsHelper True (MaxDegree ms) =
      Inl (Err ''maxDegree should not be less than 2 in the merkle tree'')"
    using assms(4) by (simp add: NewRangeQueryResultsHelper_def newMerkleTree_def)
  ultimately show ?thesis using i(2) by (simp add: rangeQueryHash_validate_def returned_def)
qed

subsection \<open>Blocks that are validated without a failure\<close>

fun plain_op :: "key_op \<Rightarrow> bool" where
  "plain_op (OpUpsert v) \<longleftrightarrow> v \<noteq> None"
| "plain_op OpDelete \<longleftrightarrow> True"
| "plain_op _ \<longleftrightarrow> False"

definition plain_query :: "RangeQueryInfo \<Rightarrow> bool" where
  "plain_query rq \<longleftrightarrow> (case qReadsInfo rq of
     Some (ReadsMerkleHashes _) \<Rightarrow> False | Some (RawReads rs) \<Rightarrow> list_all (\<lambda>r. rVersion r \<noteq> None) rs | None \<Rightarrow> True)"

text \<open>
  A transaction without metadata writes and without summaries of range queries, that writes a key once.
\<close>

definition plain_rwset :: "(KVMetadataWrite \<Rightarrow> bytes option) \<Rightarrow> TxRwSet \<Rightarrow> bool" where
  "plain_rwset mm rw \<longleftrightarrow> distinct (map fst (op_list mm rw)) \<and> list_all (\<lambda>c. plain_op (snd c)) (op_list mm rw) \<and>
     list_all (\<lambda>n. list_all plain_query (RangeQueriesInfo (KvRwSet n))) (NsRwSets rw)"

definition plain_tx :: "(KVMetadataWrite \<Rightarrow> bytes option) \<Rightarrow> Transaction \<Rightarrow> bool" where
  "plain_tx mm tx \<longleftrightarrow> (case RWSet tx of None \<Rightarrow> False | Some rw \<Rightarrow> plain_rwset mm rw)"

definition db_reads :: "state_db \<Rightarrow> bool" where
  "db_reads db \<longleftrightarrow> (\<forall>ns c k. \<exists>v. GetKeyHashVersion db ns c k = Inr v) \<and> (\<forall>p h. LoadCommittedVersions db p h = Inr ())"

lemma validateRangeQuery_total:
  assumes "db_ok db" "ub_wf u" "plain_query rq"
  shows "\<exists>b. validateRangeQuery he db ns rq u = Inr b"
proof -
  have g: "GetReadsMerkleHashes rq = None"
    using assms(3) by (auto simp: plain_query_def GetReadsMerkleHashes_def split: option.splits ReadsInfo.splits)
  obtain xs itr where i: "serves db xs itr" "validateRangeQuery he db ns rq u = rangeQueryResults_validate db rq itr"
    using validateRangeQuery_items [OF assms(1,2), of he ns rq] g by auto
  obtain r itr1 where n: "ci_Next db itr = Inr (r, itr1)" using i(1) by (cases xs) auto
  show ?thesis
  proof (cases "qReadsInfo rq")
    case None
    then show ?thesis unfolding i(2) using n by (simp add: rangeQueryResults_validate_def)
  next
    case (Some q)
    then obtain rs where "q = RawReads rs" "list_all (\<lambda>r. rVersion r \<noteq> None) rs"
      using assms(3) by (cases q) (auto simp: plain_query_def)
    then show ?thesis unfolding i(2) using rangeQueryResults_validate_serves [OF i(1)] Some by simp
  qed
qed

lemma validate_ns_total:
  assumes "db_ok db" "db_reads db" "ub_wf (PubUpdates u)"
  shows "list_all (\<lambda>n. list_all plain_query (RangeQueriesInfo (KvRwSet n))) l \<Longrightarrow> \<exists>c. validate_ns he db u l = Inr c"
proof (induction l)
  case (Cons n l)
  have g: "\<exists>v. GetState db ns k = Inr v" for ns k using assms(1) unfolding db_ok_def by blast
  have k: "\<exists>v. GetKeyHashVersion db ns c k = Inr v" for ns c k using assms(2) unfolding db_reads_def by blast
  have "\<exists>b. validateKVRead db ns r v = Inr b" for ns r v
  proof -
    obtain x where "GetState db ns (rKey r) = Inr x" using g by blast
    then show ?thesis by (cases x) (auto simp: validateKVRead_def split: option.split)
  qed
  then obtain b1 where b1: "validateReadSet db (NameSpace n) (Reads (KvRwSet n)) (PubUpdates u) = Inr b1"
    unfolding validateReadSet_def
    using all_valid_total [of _ "\<lambda>r. if IsRead r then validateKVRead db (NameSpace n) r (PubUpdates u) else Inr True"]
    by fastforce
  obtain b2 where b2: "validateRangeQueries he db (NameSpace n) (RangeQueriesInfo (KvRwSet n)) (PubUpdates u) = Inr b2"
    unfolding validateRangeQueries_def
    using all_valid_total [of "RangeQueriesInfo (KvRwSet n)" "\<lambda>rq. validateRangeQuery he db (NameSpace n) rq (PubUpdates u)"]
      validateRangeQuery_total [OF assms(1,3)] Cons.prems by (auto simp: list_all_iff)
  have "\<exists>b. validateKVReadHash db ns c r v = Inr b" for ns c r v
    using k [of ns c "rhKeyHash r"] by (auto simp: validateKVReadHash_def)
  then have "\<exists>b. validateCollHashedReadSet db ns c rs v = Inr b" for ns c rs v
    unfolding validateCollHashedReadSet_def by (rule all_valid_total)
  then obtain b3 where b3: "validateNsHashedReadSets db (NameSpace n) (CollHashedRwSets n) (HashUpdates u) = Inr b3"
    unfolding validateNsHashedReadSets_def
    using all_valid_total [of "CollHashedRwSets n"
      "\<lambda>c. validateCollHashedReadSet db (NameSpace n) (CollectionName c) (HashedReads (HashedRwSet c)) (HashUpdates u)"]
    by blast
  obtain c where "validate_ns he db u l = Inr c" using Cons by auto
  then show ?case using b1 b2 b3 by simp
qed simp

definition ready :: "compositeKey \<times> keyOps \<Rightarrow> bool" where
  "ready c \<longleftrightarrow> ko_isDelete (snd c) \<or> koValue (snd c) \<noteq> None"

lemma prepare_plain:
  assumes "db_ok db" "db_total db" "plain_op x"
  shows "\<exists>o1. prepare_op u db ck (upd_op x no_op) = Inr (Some o1) \<and> ready (ck, o1)"
proof (cases x)
  case (OpUpsert v)
  obtain m where "retrieveLatestMetadata ck u db = Inr m"
    using retrieveLatestMetadata_total [OF assms(2)] by blast
  then show ?thesis
    using OpUpsert assms(3)
    by (auto simp: prepare_op_def ready_def flag_defs ko_isDelete_def isUpsertAndMetadataUpdate_def isOnlyUpsert_def)
qed (use assms(3) in \<open>auto simp: prepare_op_def ready_def flag_defs ko_isDelete_def\<close>)

lemma prepare_ops_ready:
  assumes "db_ok db" "db_total db"
  shows "\<forall>(ck, ops)\<in>set l. \<exists>x. plain_op x \<and> ops = upd_op x no_op \<Longrightarrow> \<exists>l1. prepare_ops u db l = Inr l1 \<and> list_all ready l1"
proof (induction l)
  case (Cons c l)
  obtain ck ops x where c: "c = (ck, ops)" "plain_op x" "ops = upd_op x no_op" using Cons.prems by (cases c) auto
  obtain o1 where "prepare_op u db ck ops = Inr (Some o1)" "ready (ck, o1)"
    using prepare_plain [OF assms c(2)] c(3) by blast
  then show ?case using Cons c(1) by auto
qed simp

lemma plain_entries:
  assumes "distinct (map fst l)" "list_all (\<lambda>c. plain_op (snd c)) l" "(ck, ops) \<in> set (fold do_op l [])"
  shows "\<exists>x. plain_op x \<and> ops = upd_op x no_op"
proof -
  have "map_of (fold do_op l []) ck = Some ops" by (rule map_of_is_SomeI [OF distinct_do_op assms(3)]) simp
  then have o: "ops_on ck l \<noteq> []" "ops = fold upd_op (ops_on ck l) no_op"
    by (auto simp: do_op_lookup getOrCreateKeyEntry_def split: if_splits)
  moreover have "length (ops_on ck l) \<le> 1" unfolding ops_on_def length_map by (rule distinct_filter_key [OF assms(1)])
  ultimately obtain x where "ops_on ck l = [x]" by (cases "ops_on ck l"; cases "tl (ops_on ck l)") auto
  moreover from this have "x \<in> snd ` set l" unfolding ops_on_def by (metis (no_types) filter_is_subset image_mono list.set_intros(1) list.set_map subsetD)
  ultimately show ?thesis using o(2) assms(2) by (auto simp: list_all_iff)
qed

lemma apply_op_ready:
  assumes "ready c" "ub_wf (PubUpdates u)"
  shows "\<exists>u1. apply_op h c u = Inr u1 \<and> ub_wf (PubUpdates u1)"
  using assms
  by (cases c) (auto simp: ready_def apply_op_def ub_Delete_def ub_PutValAndMetadata_def um_PutValAndMetadata_def ub_wf_Update)

lemma ApplyWriteSet_plain:
  assumes "db_ok db" "db_total db" "plain_rwset mm rw" "ub_wf (PubUpdates u)"
  shows "\<exists>u1. ApplyWriteSet mm rw h db u = Inr u1 \<and> ub_wf (PubUpdates u1)"
proof -
  have "\<forall>(ck, ops)\<in>set (applyTxRwset mm rw []). \<exists>x. plain_op x \<and> ops = upd_op x no_op"
    using plain_entries assms(3) unfolding applyTxRwset_ops plain_rwset_def by blast
  then obtain l1 where l1: "prepare_ops u db (applyTxRwset mm rw []) = Inr l1" "list_all ready l1"
    using prepare_ops_ready [OF assms(1,2)] by blast
  have "\<exists>u1. foldE (apply_op h) l1 u = Inr u1 \<and> ub_wf (PubUpdates u1)"
    by (rule foldE_total [where I = "\<lambda>u. ub_wf (PubUpdates u)"]) (use assms(4) apply_op_ready l1(2) in \<open>auto simp: list_all_iff\<close>)
  then show ?thesis using l1(1) by (simp add: ApplyWriteSet_def prepareTxOps_def)
qed

lemma validate_step_plain:
  assumes "db_ok db" "db_total db" "db_reads db" "plain_tx (veMarshal ve) tx" "ub_wf (PubUpdates u)"
  shows "\<exists>txs1 u1. validate_step ve db True num tx (txs, u) = Inr (txs1, u1) \<and> ub_wf (PubUpdates u1)"
proof -
  obtain rw where rw: "RWSet tx = Some rw" "plain_rwset (veMarshal ve) rw"
    using assms(4) by (auto simp: plain_tx_def split: option.splits)
  obtain c where c: "validate_ns (veHash ve) db u (NsRwSets rw) = Inr c"
    using validate_ns_total [OF assms(1,3,5)] rw(2) by (auto simp: plain_rwset_def)
  obtain u1 where "ApplyWriteSet (veMarshal ve) rw (Some (NewHeight num (word_of_int (IndexInBlock tx)))) db u = Inr u1"
      "ub_wf (PubUpdates u1)"
    using ApplyWriteSet_plain [OF assms(1,2) rw(2) assms(5)] by blast
  then show ?thesis
    using rw(1) c assms(5) by (simp add: validate_step_def validateEndorserTX_def validateTx_def apply_valid_def)
qed

text \<open>C32. The validation of a block of plain transactions returns the updates: it does not panic and has no error.
  A plain transaction writes a key once and with a value, and has no metadata writes and no summaries of range
  queries.
\<close>

theorem plain_block_returns:
  assumes "db_ok db" "db_total db" "db_reads db" "list_all (plain_tx (veMarshal ve)) (vbTxs block)"
  shows "\<exists>txs u. ValidateAndPrepareBatch ve db block True = Inr (txs, u)"
proof -
  have "\<exists>s. foldE (validate_step ve db True (vbNum block)) (vbTxs block) ([], NewPubAndHashUpdates) = Inr s \<and>
      ub_wf (PubUpdates (snd s))"
  proof (rule foldE_total [where I = "\<lambda>s. ub_wf (PubUpdates (snd s))"])
    fix tx and s :: "Transaction list \<times> PubAndHashUpdates"
    assume "tx \<in> set (vbTxs block)" "ub_wf (PubUpdates (snd s))"
    then show "\<exists>t. validate_step ve db True (vbNum block) tx s = Inr t \<and> ub_wf (PubUpdates (snd t))"
      using validate_step_plain [OF assms(1-3), of ve tx "snd s" "vbNum block" "fst s"] assms(4)
      by (auto simp: list_all_iff)
  qed (simp add: NewPubAndHashUpdates_def)
  moreover have "\<exists>s. foldE (\<lambda>tx (p, h). bindE (deref (RWSet tx)) (\<lambda>rw.
         Inr (fold add_new (read_keys rw) p, fold add_new (hashed_read_keys rw) h))) (vbTxs block) ([], []) = Inr s \<and> True"
    by (rule foldE_total [where I = "\<lambda>_. True"]) (use assms(4) in \<open>auto simp: list_all_iff plain_tx_def split: option.splits\<close>)
  then have "preLoadCommittedVersionOfRSet db block = Inr ()"
    using assms(3) by (auto simp: preLoadCommittedVersionOfRSet_def db_reads_def split: prod.splits)
  ultimately show ?thesis by (auto simp: ValidateAndPrepareBatch_def)
qed

subsection \<open>Two failures\<close>

definition ns_rw :: "string \<Rightarrow> KVRead list \<Rightarrow> KVWrite list \<Rightarrow> KVMetadataWrite list \<Rightarrow> TxRwSet" where
  "ns_rw ns rs ws ms = \<lparr>NsRwSets = [\<lparr>NameSpace = ns,
     KvRwSet = \<lparr>Reads = rs, RangeQueriesInfo = [], Writes = ws, MetadataWrites = ms\<rparr>, CollHashedRwSets = []\<rparr>]\<rparr>"

lemma validate_ns_rw: "validateEndorserTX he db (Some (ns_rw ns [] ws ms)) mvcc u = Inr VALID"
  by (simp add: validateEndorserTX_def validateTx_def ns_rw_def validateReadSet_def validateRangeQueries_def
      validateNsHashedReadSets_def)

lemma preLoad_ns_rw:
  assumes "list_all (\<lambda>tx. \<exists>ns ws ms. RWSet tx = Some (ns_rw ns [] ws ms)) (vbTxs block)"
  shows "preLoadCommittedVersionOfRSet db block = Inr ()"
proof -
  let ?f = "\<lambda>tx (p, h). bindE (deref (RWSet tx)) (\<lambda>rw.
         Inr (fold add_new (read_keys rw) p, fold add_new (hashed_read_keys rw) h))"
  have "list_all (\<lambda>tx. \<exists>ns ws ms. RWSet tx = Some (ns_rw ns [] ws ms)) l \<Longrightarrow> foldE ?f l ([], []) = Inr ([], [])" for l
    by (induction l) (auto simp: ns_rw_def read_keys_def hashed_read_keys_def)
  from this [OF assms] show ?thesis
    unfolding preLoadCommittedVersionOfRSet_def by (simp only: bindE_simps prod.case simp_thms if_False)
qed

lemma op_list_ns_rw:
  "op_list mm (ns_rw ns rs ws ms) = map (\<lambda>w. (ckey ns [] (wKey w), write_op w)) ws @
     concat (map (\<lambda>m. map (Pair (ckey ns [] (mKey m))) (meta_ops mm (mEntries m))) ms)"
  by (simp add: op_list_def ns_op_list_def ns_rw_def)



subsection \<open>A concrete block\<close>

definition ex_table :: "VersionedKV list" where
  "ex_table = [ex_entry (CHR ''a''), ex_entry (CHR ''b'')]"

definition ex_val_env :: val_env where
  "ex_val_env = \<lparr>veHash = ex_hash_env, veMarshal = (\<lambda>m. Some (concat (map eName (mEntries m))))\<rparr>"

definition ex_read :: "string \<Rightarrow> bytes option \<Rightarrow> KVRead" where
  "ex_read k v = \<lparr>rKey = k, rVersion = Some \<lparr>vBlockNum = 1, vTxNum = 0\<rparr>, rValue = v, IsRead = True, rTxid = []\<rparr>"

definition ex_write :: "string \<Rightarrow> bytes option \<Rightarrow> KVWrite" where
  "ex_write k v = \<lparr>wKey = k, IsDelete = (v = None), wValue = v, IsWrite = True, wTxid = []\<rparr>"

definition ex_val_tx :: "int \<Rightarrow> TxRwSet \<Rightarrow> Transaction" where
  "ex_val_tx i rw = \<lparr>IndexInBlock = i, ID = [], RWSet = Some rw, ValidationCode = OtherCode 254\<rparr>"

text \<open>The second transaction reads what the first one has replaced, the third reads what it has written.\<close>

definition ex_block :: val_Block where
  "ex_block = \<lparr>vbNum = 2, vbTxs = [
     ex_val_tx 0 (ns_rw ''ns'' [ex_read ''a'' (Some ''v'')] [ex_write ''a'' (Some ''w'')] []),
     ex_val_tx 1 (ns_rw ''ns'' [ex_read ''a'' (Some ''v'')] [ex_write ''a'' (Some ''x'')] []),
     ex_val_tx 2 (ns_rw ''ns'' [ex_read ''a'' (Some ''w'')] [ex_write ''b'' None] [])]\<rparr>"

lemma ex_table_ok: "db_ok (table_db ex_table)"
  by (rule table_db_ok) (simp_all add: ex_table_def ex_entry_def)

lemma table_db_total: "db_total (table_db l)" "db_reads (table_db l)"
  by (simp_all add: db_total_def db_reads_def table_db_def)

lemma ex_block_codes:
  "(case ValidateAndPrepareBatch ex_val_env (table_db ex_table) ex_block True of
      Inl _ \<Rightarrow> False
    | Inr (txs, u) \<Rightarrow> map ValidationCode txs = [VALID, MVCC_READ_CONFLICT, VALID] \<and>
        vals (table_db ex_table) u ''ns'' ''a'' = Some ''w'' \<and> vals (table_db ex_table) u ''ns'' ''b'' = None)"
  by code_simp


theorem plain_block_returns_witness:
  "\<exists>txs u. ValidateAndPrepareBatch ex_val_env (table_db ex_table) ex_block True = Inr (txs, u)"
proof -
  have "list_all (plain_tx (veMarshal ex_val_env)) (vbTxs ex_block)" by code_simp
  then show ?thesis by (rule plain_block_returns [OF ex_table_ok table_db_total])
qed

definition ex_query :: "ReadsInfo \<Rightarrow> RangeQueryInfo" where
  "ex_query r = \<lparr>StartKey = ''a'', EndKey = ''c'', ItrExhausted = True, qReadsInfo = Some r\<rparr>"

definition ex_raw :: "KVRead list" where
  "ex_raw = [ex_read ''a'' None, ex_read ''b'' None]"

text \<open>The results are the entries, and after a deletion of the second one they are not.\<close>

theorem validateRangeQuery_exact_witness:
  "map (\<lambda>r. (rKey r, NewVersion (rVersion r))) ex_raw =
     range_entries (table_db ex_table) NewUpdateBatch ''ns'' ''a'' ''c'' False \<and>
   map (\<lambda>r. (rKey r, NewVersion (rVersion r))) ex_raw \<noteq>
     range_entries (table_db ex_table) (ub_Delete ''ns'' ''b'' None NewUpdateBatch) ''ns'' ''a'' ''c'' False"
proof -
  let ?q = "ex_query (RawReads ex_raw)"
  have q: "qReadsInfo ?q = Some (RawReads ex_raw)" "list_all (\<lambda>r. rVersion r \<noteq> None) ex_raw"
      "ItrExhausted ?q \<or> EndKey ?q \<noteq> []" "StartKey ?q = ''a''" "EndKey ?q = ''c''" "(\<not> ItrExhausted ?q) = False"
    by (simp_all add: ex_query_def ex_raw_def ex_read_def)
  have w: "ub_wf NewUpdateBatch" "ub_wf (ub_Delete ''ns'' ''b'' None NewUpdateBatch)"
    by (simp_all add: ub_Delete_def ub_wf_Update)
  have r: "validateRangeQuery ex_hash_env (table_db ex_table) ''ns'' ?q NewUpdateBatch = Inr True"
      "validateRangeQuery ex_hash_env (table_db ex_table) ''ns'' ?q (ub_Delete ''ns'' ''b'' None NewUpdateBatch) = Inr False"
    by code_simp+
  show ?thesis
    using validateRangeQuery_exact [OF ex_table_ok w(1) q(1-3), of ex_hash_env "''ns''"]
      validateRangeQuery_exact [OF ex_table_ok w(2) q(1-3), of ex_hash_env "''ns''"] r
    unfolding q(4-6) by simp
qed

theorem bad_degree_panics_witness:
  "validateRangeQuery ex_hash_env (table_db ex_table) ''ns''
     (ex_query (ReadsMerkleHashes \<lparr>MaxDegree = 1, MaxLevel = 1, MaxLevelHashes = []\<rparr>)) NewUpdateBatch = Inl NilDeref"
  by (rule bad_degree_panics [OF ex_table_ok ub_wf_New, of _ "\<lparr>MaxDegree = 1, MaxLevel = 1, MaxLevelHashes = []\<rparr>"])
    (simp_all add: ex_query_def)


definition ex_failing_db :: state_db where
  "ex_failing_db = (table_db ex_table)\<lparr>GetStateMetadata := (\<lambda>_ _. Inl (Err ''connection refused''))\<rparr>"


end
