(* ===== verification/QueryHelper.thy ===== *)
theory QueryHelper
  imports Builder StateValidator
begin

text \<open>
  The reads of a transaction while it is simulated (\<open>helper.go\<close>, \<open>lockbased_query_executer.go\<close>,
  \<open>collection_val.go\<close> of \<open>lockbasedtxmgr\<close>): every read is answered from the state database and recorded in the
  builder of the read-write set. The database and the encodings are a parameter, the record \<open>sim_env\<close>.

  A helper of a query, which records nothing, has no builder. An iterator is named by its index among those that
  the helper has handed out. Closing an iterator releases what the database holds for it and is not modelled.
\<close>

subsection \<open>Operations with a state\<close>

type_synonym ('s, 'a) op = "'s \<Rightarrow> 'a go \<times> 's"

definition ret :: "'a \<Rightarrow> ('s, 'a) op" where
  "ret x s = (Inr x, s)"

definition lift :: "'a go \<Rightarrow> ('s, 'a) op" where
  "lift r s = (r, s)"

definition bindS :: "('s, 'a) op \<Rightarrow> ('a \<Rightarrow> ('s, 'b) op) \<Rightarrow> ('s, 'b) op" where
  "bindS m f s = (case m s of (Inl e, s1) \<Rightarrow> (Inl e, s1) | (Inr x, s1) \<Rightarrow> f x s1)"

definition modify :: "('s \<Rightarrow> 's) \<Rightarrow> ('s, unit) op" where
  "modify f s = (Inr (), f s)"

subsection \<open>State\<close>

text \<open>The \<open>rwSetBuilder\<close> of an iterator is the one of its helper; \<open>riRecords\<close> says that there is one.\<close>

record resultsItr =
  riNs :: string
  riEndKey :: string
  riDbItr :: "VersionedKV list"
  riRecords :: bool
  rangeQueryInfo :: "RangeQueryInfo option"
  rangeQueryResultsHelper :: "RangeQueryResultsHelper option"

record queryHelper =
  rwsetBuilder :: "RWSetBuilder option"
  collCache :: "string \<times> string \<Rightarrow> bool"
  itrs :: "resultsItr list"
  helperErr :: "go_err option"
  doneInvoked :: bool

text \<open>The values of the options of a paginated query.\<close>

datatype query_option = IntOption int | StringOption string

type_synonym query_options = "(string, query_option) gomap"

text \<open>A package of collection configurations: the names of the static ones.\<close>

type_synonym CollectionConfigPackage = "string option list"

record sim_env =
  simDb :: state_db
  GetStateMultipleKeys :: "string \<Rightarrow> string list \<Rightarrow> VersionedValue option list go"
  GetStateRangeScanIteratorWithMetadata :: "string \<Rightarrow> string \<Rightarrow> string \<Rightarrow> query_options \<Rightarrow> VersionedKV list go"
  ExecuteQuery :: "string \<Rightarrow> string \<Rightarrow> VersionedKV list go"
  ExecuteQueryWithMetadata :: "string \<Rightarrow> string \<Rightarrow> query_options \<Rightarrow> VersionedKV list go"
  GetPrivateData :: "string \<Rightarrow> string \<Rightarrow> string \<Rightarrow> VersionedValue option go"
  GetPrivateDataMultipleKeys :: "string \<Rightarrow> string \<Rightarrow> string list \<Rightarrow> VersionedValue option list go"
  GetPrivateDataRangeScanIterator :: "string \<Rightarrow> string \<Rightarrow> string \<Rightarrow> string \<Rightarrow> VersionedKV list go"
  ExecuteQueryOnPrivateData :: "string \<Rightarrow> string \<Rightarrow> string \<Rightarrow> VersionedKV list go"
  ValidateKeyValue :: "string \<Rightarrow> bytes option \<Rightarrow> unit go"
  simHash :: hash_env
  sha256 :: "bytes \<Rightarrow> bytes"
  simCodec :: codec
  unmarshalMetadata :: "bytes \<Rightarrow> KVMetadataEntry list option"
  unmarshalChaincodeData :: "bytes \<Rightarrow> (bytes \<times> string) option"
  unmarshalCollectionConfigPackage :: "bytes \<Rightarrow> CollectionConfigPackage option"

type_synonym 'a query = "(queryHelper, 'a) op"

definition newQueryHelper :: "RWSetBuilder option \<Rightarrow> queryHelper" where
  "newQueryHelper b = \<lparr>rwsetBuilder = b, collCache = (\<lambda>_. False), itrs = [], helperErr = None, doneInvoked = False\<rparr>"

definition newQueryExecutor :: queryHelper where
  "newQueryExecutor = newQueryHelper None"

definition checkDone :: "unit query" where
  "checkDone h = (if doneInvoked h then Inl (Err ''this instance should not be used after calling Done()'') else Inr (), h)"

definition qh_done :: "queryHelper \<Rightarrow> queryHelper" where
  "qh_done h = (if doneInvoked h then h else h\<lparr>doneInvoked := True\<rparr>)"

text \<open>\<open>if h.rwsetBuilder != nil\<close> and then an addition to it.\<close>

definition recorded :: "(RWSetBuilder \<Rightarrow> RWSetBuilder) \<Rightarrow> queryHelper \<Rightarrow> queryHelper" where
  "recorded f h = h\<lparr>rwsetBuilder := map_option f (rwsetBuilder h)\<rparr>"

definition decomposeVersionedValue :: "VersionedValue option \<Rightarrow> bytes option \<times> bytes option \<times> Height option" where
  "decomposeVersionedValue v = (case v of None \<Rightarrow> (None, None, None) | Some x \<Rightarrow> (Value x, vvMetadata x, vvVersion x))"

subsection \<open>Public state\<close>

definition getState :: "sim_env \<Rightarrow> string \<Rightarrow> string \<Rightarrow> (bytes option \<times> bytes option) query" where
  "getState env ns key =
     bindS checkDone (\<lambda>_. bindS (lift (GetState (simDb env) ns key)) (\<lambda>versionedValue.
       case decomposeVersionedValue versionedValue of (val, metadata, ver) \<Rightarrow>
         bindS (modify (recorded (AddToReadSet ns key ver))) (\<lambda>_. ret (val, metadata))))"

definition qe_GetState :: "sim_env \<Rightarrow> string \<Rightarrow> string \<Rightarrow> bytes option query" where
  "qe_GetState env ns key = bindS (getState env ns key) (\<lambda>(val, _). ret val)"

text \<open>The loop over several values, with \<open>add\<close> what is recorded of a key and its version.\<close>

fun read_values ::
  "(string \<Rightarrow> Height option \<Rightarrow> RWSetBuilder \<Rightarrow> RWSetBuilder) \<Rightarrow> VersionedValue option list \<Rightarrow> string list \<Rightarrow>
   bytes option list query" where
  "read_values add [] keys h = (Inr [], h)"
| "read_values add (v # vs) keys h =
     (case decomposeVersionedValue v of (val, _, ver) \<Rightarrow>
        if rwsetBuilder h \<noteq> None \<and> keys = [] then (Inl (Panic ''index out of range''), h)
        else bindS (read_values add vs (tl keys)) (\<lambda>vals. ret (val # vals)) (recorded (add (hd keys) ver) h))"

text \<open>An error of the database is dropped: no values and no error are returned.\<close>

definition getStateMultipleKeys :: "sim_env \<Rightarrow> string \<Rightarrow> string list \<Rightarrow> bytes option list query" where
  "getStateMultipleKeys env ns keys =
     bindS checkDone (\<lambda>_.
       case GetStateMultipleKeys env ns keys of
         Inl e \<Rightarrow> ret []
       | Inr versionedValues \<Rightarrow> read_values (AddToReadSet ns) versionedValues keys)"

definition DeserializeMetadata :: "sim_env \<Rightarrow> bytes option \<Rightarrow> (string, bytes) gomap go" where
  "DeserializeMetadata env metadataBytes =
     (case metadataBytes of
        None \<Rightarrow> Inr []
      | Some b \<Rightarrow> bindE (of_option ''unmarshal'' (unmarshalMetadata env b)) (\<lambda>entries.
          Inr (fold (\<lambda>e. put (eName e) (eValue e)) entries [])))"

definition getStateMetadata :: "sim_env \<Rightarrow> string \<Rightarrow> string \<Rightarrow> (string, bytes) gomap query" where
  "getStateMetadata env ns key =
     bindS checkDone (\<lambda>_ h.
       bindS (if rwsetBuilder h = None then lift (GetStateMetadata (simDb env) ns key)
              else bindS (getState env ns key) (\<lambda>(_, metadataBytes). ret metadataBytes))
         (\<lambda>metadataBytes. lift (DeserializeMetadata env metadataBytes)) h)"

subsection \<open>Names of collections\<close>

record DeployedChaincodeInfo =
  ccName :: string
  ccHash :: bytes
  ccVersion :: string
  CollectionConfigPkg :: "CollectionConfigPackage option"

definition BuildCollectionKVSKey :: "string \<Rightarrow> string" where
  "BuildCollectionKVSKey ccname = ccname @ ''~'' @ ''collection''"

definition fetchCollConfigPkg :: "sim_env \<Rightarrow> string \<Rightarrow> CollectionConfigPackage option query" where
  "fetchCollConfigPkg env chaincodeName =
     bindS (qe_GetState env ''lscc'' (BuildCollectionKVSKey chaincodeName)) (\<lambda>b.
       case b of
         None \<Rightarrow> ret None
       | Some x \<Rightarrow> bindS (lift (of_option ''error unmarshalling chaincode collection config pkg''
                       (unmarshalCollectionConfigPackage env x))) (\<lambda>p. ret (Some p)))"

definition ChaincodeInfo :: "sim_env \<Rightarrow> string \<Rightarrow> DeployedChaincodeInfo option query" where
  "ChaincodeInfo env chaincodeName =
     bindS (qe_GetState env ''lscc'' chaincodeName) (\<lambda>b.
       case b of
         None \<Rightarrow> ret None
       | Some x \<Rightarrow>
           bindS (lift (of_option ''error unmarshalling chaincode state data'' (unmarshalChaincodeData env x))) (\<lambda>(hash, version).
             bindS (fetchCollConfigPkg env chaincodeName) (\<lambda>pkg.
               ret (Some \<lparr>ccName = chaincodeName, ccHash = hash, ccVersion = version, CollectionConfigPkg = pkg\<rparr>))))"

definition retrieveCollConfigFromStateDB :: "sim_env \<Rightarrow> string \<Rightarrow> CollectionConfigPackage query" where
  "retrieveCollConfigFromStateDB env ns =
     bindS (ChaincodeInfo env ns) (\<lambda>ccInfo.
       lift (of_option ''CollConfigNotDefined'' (case ccInfo of None \<Rightarrow> None | Some i \<Rightarrow> CollectionConfigPkg i)))"

text \<open>The cache: an entry with an empty name says that it is populated for the namespace.\<close>

definition populate :: "string \<Rightarrow> CollectionConfigPackage \<Rightarrow> (string \<times> string \<Rightarrow> bool) \<Rightarrow> string \<times> string \<Rightarrow> bool" where
  "populate ns pkg c =
     fold (\<lambda>config c. case config of None \<Rightarrow> c | Some name \<Rightarrow> c((ns, name) := True)) pkg (c((ns, []) := True))"

definition isPopulatedFor :: "string \<Rightarrow> (string \<times> string \<Rightarrow> bool) \<Rightarrow> bool" where
  "isPopulatedFor ns c \<longleftrightarrow> c (ns, [])"

definition containsCollName :: "string \<Rightarrow> string \<Rightarrow> (string \<times> string \<Rightarrow> bool) \<Rightarrow> bool" where
  "containsCollName ns coll c \<longleftrightarrow> c (ns, coll)"

definition validateCollName :: "sim_env \<Rightarrow> string \<Rightarrow> string \<Rightarrow> unit query" where
  "validateCollName env ns coll =
     bindS (\<lambda>h. if isPopulatedFor ns (collCache h) then ret () h
                 else bindS (retrieveCollConfigFromStateDB env ns) (\<lambda>conf.
                        modify (\<lambda>h. h\<lparr>collCache := populate ns conf (collCache h)\<rparr>)) h)
       (\<lambda>_ h. (if containsCollName ns coll (collCache h) then Inr () else Inl (Err ''InvalidCollName''), h))"

subsection \<open>Private data\<close>

definition getPrivateData :: "sim_env \<Rightarrow> string \<Rightarrow> string \<Rightarrow> string \<Rightarrow> bytes option query" where
  "getPrivateData env ns coll key =
     bindS (validateCollName env ns coll) (\<lambda>_. bindS checkDone (\<lambda>_.
     bindS (lift (GetPrivateData env ns coll key)) (\<lambda>versionedValue.
     case decomposeVersionedValue versionedValue of (val, _, ver) \<Rightarrow>
     bindS (lift (GetKeyHashVersion (simDb env) ns coll (sha256 env key))) (\<lambda>hashVersion.
     if \<not> AreSame hashVersion ver then lift (Inl (Err ''private data matching public hash version is not available''))
     else bindS (modify (recorded (AddToHashedReadSet (sha256 env) ns coll key ver))) (\<lambda>_. ret val)))))"

definition getPrivateDataValueHash :: "sim_env \<Rightarrow> string \<Rightarrow> string \<Rightarrow> string \<Rightarrow> (bytes option \<times> bytes option) query" where
  "getPrivateDataValueHash env ns coll key =
     bindS (validateCollName env ns coll) (\<lambda>_. bindS checkDone (\<lambda>_.
     bindS (lift (GetValueHash (simDb env) ns coll (sha256 env key))) (\<lambda>versionedValue.
     case decomposeVersionedValue versionedValue of (valHash, metadata, ver) \<Rightarrow>
     bindS (modify (recorded (AddToHashedReadSet (sha256 env) ns coll key ver))) (\<lambda>_. ret (valHash, metadata)))))"

definition getPrivateDataMultipleKeys :: "sim_env \<Rightarrow> string \<Rightarrow> string \<Rightarrow> string list \<Rightarrow> bytes option list query" where
  "getPrivateDataMultipleKeys env ns coll keys =
     bindS (validateCollName env ns coll) (\<lambda>_. bindS checkDone (\<lambda>_.
       case GetPrivateDataMultipleKeys env ns coll keys of
         Inl e \<Rightarrow> ret []
       | Inr versionedValues \<Rightarrow> read_values (AddToHashedReadSet (sha256 env) ns coll) versionedValues keys))"

definition getPrivateDataMetadataByHash :: "sim_env \<Rightarrow> string \<Rightarrow> string \<Rightarrow> bytes \<Rightarrow> (string, bytes) gomap query" where
  "getPrivateDataMetadataByHash env ns coll keyhash =
     bindS (validateCollName env ns coll) (\<lambda>_. bindS checkDone (\<lambda>_ h.
       if rwsetBuilder h \<noteq> None
       then (Inl (Err ''retrieving private data metadata by keyhash is not supported in simulation''), h)
       else bindS (lift (GetPrivateDataMetadataByHash (simDb env) ns coll keyhash)) (\<lambda>metadataBytes.
              lift (DeserializeMetadata env metadataBytes)) h))"

definition getPrivateDataMetadata :: "sim_env \<Rightarrow> string \<Rightarrow> string \<Rightarrow> string \<Rightarrow> (string, bytes) gomap query" where
  "getPrivateDataMetadata env ns coll key h =
     (if rwsetBuilder h = None then getPrivateDataMetadataByHash env ns coll (sha256 env key) h
      else bindS (validateCollName env ns coll) (\<lambda>_. bindS checkDone (\<lambda>_.
           bindS (getPrivateDataValueHash env ns coll key) (\<lambda>(_, metadataBytes).
             lift (DeserializeMetadata env metadataBytes)))) h)"

text \<open>An iterator over private data records nothing. It is what is left of its results.\<close>

definition getPrivateDataRangeScanIterator ::
  "sim_env \<Rightarrow> string \<Rightarrow> string \<Rightarrow> string \<Rightarrow> string \<Rightarrow> VersionedKV list query" where
  "getPrivateDataRangeScanIterator env ns coll startKey endKey =
     bindS (validateCollName env ns coll) (\<lambda>_. bindS checkDone (\<lambda>_.
       lift (GetPrivateDataRangeScanIterator env ns coll startKey endKey)))"

definition executeQueryOnPrivateData :: "sim_env \<Rightarrow> string \<Rightarrow> string \<Rightarrow> string \<Rightarrow> VersionedKV list query" where
  "executeQueryOnPrivateData env ns coll q =
     bindS (validateCollName env ns coll) (\<lambda>_. bindS checkDone (\<lambda>_. lift (ExecuteQueryOnPrivateData env ns coll q)))"

record KV =
  kvNamespace :: string
  kvKey :: string
  kvValue :: "bytes option"

definition pvtdataResultsItr_Next :: "string \<Rightarrow> VersionedKV list \<Rightarrow> KV option \<times> VersionedKV list" where
  "pvtdataResultsItr_Next ns l =
     (case db_Next l of (queryResult, l1) \<Rightarrow>
        (map_option (\<lambda>x. \<lparr>kvNamespace = ns, kvKey = vkKey x, kvValue = Value (vkValue x)\<rparr>) queryResult, l1))"

subsection \<open>Range scans\<close>

definition newResultsItr ::
  "sim_env \<Rightarrow> bool \<Rightarrow> string \<Rightarrow> string \<Rightarrow> string \<Rightarrow> query_options option \<Rightarrow> bool \<Rightarrow> u32 \<Rightarrow> resultsItr go" where
  "newResultsItr env records ns startKey endKey metadata enableHashing maxDegree =
     bindE (case metadata of
              None \<Rightarrow> GetStateRangeScanIterator (simDb env) ns startKey endKey
            | Some m \<Rightarrow> GetStateRangeScanIteratorWithMetadata env ns startKey endKey m) (\<lambda>d.
     if records then
       bindE (NewRangeQueryResultsHelper enableHashing maxDegree) (\<lambda>resultsHelper.
         Inr \<lparr>riNs = ns, riEndKey = endKey, riDbItr = d, riRecords = True,
              rangeQueryInfo = Some \<lparr>StartKey = startKey, EndKey = [], ItrExhausted = False, qReadsInfo = None\<rparr>,
              rangeQueryResultsHelper = Some resultsHelper\<rparr>)
     else Inr \<lparr>riNs = ns, riEndKey = [], riDbItr = d, riRecords = False,
              rangeQueryInfo = None, rangeQueryResultsHelper = None\<rparr>)"

definition updateRangeQueryInfo :: "hash_env \<Rightarrow> VersionedKV option \<Rightarrow> (resultsItr, unit) op" where
  "updateRangeQueryInfo he queryResult itr =
     (if \<not> riRecords itr then (Inr (), itr)
      else case rangeQueryInfo itr of
        None \<Rightarrow> (Inl NilDeref, itr)
      | Some info \<Rightarrow>
          (case queryResult of
             None \<Rightarrow> (Inr (), itr\<lparr>rangeQueryInfo := Some (info\<lparr>ItrExhausted := True, EndKey := riEndKey itr\<rparr>)\<rparr>)
           | Some versionedKV \<Rightarrow>
               (case rangeQueryResultsHelper itr of
                  None \<Rightarrow> (Inl NilDeref, itr)
                | Some h \<Rightarrow>
                    (case AddResult he (read_of versionedKV) h of
                       None \<Rightarrow> (Inl (Panic ''does not return''), itr)
                     | Some (Some NilDeref, h1) \<Rightarrow> (Inl NilDeref, itr)
                     | Some (_, h1) \<Rightarrow>
                         (Inr (), itr\<lparr>rangeQueryResultsHelper := Some h1,
                                      rangeQueryInfo := Some (info\<lparr>EndKey := vkKey versionedKV\<rparr>)\<rparr>)))))"

definition kv_of :: "VersionedKV \<Rightarrow> KV" where
  "kv_of x = \<lparr>kvNamespace = vkNamespace x, kvKey = vkKey x, kvValue = Value (vkValue x)\<rparr>"

definition resultsItr_Next :: "hash_env \<Rightarrow> (resultsItr, KV option) op" where
  "resultsItr_Next he itr =
     (case db_Next (riDbItr itr) of (queryResult, l) \<Rightarrow>
        bindS (updateRangeQueryInfo he queryResult) (\<lambda>_. ret (map_option kv_of queryResult)) (itr\<lparr>riDbItr := l\<rparr>))"

definition IsQueryReadsHashingEnabled :: bool where
  "IsQueryReadsHashingEnabled = True"

definition GetMaxDegreeQueryReadsHashing :: u32 where
  "GetMaxDegreeQueryReadsHashing = 50"

text \<open>The result is the name of the new iterator.\<close>

definition open_iterator :: "sim_env \<Rightarrow> string \<Rightarrow> string \<Rightarrow> string \<Rightarrow> query_options option \<Rightarrow> nat query" where
  "open_iterator env ns startKey endKey metadata h =
     bindS (lift (newResultsItr env (rwsetBuilder h \<noteq> None) ns startKey endKey metadata
                    IsQueryReadsHashingEnabled GetMaxDegreeQueryReadsHashing))
       (\<lambda>itr. bindS (modify (\<lambda>h. h\<lparr>itrs := itrs h @ [itr]\<rparr>)) (\<lambda>_. ret (length (itrs h)))) h"

definition getStateRangeScanIterator :: "sim_env \<Rightarrow> string \<Rightarrow> string \<Rightarrow> string \<Rightarrow> nat query" where
  "getStateRangeScanIterator env ns startKey endKey =
     bindS checkDone (\<lambda>_. open_iterator env ns startKey endKey None)"

definition getStateRangeScanIteratorWithMetadata ::
  "sim_env \<Rightarrow> string \<Rightarrow> string \<Rightarrow> string \<Rightarrow> query_options option \<Rightarrow> nat query" where
  "getStateRangeScanIteratorWithMetadata env ns startKey endKey metadata =
     bindS checkDone (\<lambda>_. open_iterator env ns startKey endKey metadata)"

text \<open>The next result of an iterator that was handed out.\<close>

definition next_result :: "sim_env \<Rightarrow> nat \<Rightarrow> KV option query" where
  "next_result env i h =
     (if i < length (itrs h)
      then (case resultsItr_Next (simHash env) (itrs h ! i) of (r, itr) \<Rightarrow> (r, h\<lparr>itrs := (itrs h)[i := itr]\<rparr>))
      else (Inl (Err ''no iterator''), h))"

text \<open>Rich queries: the results are recorded as reads one by one.\<close>

definition executeQuery :: "sim_env \<Rightarrow> string \<Rightarrow> string \<Rightarrow> VersionedKV list query" where
  "executeQuery env ns q = bindS checkDone (\<lambda>_. lift (ExecuteQuery env ns q))"

definition executeQueryWithMetadata :: "sim_env \<Rightarrow> string \<Rightarrow> string \<Rightarrow> query_options \<Rightarrow> VersionedKV list query" where
  "executeQueryWithMetadata env ns q metadata = bindS checkDone (\<lambda>_. lift (ExecuteQueryWithMetadata env ns q metadata))"

definition queryResultsItr_Next :: "VersionedKV list \<Rightarrow> (KV option \<times> VersionedKV list) query" where
  "queryResultsItr_Next l =
     (case db_Next l of
        (None, l1) \<Rightarrow> ret (None, l1)
      | (Some x, l1) \<Rightarrow>
          bindS (modify (recorded (AddToReadSet (vkNamespace x) (vkKey x) (vvVersion (vkValue x)))))
            (\<lambda>_. ret (Some (kv_of x), l1)))"

subsection \<open>Recording the range scans\<close>

definition record_info :: "hash_env \<Rightarrow> resultsItr \<Rightarrow> resultsItr go" where
  "record_info he itr =
     bindE (deref (rangeQueryResultsHelper itr)) (\<lambda>h.
     bindE (returned (Done he h)) (\<lambda>(results, hash).
     bindE (deref (rangeQueryInfo itr)) (\<lambda>info.
       let info1 = (if results \<noteq> [] then info\<lparr>qReadsInfo := Some (RawReads results)\<rparr> else info) in
       Inr (itr\<lparr>rangeQueryInfo := Some (case hash of
                  None \<Rightarrow> info1 | Some ms \<Rightarrow> info1\<lparr>qReadsInfo := Some (ReadsMerkleHashes ms)\<rparr>)\<rparr>))))"

fun record_infos :: "hash_env \<Rightarrow> resultsItr list \<Rightarrow> RWSetBuilder \<Rightarrow> unit go \<times> resultsItr list \<times> RWSetBuilder" where
  "record_infos he [] b = (Inr (), [], b)"
| "record_infos he (itr # rest) b =
     (case record_info he itr of
        Inl e \<Rightarrow> (Inl e, itr # rest, b)
      | Inr itr1 \<Rightarrow>
          (case rangeQueryInfo itr1 of
             None \<Rightarrow> (Inl NilDeref, itr1 # rest, b)
           | Some info \<Rightarrow>
               (case record_infos he rest (AddToRangeQuerySet (riNs itr1) info b) of
                  (r, rest1, b1) \<Rightarrow> (r, itr1 # rest1, b1))))"

text \<open>An error ends the loop and is kept in the helper; a panic is not caught.\<close>

definition addRangeQueryInfo :: "hash_env \<Rightarrow> unit query" where
  "addRangeQueryInfo he h =
     (case rwsetBuilder h of
        None \<Rightarrow> (Inr (), h)
      | Some b \<Rightarrow>
          (case record_infos he (itrs h) b of
             (r, l, b1) \<Rightarrow>
               let h1 = h\<lparr>itrs := l, rwsetBuilder := Some b1\<rparr> in
               (case r of Inl (Err e) \<Rightarrow> (Inr (), h1\<lparr>helperErr := Some (Err e)\<rparr>) | _ \<Rightarrow> (r, h1))))"

subsection \<open>What the reads keep\<close>

definition keeps :: "('s \<Rightarrow> bool) \<Rightarrow> ('s, 'a) op \<Rightarrow> bool" where
  "keeps I m \<longleftrightarrow> (\<forall>s. I s \<longrightarrow> I (snd (m s)))"

named_theorems keeps_rules

lemma keeps_ret [keeps_rules]: "keeps I (ret x)"
  and keeps_lift [keeps_rules]: "keeps I (lift r)"
  by (simp_all add: keeps_def ret_def lift_def)

lemma keeps_bind: "keeps I m \<Longrightarrow> (\<And>x. keeps I (f x)) \<Longrightarrow> keeps I (bindS m f)"
  unfolding keeps_def bindS_def by (auto split: prod.split sum.split)

lemma keeps_bind_lift: "(\<And>x. r = Inr x \<Longrightarrow> keeps I (f x)) \<Longrightarrow> keeps I (bindS (lift r) f)"
  unfolding keeps_def bindS_def lift_def by (cases r) auto

lemma keeps_modify [keeps_rules]: "(\<And>s. I s \<Longrightarrow> I (f s)) \<Longrightarrow> keeps I (modify f)"
  by (simp add: keeps_def modify_def)

lemma keeps_state: "(\<And>h. keeps I (m h)) \<Longrightarrow> keeps I (\<lambda>h. m h h)"
  by (simp add: keeps_def)

lemma keeps_if: "keeps I a \<Longrightarrow> keeps I b \<Longrightarrow> keeps I (\<lambda>h. if P h then a h else b h)"
  by (simp add: keeps_def)

lemma keeps_check [keeps_rules]: "keeps I checkDone"
  by (simp add: keeps_def checkDone_def)

text \<open>
  An invariant of helpers that is kept by what a read changes: the records of public and hashed reads, the cache
  of names, and the iterators.
\<close>

locale recorder =
  fixes env :: sim_env and I :: "queryHelper \<Rightarrow> bool"
  assumes read: "I h \<Longrightarrow> I (recorded (AddToReadSet ns k v) h)"
    and hashed_read: "GetKeyHashVersion (simDb env) ns c (sha256 env k) = Inr v \<Longrightarrow> I h \<Longrightarrow>
      I (recorded (AddToHashedReadSet (sha256 env) ns c k v) h)"
    and hashed_value_read: "GetValueHash (simDb env) ns c (sha256 env k) = Inr vv \<Longrightarrow> I h \<Longrightarrow>
      I (recorded (AddToHashedReadSet (sha256 env) ns c k (snd (snd (decomposeVersionedValue vv)))) h)"
    and cached: "I h \<Longrightarrow> I (h\<lparr>collCache := cc\<rparr>)"
    and finished: "I h \<Longrightarrow> I (h\<lparr>doneInvoked := True\<rparr>)"
    and opened: "newResultsItr env (rwsetBuilder h \<noteq> None) ns s e None IsQueryReadsHashingEnabled
        GetMaxDegreeQueryReadsHashing = Inr itr \<Longrightarrow> I h \<Longrightarrow> I (h\<lparr>itrs := itrs h @ [itr]\<rparr>)"
    and advanced: "i < length (itrs h) \<Longrightarrow> I h \<Longrightarrow>
      I (h\<lparr>itrs := (itrs h)[i := snd (resultsItr_Next (simHash env) (itrs h ! i))]\<rparr>)"
begin

lemma getState_keeps: "keeps I (getState env ns k)"
  unfolding getState_def
  by (intro keeps_bind keeps_rules) (auto split: prod.split intro!: keeps_bind keeps_rules read)

lemma qe_GetState_keeps: "keeps I (qe_GetState env ns k)"
  unfolding qe_GetState_def by (intro keeps_bind getState_keeps) (auto intro: keeps_rules)

lemma read_values_keeps:
  assumes "\<And>k v h. I h \<Longrightarrow> I (recorded (add k v) h)"
  shows "keeps I (read_values add vs ks)"
proof (induction vs arbitrary: ks)
  case (Cons v vs)
  have "keeps I (bindS (read_values add vs (tl ks)) (\<lambda>vals. ret (val # vals)))" for val
    by (intro keeps_bind Cons.IH keeps_rules)
  then show ?case using assms by (auto simp: keeps_def split: prod.split)
qed (simp add: keeps_def)

lemma getStateMultipleKeys_keeps: "keeps I (getStateMultipleKeys env ns ks)"
  unfolding getStateMultipleKeys_def
  by (intro keeps_bind keeps_rules) (auto split: sum.split intro!: keeps_rules read_values_keeps read)

lemma getStateMetadata_keeps: "keeps I (getStateMetadata env ns k)"
  unfolding getStateMetadata_def
  by (rule keeps_bind [OF keeps_check], rule keeps_state, rule keeps_bind)
    (auto intro!: keeps_bind keeps_rules getState_keeps)

lemma validateCollName_keeps: "keeps I (validateCollName env ns c)"
proof -
  have f: "keeps I (fetchCollConfigPkg env n)" for n
    unfolding fetchCollConfigPkg_def
    by (intro keeps_bind qe_GetState_keeps) (auto split: option.split intro!: keeps_bind keeps_rules)
  have "keeps I (ChaincodeInfo env ns)"
    unfolding ChaincodeInfo_def
    by (intro keeps_bind qe_GetState_keeps) (auto split: option.split intro!: keeps_bind keeps_rules f)
  then have "keeps I (retrieveCollConfigFromStateDB env ns)"
    unfolding retrieveCollConfigFromStateDB_def by (intro keeps_bind keeps_rules)
  then have "keeps I (bindS (retrieveCollConfigFromStateDB env ns)
      (\<lambda>conf. modify (\<lambda>h. h\<lparr>collCache := populate ns conf (collCache h)\<rparr>)))"
    by (intro keeps_bind keeps_rules cached)
  then show ?thesis
    unfolding validateCollName_def by (intro keeps_bind) (simp_all add: keeps_def ret_def)
qed

lemma getPrivateData_keeps: "keeps I (getPrivateData env ns c k)"
  unfolding getPrivateData_def
  by (intro keeps_bind [OF validateCollName_keeps] keeps_bind [OF keeps_check] keeps_bind_lift)
    (auto split: prod.split intro!: keeps_bind_lift keeps_bind keeps_rules hashed_read)

lemma getPrivateDataValueHash_keeps: "keeps I (getPrivateDataValueHash env ns c k)"
proof -
  have "keeps I (modify (recorded (AddToHashedReadSet (sha256 env) ns c k ver)))"
    if "GetValueHash (simDb env) ns c (sha256 env k) = Inr vv" "decomposeVersionedValue vv = (x, y, ver)" for vv x y ver
    using hashed_value_read [OF that(1)] that(2) by (intro keeps_modify) simp
  then show ?thesis
    unfolding getPrivateDataValueHash_def
    by (intro keeps_bind [OF validateCollName_keeps] keeps_bind [OF keeps_check] keeps_bind_lift)
      (auto split: prod.split intro!: keeps_bind keeps_ret)
qed

lemma getPrivateDataMetadata_keeps: "keeps I (getPrivateDataMetadata env ns c k)"
proof -
  have 1: "keeps I (getPrivateDataMetadataByHash env ns c kh)" for kh
    unfolding getPrivateDataMetadataByHash_def
    by (intro keeps_bind [OF validateCollName_keeps] keeps_bind [OF keeps_check])
      (simp add: keeps_def bindS_def lift_def split: sum.split)
  have 2: "keeps I (bindS (validateCollName env ns c) (\<lambda>_. bindS checkDone (\<lambda>_.
           bindS (getPrivateDataValueHash env ns c k) (\<lambda>(_, metadataBytes).
             lift (DeserializeMetadata env metadataBytes)))))"
    by (intro keeps_bind [OF validateCollName_keeps] keeps_bind [OF keeps_check] keeps_bind [OF getPrivateDataValueHash_keeps])
      (auto intro: keeps_rules)
  show ?thesis unfolding getPrivateDataMetadata_def [abs_def] by (rule keeps_if [OF 1 2])
qed

lemma private_iterators_keep:
  "keeps I (getPrivateDataRangeScanIterator env ns c s e)" "keeps I (executeQueryOnPrivateData env ns c q)"
  unfolding getPrivateDataRangeScanIterator_def executeQueryOnPrivateData_def
  by (intro keeps_bind [OF validateCollName_keeps] keeps_bind [OF keeps_check] keeps_lift)+

lemma getStateRangeScanIterator_keeps: "keeps I (getStateRangeScanIterator env ns s e)"
proof -
  have "keeps I (open_iterator env ns s e None)"
    using opened by (simp add: keeps_def open_iterator_def bindS_def lift_def modify_def ret_def split: sum.split)
  then show ?thesis unfolding getStateRangeScanIterator_def by (intro keeps_bind keeps_rules)
qed

lemma next_result_keeps: "keeps I (next_result env i)"
  unfolding keeps_def
proof (intro allI impI)
  fix h
  assume "I h"
  then show "I (snd (next_result env i h))"
    using advanced [of i h] by (cases "resultsItr_Next (simHash env) (itrs h ! i)") (simp add: next_result_def)
qed

lemma queries_keep: "keeps I (executeQuery env ns q)" "keeps I (executeQueryWithMetadata env ns q m)"
  unfolding executeQuery_def executeQueryWithMetadata_def by (intro keeps_bind keeps_rules)+

lemma queryResultsItr_Next_keeps: "keeps I (queryResultsItr_Next l)"
  unfolding queryResultsItr_Next_def by (auto split: prod.split option.split intro!: keeps_bind keeps_rules read)

lemma qh_done_keeps: "I h \<Longrightarrow> I (qh_done h)"
  by (simp add: qh_done_def finished)

end

end
