(* ===== verification/Simulator.thy ===== *)
theory Simulator
  imports QueryHelper
begin

text \<open>
  The simulator of a transaction (\<open>lockbased_tx_simulator.go\<close>): its reads are those of the query helper, its
  writes go to the builder of the read-write set, and what a chaincode reports at its end is added to the builder.
\<close>

subsection \<open>State\<close>

record lockBasedTxSimulator =
  simHelper :: queryHelper
  simTxid :: string
  writePerformed :: bool
  pvtdataQueriesPerformed :: bool
  simulationResultsComputed :: bool
  paginatedQueriesPerformed :: bool
  IsBroadcast :: bool
  TxnCount :: int

record BuildRwset =
  ReadSet :: "KVRead list"
  WriteSet :: "KVWrite list"
  brTxnCount :: int

type_synonym 'a sim = "(lockBasedTxSimulator, 'a) op"

definition newLockBasedTxSimulator :: "string \<Rightarrow> lockBasedTxSimulator" where
  "newLockBasedTxSimulator txid =
     \<lparr>simHelper = newQueryHelper (Some NewRWSetBuilder), simTxid = txid, writePerformed = False,
      pvtdataQueriesPerformed = False, simulationResultsComputed = False, paginatedQueriesPerformed = False,
      IsBroadcast = False, TxnCount = -1\<rparr>"

definition query :: "'a query \<Rightarrow> 'a sim" where
  "query m s = (case m (simHelper s) of (r, h) \<Rightarrow> (r, s\<lparr>simHelper := h\<rparr>))"

definition addS :: "(RWSetBuilder \<Rightarrow> RWSetBuilder) \<Rightarrow> unit sim" where
  "addS f = query (modify (recorded f))"

fun each :: "('a \<Rightarrow> ('s, unit) op) \<Rightarrow> 'a list \<Rightarrow> ('s, unit) op" where
  "each f [] = ret ()"
| "each f (x # xs) = bindS (f x) (\<lambda>_. each f xs)"

subsection \<open>Preconditions\<close>

definition checkPvtdataQueryPerformed :: "unit sim" where
  "checkPvtdataQueryPerformed s =
     (if pvtdataQueriesPerformed s then Inl (Err ''Transaction has already performed queries on pvt data'') else Inr (), s)"

definition checkPaginatedQueryPerformed :: "unit sim" where
  "checkPaginatedQueryPerformed s =
     (if paginatedQueriesPerformed s then Inl (Err ''Transaction has already performed a paginated query'') else Inr (), s)"

definition checkWritePrecondition :: "sim_env \<Rightarrow> string \<Rightarrow> bytes option \<Rightarrow> unit sim" where
  "checkWritePrecondition env key value =
     bindS (query checkDone) (\<lambda>_. bindS checkPvtdataQueryPerformed (\<lambda>_. bindS checkPaginatedQueryPerformed (\<lambda>_.
     bindS (modify (\<lambda>s. s\<lparr>writePerformed := True\<rparr>)) (\<lambda>_. lift (ValidateKeyValue env key value)))))"

definition checkBeforePvtdataQueries :: "unit sim" where
  "checkBeforePvtdataQueries s =
     (if writePerformed s then (Inl (Err ''Queries on pvt data is supported only in a read-only transaction''), s)
      else (Inr (), s\<lparr>pvtdataQueriesPerformed := True\<rparr>))"

definition checkBeforePaginatedQueries :: "unit sim" where
  "checkBeforePaginatedQueries s =
     (if writePerformed s then (Inl (Err ''Paginated queries are supported only in a read-only transaction''), s)
      else (Inr (), s\<lparr>paginatedQueriesPerformed := True\<rparr>))"

subsection \<open>Writes\<close>

definition SetState :: "sim_env \<Rightarrow> string \<Rightarrow> string \<Rightarrow> bytes option \<Rightarrow> unit sim" where
  "SetState env ns key value = bindS (checkWritePrecondition env key value) (\<lambda>_. addS (AddToWriteSet ns key value))"

definition DeleteState :: "sim_env \<Rightarrow> string \<Rightarrow> string \<Rightarrow> unit sim" where
  "DeleteState env ns key = SetState env ns key None"

definition SetStateMultipleKeys :: "sim_env \<Rightarrow> string \<Rightarrow> (string, bytes option) gomap \<Rightarrow> unit sim" where
  "SetStateMultipleKeys env ns kvs = each (\<lambda>(k, v). SetState env ns k v) kvs"

definition SetStateMetadata :: "sim_env \<Rightarrow> string \<Rightarrow> string \<Rightarrow> (string, bytes) gomap \<Rightarrow> unit sim" where
  "SetStateMetadata env ns key metadata =
     bindS (checkWritePrecondition env key None) (\<lambda>_. addS (AddToMetadataWriteSet ns key metadata))"

definition DeleteStateMetadata :: "sim_env \<Rightarrow> string \<Rightarrow> string \<Rightarrow> unit sim" where
  "DeleteStateMetadata env ns key = SetStateMetadata env ns key []"

definition SetPrivateData :: "sim_env \<Rightarrow> string \<Rightarrow> string \<Rightarrow> string \<Rightarrow> bytes option \<Rightarrow> unit sim" where
  "SetPrivateData env ns coll key value =
     bindS (query (validateCollName env ns coll)) (\<lambda>_. bindS (checkWritePrecondition env key value) (\<lambda>_.
     bindS (modify (\<lambda>s. s\<lparr>writePerformed := True\<rparr>)) (\<lambda>_.
       addS (AddToPvtAndHashedWriteSet (sha256 env) ns coll key value))))"

definition DeletePrivateData :: "sim_env \<Rightarrow> string \<Rightarrow> string \<Rightarrow> string \<Rightarrow> unit sim" where
  "DeletePrivateData env ns coll key = SetPrivateData env ns coll key None"

definition SetPrivateDataMultipleKeys :: "sim_env \<Rightarrow> string \<Rightarrow> string \<Rightarrow> (string, bytes option) gomap \<Rightarrow> unit sim" where
  "SetPrivateDataMultipleKeys env ns coll kvs = each (\<lambda>(k, v). SetPrivateData env ns coll k v) kvs"

definition SetPrivateDataMetadata :: "sim_env \<Rightarrow> string \<Rightarrow> string \<Rightarrow> string \<Rightarrow> (string, bytes) gomap \<Rightarrow> unit sim" where
  "SetPrivateDataMetadata env ns coll key metadata =
     bindS (query (validateCollName env ns coll)) (\<lambda>_. bindS (checkWritePrecondition env key None) (\<lambda>_.
       addS (AddToHashedMetadataWriteSet (sha256 env) ns coll key metadata)))"

definition DeletePrivateDataMetadata :: "sim_env \<Rightarrow> string \<Rightarrow> string \<Rightarrow> string \<Rightarrow> unit sim" where
  "DeletePrivateDataMetadata env ns coll key = SetPrivateDataMetadata env ns coll key []"

subsection \<open>Queries that a transaction with writes may not make\<close>

definition sim_GetPrivateDataRangeScanIterator ::
  "sim_env \<Rightarrow> string \<Rightarrow> string \<Rightarrow> string \<Rightarrow> string \<Rightarrow> VersionedKV list sim" where
  "sim_GetPrivateDataRangeScanIterator env ns coll startKey endKey =
     bindS checkBeforePvtdataQueries (\<lambda>_. query (getPrivateDataRangeScanIterator env ns coll startKey endKey))"

definition sim_ExecuteQueryOnPrivateData :: "sim_env \<Rightarrow> string \<Rightarrow> string \<Rightarrow> string \<Rightarrow> VersionedKV list sim" where
  "sim_ExecuteQueryOnPrivateData env ns coll q =
     bindS checkBeforePvtdataQueries (\<lambda>_. query (executeQueryOnPrivateData env ns coll q))"

definition sim_GetStateRangeScanIteratorWithMetadata ::
  "sim_env \<Rightarrow> string \<Rightarrow> string \<Rightarrow> string \<Rightarrow> query_options option \<Rightarrow> nat sim" where
  "sim_GetStateRangeScanIteratorWithMetadata env ns startKey endKey metadata =
     bindS checkBeforePaginatedQueries (\<lambda>_. query (getStateRangeScanIteratorWithMetadata env ns startKey endKey metadata))"

definition sim_ExecuteQueryWithMetadata :: "sim_env \<Rightarrow> string \<Rightarrow> string \<Rightarrow> query_options \<Rightarrow> VersionedKV list sim" where
  "sim_ExecuteQueryWithMetadata env ns q metadata =
     bindS checkBeforePaginatedQueries (\<lambda>_. query (executeQueryWithMetadata env ns q metadata))"

subsection \<open>The end of a simulation\<close>

definition BuildRWset :: "BuildRwset \<Rightarrow> string \<Rightarrow> unit sim" where
  "BuildRWset buildRwset ns =
     bindS (each (\<lambda>rkv. addS (AddToReadSetResult ns rkv)) (ReadSet buildRwset)) (\<lambda>_.
     bindS (modify (\<lambda>s. if WriteSet buildRwset \<noteq> [] then s\<lparr>IsBroadcast := True\<rparr> else s)) (\<lambda>_.
     bindS (each (\<lambda>wkv. addS (AddToWriteSetResult ns wkv)) (WriteSet buildRwset)) (\<lambda>_.
       modify (\<lambda>s. s\<lparr>TxnCount := brTxnCount buildRwset\<rparr>))))"

text \<open>
  The results can be asked for once. An error that \<open>addRangeQueryInfo\<close> leaves in the helper is not looked at.
\<close>

definition sim_GetTxSimulationResults :: "sim_env \<Rightarrow> (TxReadWriteSet \<times> TxPvtReadWriteSet option) sim" where
  "sim_GetTxSimulationResults env s =
     (if simulationResultsComputed s
      then (Inl (Err ''this function should only be called once on a transaction simulator instance''), s)
      else let s1 = s\<lparr>simulationResultsComputed := True\<rparr> in
        case helperErr (simHelper s) of
          Some e \<Rightarrow> (Inl e, s1)
        | None \<Rightarrow>
            bindS (query (addRangeQueryInfo (simHash env))) (\<lambda>_ s2.
              case rwsetBuilder (simHelper s2) of
                None \<Rightarrow> (Inl NilDeref, s2)
              | Some b \<Rightarrow>
                  (case GetTxSimulationResults (simCodec env) (sha256 env) b of
                     Inl e \<Rightarrow> (Inl e, s2)
                   | Inr (r, b1) \<Rightarrow> (Inr r, s2\<lparr>simHelper := (simHelper s2)\<lparr>rwsetBuilder := Some b1\<rparr>\<rparr>))) s1)"

subsection \<open>Simulations\<close>

text \<open>What a chaincode may ask of the simulator; \<open>RichQuery\<close> advances its results up to \<open>n\<close> times.\<close>

datatype sim_op =
    ReadState string string
  | ReadStates string "string list"
  | ReadMetadata string string
  | ScanRange string string string
  | ScanPage string string string "query_options option"
  | NextOf nat
  | RichQuery string string nat
  | RichPage string string query_options nat
  | ReadPrivate string string string
  | ReadPrivateHash string string string
  | ReadPrivates string string "string list"
  | ReadPrivateMetadata string string string
  | ScanPrivate string string string string
  | QueryPrivate string string string
  | WriteState string string "bytes option"
  | WriteStates string "(string, bytes option) gomap"
  | SetMetadata string string "(string, bytes) gomap"
  | WritePrivate string string string "bytes option"
  | WritePrivates string string "(string, bytes option) gomap"
  | SetPrivateMetadata string string string "(string, bytes) gomap"
  | Report string BuildRwset
  | DoneOp

fun next_results :: "nat \<Rightarrow> VersionedKV list \<Rightarrow> unit query" where
  "next_results 0 l = ret ()"
| "next_results (Suc n) l = bindS (queryResultsItr_Next l) (\<lambda>(_, l1). next_results n l1)"

abbreviation unit_of :: "('s, 'a) op \<Rightarrow> ('s, unit) op" where
  "unit_of m \<equiv> bindS m (\<lambda>_. ret ())"

fun sim_step :: "sim_env \<Rightarrow> sim_op \<Rightarrow> unit sim" where
  "sim_step env (ReadState ns k) = query (unit_of (getState env ns k))"
| "sim_step env (ReadStates ns ks) = query (unit_of (getStateMultipleKeys env ns ks))"
| "sim_step env (ReadMetadata ns k) = query (unit_of (getStateMetadata env ns k))"
| "sim_step env (ScanRange ns a e) = query (unit_of (getStateRangeScanIterator env ns a e))"
| "sim_step env (ScanPage ns a e m) = unit_of (sim_GetStateRangeScanIteratorWithMetadata env ns a e m)"
| "sim_step env (NextOf i) = query (unit_of (next_result env i))"
| "sim_step env (RichQuery ns q n) = query (bindS (executeQuery env ns q) (next_results n))"
| "sim_step env (RichPage ns q m n) = bindS (sim_ExecuteQueryWithMetadata env ns q m) (\<lambda>l. query (next_results n l))"
| "sim_step env (ReadPrivate ns c k) = query (unit_of (getPrivateData env ns c k))"
| "sim_step env (ReadPrivateHash ns c k) = query (unit_of (getPrivateDataValueHash env ns c k))"
| "sim_step env (ReadPrivates ns c ks) = query (unit_of (getPrivateDataMultipleKeys env ns c ks))"
| "sim_step env (ReadPrivateMetadata ns c k) = query (unit_of (getPrivateDataMetadata env ns c k))"
| "sim_step env (ScanPrivate ns c a e) = unit_of (sim_GetPrivateDataRangeScanIterator env ns c a e)"
| "sim_step env (QueryPrivate ns c q) = unit_of (sim_ExecuteQueryOnPrivateData env ns c q)"
| "sim_step env (WriteState ns k v) = SetState env ns k v"
| "sim_step env (WriteStates ns kvs) = SetStateMultipleKeys env ns kvs"
| "sim_step env (SetMetadata ns k m) = SetStateMetadata env ns k m"
| "sim_step env (WritePrivate ns c k v) = SetPrivateData env ns c k v"
| "sim_step env (WritePrivates ns c kvs) = SetPrivateDataMultipleKeys env ns c kvs"
| "sim_step env (SetPrivateMetadata ns c k m) = SetPrivateDataMetadata env ns c k m"
| "sim_step env (Report ns r) = BuildRWset r ns"
| "sim_step env DoneOp = query (modify qh_done)"

text \<open>A chaincode may go on after an error.\<close>

definition sim_run :: "sim_env \<Rightarrow> sim_op list \<Rightarrow> lockBasedTxSimulator \<Rightarrow> lockBasedTxSimulator" where
  "sim_run env ops s = fold (\<lambda>op s. snd (sim_step env op s)) ops s"

subsection \<open>What a simulation keeps\<close>

lemma keeps_query: "keeps I m \<Longrightarrow> keeps (\<lambda>s. I (simHelper s)) (query m)"
  by (auto simp: keeps_def query_def split: prod.split)

lemma keeps_checks [keeps_rules]:
  "keeps (\<lambda>s. I (simHelper s)) checkPvtdataQueryPerformed"
  "keeps (\<lambda>s. I (simHelper s)) checkPaginatedQueryPerformed"
  "keeps (\<lambda>s. I (simHelper s)) checkBeforePvtdataQueries"
  "keeps (\<lambda>s. I (simHelper s)) checkBeforePaginatedQueries"
  by (simp_all add: keeps_def checkPvtdataQueryPerformed_def checkPaginatedQueryPerformed_def
      checkBeforePvtdataQueries_def checkBeforePaginatedQueries_def)

lemma keeps_write_check [keeps_rules]: "keeps (\<lambda>s. I (simHelper s)) (checkWritePrecondition env k v)"
  unfolding checkWritePrecondition_def by (intro keeps_bind keeps_query keeps_rules) simp_all

lemma keeps_addS: "(\<And>h. I h \<Longrightarrow> I (recorded f h)) \<Longrightarrow> keeps (\<lambda>s. I (simHelper s)) (addS f)"
  unfolding addS_def by (intro keeps_query keeps_rules)

lemma keeps_each: "(\<And>x. x \<in> set l \<Longrightarrow> keeps J (f x)) \<Longrightarrow> keeps J (each f l)"
  by (induction l) (auto intro!: keeps_bind keeps_rules)

text \<open>
  The operations that the invariants below are about: a range scan is not paginated, private values are not read
  several at a time, and the reads that are reported satisfy \<open>R\<close>.
\<close>

fun within :: "(string \<Rightarrow> KVRead \<Rightarrow> bool) \<Rightarrow> sim_op \<Rightarrow> bool" where
  "within R (ScanPage ns a e m) \<longleftrightarrow> m = None"
| "within R (ReadPrivates ns c ks) \<longleftrightarrow> False"
| "within R (Report ns r) \<longleftrightarrow> list_all (R ns) (ReadSet r)"
| "within R _ \<longleftrightarrow> True"

locale simulator_inv = recorder +
  fixes R :: "string \<Rightarrow> KVRead \<Rightarrow> bool"
  assumes written: "I h \<Longrightarrow> I (recorded (AddToWriteSet ns k w) h)"
    and metadata_written: "I h \<Longrightarrow> I (recorded (AddToMetadataWriteSet ns k md) h)"
    and private_written: "I h \<Longrightarrow> I (recorded (AddToPvtAndHashedWriteSet (sha256 env) ns c k w) h)"
    and private_metadata_written: "I h \<Longrightarrow> I (recorded (AddToHashedMetadataWriteSet (sha256 env) ns c k md) h)"
    and read_reported: "R ns r \<Longrightarrow> I h \<Longrightarrow> I (recorded (AddToReadSetResult ns r) h)"
    and write_reported: "I h \<Longrightarrow> I (recorded (AddToWriteSetResult ns x) h)"
begin

lemmas query_keeps = getState_keeps getStateMultipleKeys_keeps getStateMetadata_keeps validateCollName_keeps
  getPrivateData_keeps getPrivateDataValueHash_keeps getPrivateDataMetadata_keeps private_iterators_keep
  getStateRangeScanIterator_keeps next_result_keeps queries_keep

lemma next_results_keep: "keeps I (next_results n l)"
proof (induction n arbitrary: l)
  case (Suc n)
  have "keeps I (case x of (r, l1) \<Rightarrow> next_results n l1)" for x :: "KV option \<times> VersionedKV list"
    using Suc.IH by (cases x) simp
  then show ?case unfolding next_results.simps by (intro keeps_bind queryResultsItr_Next_keeps)
qed (simp add: keeps_rules)

lemma paged_scan_keeps: "keeps (\<lambda>s. I (simHelper s)) (sim_GetStateRangeScanIteratorWithMetadata env ns a e None)"
proof -
  have "getStateRangeScanIteratorWithMetadata env ns a e None = getStateRangeScanIterator env ns a e"
    by (simp add: getStateRangeScanIteratorWithMetadata_def getStateRangeScanIterator_def)
  then show ?thesis
    unfolding sim_GetStateRangeScanIteratorWithMetadata_def
    by (intro keeps_bind keeps_rules) (simp add: keeps_query getStateRangeScanIterator_keeps)
qed

lemma writes_keep:
  "keeps (\<lambda>s. I (simHelper s)) (SetState env ns k w)"
  "keeps (\<lambda>s. I (simHelper s)) (SetStateMetadata env ns k md)"
  "keeps (\<lambda>s. I (simHelper s)) (SetPrivateData env ns c k w)"
  "keeps (\<lambda>s. I (simHelper s)) (SetPrivateDataMetadata env ns c k md)"
  unfolding SetState_def SetStateMetadata_def SetPrivateData_def SetPrivateDataMetadata_def
  by (intro keeps_bind keeps_write_check keeps_query validateCollName_keeps keeps_addS keeps_modify
      written metadata_written private_written private_metadata_written; simp)+

lemma BuildRWset_keeps:
  assumes "list_all (R ns) (ReadSet r)"
  shows "keeps (\<lambda>s. I (simHelper s)) (BuildRWset r ns)"
proof -
  have "keeps (\<lambda>s. I (simHelper s)) (addS (AddToReadSetResult ns x))" if "x \<in> set (ReadSet r)" for x
    by (rule keeps_addS, rule read_reported) (use assms that in \<open>auto simp: list_all_iff\<close>)
  moreover have "keeps (\<lambda>s. I (simHelper s)) (addS (AddToWriteSetResult ns x))" for x
    by (rule keeps_addS, rule write_reported)
  ultimately show ?thesis
    unfolding BuildRWset_def by (intro keeps_bind keeps_each keeps_modify) simp_all
qed

lemma sim_step_keeps:
  assumes "within R op"
  shows "keeps (\<lambda>s. I (simHelper s)) (sim_step env op)"
proof (cases op)
  case (ScanPage ns a e m)
  then show ?thesis using assms by (auto intro!: keeps_bind keeps_rules paged_scan_keeps)
next
  case (RichPage ns q m n)
  then show ?thesis
    by (auto simp: sim_ExecuteQueryWithMetadata_def intro!: keeps_bind keeps_checks keeps_query queries_keep next_results_keep)
next
  case (WriteStates ns kvs)
  then show ?thesis by (auto simp: SetStateMultipleKeys_def intro!: keeps_each writes_keep)
next
  case (WritePrivates ns c kvs)
  then show ?thesis by (auto simp: SetPrivateDataMultipleKeys_def intro!: keeps_each writes_keep)
next
  case (Report ns r)
  then show ?thesis using assms by (simp add: BuildRWset_keeps)
next
  case DoneOp
  then show ?thesis by (auto intro!: keeps_query keeps_modify qh_done_keeps)
qed (use assms in \<open>auto simp: sim_GetPrivateDataRangeScanIterator_def sim_ExecuteQueryOnPrivateData_def
      intro!: keeps_bind keeps_query keeps_rules query_keeps writes_keep next_results_keep\<close>)

lemma sim_run_keeps:
  "list_all (within R) ops \<Longrightarrow> I (simHelper s) \<Longrightarrow> I (simHelper (sim_run env ops s))"
proof (induction ops arbitrary: s)
  case (Cons op ops)
  then have "I (simHelper (snd (sim_step env op s)))" using sim_step_keeps by (auto simp: keeps_def)
  then show ?case using Cons by (simp add: sim_run_def)
qed (simp add: sim_run_def)

end

end
