(* ===== verification/SimulatedTx.thy ===== *)
theory SimulatedTx
  imports Simulator
begin

text \<open>
  Simulation and validation together: what the simulator records is what the validator looks for, and what the
  validator does not look for.
\<close>

subsection \<open>What is relied on of the database\<close>

text \<open>
  Committed values have a version, a range has fewer entries than a \<open>uint32\<close> can count, the hashes can be
  computed, and the version of the hash of a private key is the one that is stored with the hash of its value.
\<close>

definition sim_db_ok :: "sim_env \<Rightarrow> bool" where
  "sim_db_ok env \<longleftrightarrow> db_ok (simDb env) \<and> total_env (simHash env) \<and>
     (\<forall>ns k vv. GetState (simDb env) ns k = Inr (Some vv) \<longrightarrow> vvVersion vv \<noteq> None) \<and>
     (\<forall>ns s e l. GetStateRangeScanIterator (simDb env) ns s e = Inr l \<longrightarrow> length l + 3 < 2 ^ 32) \<and>
     (\<forall>ns c kh v. GetValueHash (simDb env) ns c kh = Inr v \<longrightarrow>
        GetKeyHashVersion (simDb env) ns c kh = Inr (snd (snd (decomposeVersionedValue v))))"

subsection \<open>The entries that a scan has passed\<close>

lemma scan_items:
  assumes "db_ok db" "GetStateRangeScanIterator db ns s e = Inr l"
  shows "key_sorted l" "x \<in> set l \<longleftrightarrow> vkNamespace x = ns \<and> in_range s e (vkKey x) \<and> GetState db ns (vkKey x) = Inr (Some (vkValue x))"
  using assms unfolding db_ok_def by (metis sum.inject(2))+

lemma state_view_New: "db_ok db \<Longrightarrow> state_view db NewUpdateBatch ns k = x \<longleftrightarrow> GetState db ns k = Inr x"
  by (rule state_view_db) (simp_all add: ub_Get_New)

lemma scan_view_items:
  assumes "db_ok db" "GetStateRangeScanIterator db ns s e = Inr l"
  shows "\<forall>x\<in>set l. view_item db NewUpdateBatch ns x"
  using scan_items(2) [OF assms] state_view_New [OF assms(1)] by (auto simp: view_item_def)

abbreviation entry_of :: "VersionedKV \<Rightarrow> string \<times> Height option" where
  "entry_of x \<equiv> (vkKey x, vvVersion (vkValue x))"

lemma range_view_New:
  assumes "db_ok db"
  shows "k \<in> range_view db NewUpdateBatch ns s e incl \<longleftrightarrow>
    (in_range s e k \<or> incl \<and> k = e) \<and> (\<exists>vv. GetState db ns k = Inr (Some vv))"
  using state_view_New [OF assms, of ns k] by (auto simp: range_view_def)

lemma scanned_all:
  assumes "db_ok db" "GetStateRangeScanIterator db ns s e = Inr l"
  shows "map entry_of l = range_entries db NewUpdateBatch ns s e False"
proof (rule view_entries [OF scan_items(1) [OF assms] _ scan_view_items [OF assms]], intro set_eqI iffI)
  fix k
  assume "k \<in> range_view db NewUpdateBatch ns s e False"
  then obtain vv where "in_range s e k" "GetState db ns k = Inr (Some vv)" using range_view_New [OF assms(1)] by auto
  then have "\<lparr>vkNamespace = ns, vkKey = k, vkValue = vv\<rparr> \<in> set l" using scan_items(2) [OF assms] by simp
  then show "k \<in> vkKey ` set l" by force
qed (use scan_items(2) [OF assms] range_view_New [OF assms(1)] in auto)

lemma scanned_some:
  assumes "db_ok db" "GetStateRangeScanIterator db ns s e = Inr l" "n < length l" "vkKey (l ! n) = k" "k \<noteq> []"
  shows "map entry_of (take (Suc n) l) = range_entries db NewUpdateBatch ns s k True"
proof (rule view_entries)
  note l = scan_items [OF assms(1,2)]
  have lt: "vkKey (l ! i) < vkKey (l ! j)" if "i < j" "j < length l" for i j
    using sorted_wrt_nth_less [OF l(1), of i j] that by simp
  show "key_sorted (take (Suc n) l)" using sorted_wrt_take [OF l(1), of "Suc n"] by (simp add: take_map)
  show "\<forall>x\<in>set (take (Suc n) l). view_item db NewUpdateBatch ns x"
    using scan_view_items [OF assms(1,2)] by (meson in_set_takeD)
  have kn: "in_range s e k" "\<exists>vv. GetState db ns k = Inr (Some vv)" using l(2) [of "l ! n"] assms(3,4) by auto
  show "vkKey ` set (take (Suc n) l) = range_view db NewUpdateBatch ns s k True"
  proof (intro set_eqI iffI)
    fix k1
    assume "k1 \<in> vkKey ` set (take (Suc n) l)"
    then obtain i where i: "i < Suc n" "k1 = vkKey (l ! i)" using assms(3) by (auto simp: in_set_conv_nth)
    then have "k1 < k \<or> k1 = k" using lt [of i n] assms(3,4) by (cases "i = n") auto
    then show "k1 \<in> range_view db NewUpdateBatch ns s k True"
      using l(2) [of "l ! i"] i assms(3) by (auto simp: range_view_New [OF assms(1)] in_range_def)
  next
    fix k1
    assume "k1 \<in> range_view db NewUpdateBatch ns s k True"
    then obtain vv where v: "in_range s k k1 \<or> k1 = k" "GetState db ns k1 = Inr (Some vv)"
      using range_view_New [OF assms(1)] by auto
    then have "in_range s e k1" using kn(1) assms(5) by (auto simp: in_range_def)
    then have "\<lparr>vkNamespace = ns, vkKey = k1, vkValue = vv\<rparr> \<in> set l" using l(2) v(2) by simp
    then obtain i where i: "i < length l" "vkKey (l ! i) = k1" by (metis in_set_conv_nth VersionedKV.select_convs(2))
    have "\<not> n < i" using lt [of n i] i v(1) assms(4,5) by (auto simp: in_range_def)
    then have "l ! i \<in> set (take (Suc n) l)" using i(1) by (auto simp: in_set_conv_nth intro!: exI [of _ i])
    then show "k1 \<in> vkKey ` set (take (Suc n) l)" using i(2) by blast
  qed
qed

subsection \<open>What a scan records is valid\<close>

lemma NewVersion_proto [simp]: "NewVersion (newProtoVersion v) = v"
  by (cases v) (auto simp: NewVersion_def newProtoVersion_def NewHeight_def)

lemma newProtoVersion_None [simp]: "newProtoVersion v = None \<longleftrightarrow> v = None"
  by (simp add: newProtoVersion_def)

lemma rKey_read_of: "rKey (read_of x) = vkKey x" "NewVersion (rVersion (read_of x)) = vvVersion (vkValue x)"
  "rVersion (read_of x) = None \<longleftrightarrow> vvVersion (vkValue x) = None"
  by (simp_all add: NewKVRead_def)

lemma read_of_entries: "map entry_of xs = map entry_of ys \<Longrightarrow> map read_of xs = map read_of ys"
proof -
  assume e: "map entry_of xs = map entry_of ys"
  have "map read_of zs = map (\<lambda>(k, v). NewKVRead k v) (map entry_of zs)" for zs by simp
  then show ?thesis using e by metis
qed

text \<open>
  The results \<open>ys\<close> are the entries of the range of a query. What is recorded of them is accepted, be it the
  results themselves or the summary of their tree.
\<close>

lemma recorded_valid:
  assumes "db_ok db" "total_env he" "length ys + 3 < 2 ^ 32" "list_all (\<lambda>x. vvVersion (vkValue x) \<noteq> None) ys"
    and h: "NewRangeQueryResultsHelper True d = Inr h0" "add_results he (map read_of ys) h0 = Some h" "2 \<le> d" "d < -1"
    and e: "map entry_of ys = range_entries db NewUpdateBatch ns (StartKey info) (EndKey info) (\<not> ItrExhausted info)"
    and i: "qReadsInfo info = None" "ItrExhausted info \<or> EndKey info \<noteq> []"
  shows "\<exists>p hash. Done he h = Some (Inr (p, hash)) \<and>
    validateRangeQuery he db ns (let info1 = (if p \<noteq> [] then info\<lparr>qReadsInfo := Some (RawReads p)\<rparr> else info) in
       case hash of None \<Rightarrow> info1 | Some ms \<Rightarrow> info1\<lparr>qReadsInfo := Some (ReadsMerkleHashes ms)\<rparr>) NewUpdateBatch = Inr True"
proof -
  obtain itr where itr: "newCombinedIterator db NewUpdateBatch ns (StartKey info) (EndKey info) (\<not> ItrExhausted info) = Inr itr"
    using newCombinedIterator_ok [OF assms(1) ub_wf_New] by metis
  obtain xs where x: "serves db xs itr" "key_sorted xs"
      "vkKey ` set xs = range_view db NewUpdateBatch ns (StartKey info) (EndKey info) (\<not> ItrExhausted info)"
      "\<forall>x\<in>set xs. view_item db NewUpdateBatch ns x"
    using view_items [OF assms(1) ub_wf_New _ itr] i(2) by blast
  have eq: "map entry_of xs = map entry_of ys" using view_entries [OF x(2-4)] e by simp
  then have len: "length xs = length ys" by (metis length_map)
  have "kept d [] h0" using new_kept [OF h(3,4)] h(1) by auto
  then have "kept d (map read_of ys) h" using add_results_kept [OF assms(2), of d "[]" h0 "map read_of ys"] h(2) by auto
  from Done_kept [OF assms(2) this] obtain p hash where d: "Done he h = Some (Inr (p, hash))"
      "if length ys \<le> unat d then p = map read_of ys \<and> hash = None
       else p = [] \<and> (\<exists>m. hash = Some (getSummery m) \<and> mt_full 0 m \<and> mtMaxDegree m = d)" by auto
  show ?thesis
  proof (cases "length ys \<le> unat d")
    case True
    have p: "p = map read_of ys" "hash = None" using d(2) True by simp_all
    have v: "rangeQueryResults_validate db (info\<lparr>qReadsInfo := Some (RawReads p)\<rparr>) itr = Inr (same_results p xs)"
      by (rule rangeQueryResults_validate_serves [OF x(1)]) (use assms(4) in \<open>simp_all add: p list_all_iff rKey_read_of del: not_None_eq\<close>)
    have "same_results p xs" using eq by (simp add: same_results_def p comp_def rKey_read_of)
    moreover have "p = [] \<Longrightarrow> rangeQueryResults_validate db info itr =
        rangeQueryResults_validate db (info\<lparr>qReadsInfo := Some (RawReads p)\<rparr>) itr"
      using i(1) by (simp add: rangeQueryResults_validate_def)
    ultimately show ?thesis
      using d(1) v itr i(1) p(2) by (auto simp: validateRangeQuery_def GetReadsMerkleHashes_def)
  next
    case False
    obtain ms where p: "p = []" "hash = Some ms" "MaxDegree ms = d" using d(2) False by (auto simp: getSummery_def)
    have "results_summary he (MaxDegree ms) (map read_of xs) = Some (Inr (p, Some ms))"
      using h(1,2) d(1) p read_of_entries [OF eq] by (simp add: results_summary_def)
    then have "rangeQueryHash_validate he db ms itr = Some (Inr True)"
      using hash_validate_complete [OF x(1)] assms(3) len by auto
    then show ?thesis
      using d(1) itr p by (auto simp: validateRangeQuery_def GetReadsMerkleHashes_def returned_def)
  qed
qed

subsection \<open>The iterators of a simulation\<close>

text \<open>An iterator after \<open>n\<close> of the entries \<open>l\<close> of its range.\<close>

definition itr_at :: "sim_env \<Rightarrow> resultsItr \<Rightarrow> RangeQueryInfo \<Rightarrow> VersionedKV list \<Rightarrow> nat \<Rightarrow> bool" where
  "itr_at env itr info l n \<longleftrightarrow> riRecords itr \<and> rangeQueryInfo itr = Some info \<and> qReadsInfo info = None \<and>
     GetStateRangeScanIterator (simDb env) (riNs itr) (StartKey info) (riEndKey itr) = Inr l \<and>
     n \<le> length l \<and> riDbItr itr = drop n l \<and>
     (if ItrExhausted info then n = length l \<and> EndKey info = riEndKey itr
      else EndKey info = (if n = 0 then [] else vkKey (l ! (n - 1)))) \<and>
     (\<exists>h0 h. NewRangeQueryResultsHelper True GetMaxDegreeQueryReadsHashing = Inr h0 \<and>
        add_results (simHash env) (map read_of (take n l)) h0 = Some h \<and> rangeQueryResultsHelper itr = Some h)"

definition itr_ok :: "sim_env \<Rightarrow> resultsItr \<Rightarrow> bool" where
  "itr_ok env itr \<longleftrightarrow> (\<exists>info l n. itr_at env itr info l n)"

lemma itr_ok_new:
  assumes "newResultsItr env True ns s e None IsQueryReadsHashingEnabled GetMaxDegreeQueryReadsHashing = Inr itr"
  shows "itr_ok env itr"
proof -
  obtain l h0 where "GetStateRangeScanIterator (simDb env) ns s e = Inr l"
      "NewRangeQueryResultsHelper True GetMaxDegreeQueryReadsHashing = Inr h0"
      "itr = \<lparr>riNs = ns, riEndKey = e, riDbItr = l, riRecords = True,
              rangeQueryInfo = Some \<lparr>StartKey = s, EndKey = [], ItrExhausted = False, qReadsInfo = None\<rparr>,
              rangeQueryResultsHelper = Some h0\<rparr>"
    using assms by (auto simp: newResultsItr_def IsQueryReadsHashingEnabled_def)
  then have "itr_at env itr \<lparr>StartKey = s, EndKey = [], ItrExhausted = False, qReadsInfo = None\<rparr> l 0"
    by (simp add: itr_at_def)
  then show ?thesis unfolding itr_ok_def by blast
qed

lemma add_results_snoc:
  "add_results he (rs @ [r]) h0 = (case add_results he rs h0 of None \<Rightarrow> None | Some h \<Rightarrow> map_option snd (AddResult he r h))"
  by (induction rs arbitrary: h0) (auto split: option.split)

lemma itr_ok_next:
  assumes "itr_ok env itr"
  shows "itr_ok env (snd (resultsItr_Next (simHash env) itr))"
proof -
  obtain info l n where a: "itr_at env itr info l n" using assms unfolding itr_ok_def by blast
  obtain h0 h where h: "NewRangeQueryResultsHelper True GetMaxDegreeQueryReadsHashing = Inr h0"
      "add_results (simHash env) (map read_of (take n l)) h0 = Some h" "rangeQueryResultsHelper itr = Some h"
    using a unfolding itr_at_def by blast
  show ?thesis
  proof (cases "n = length l")
    case True
    then have "itr_at env (snd (resultsItr_Next (simHash env) itr)) (info\<lparr>ItrExhausted := True, EndKey := riEndKey itr\<rparr>) l n"
      using a by (auto simp: itr_at_def resultsItr_Next_def db_Next_def updateRangeQueryInfo_def bindS_def ret_def)
    then show ?thesis unfolding itr_ok_def by blast
  next
    case False
    then have n: "n < length l" "\<not> ItrExhausted info" using a by (auto simp: itr_at_def split: if_splits)
    have ri: "riRecords itr" "rangeQueryInfo itr = Some info" using a by (simp_all add: itr_at_def)
    have d: "riDbItr itr = l ! n # drop (Suc n) l" using a n(1) by (simp add: itr_at_def Cons_nth_drop_Suc)
    have "helper_wf h" using add_results_step [OF New_helper_wf(1) [OF h(1)]] h(2) by (metis option.inject)
    then obtain e h1 where r: "AddResult (simHash env) (read_of (l ! n)) h = Some (e, h1)" "e \<noteq> Some NilDeref"
      using AddResult_step by blast
    have ad: "add_results (simHash env) (map read_of (take (Suc n) l)) h0 = Some h1"
      using h(2) r(1) n(1) by (simp add: take_Suc_conv_app_nth add_results_snoc)
    have "e = None \<or> (\<exists>x. e = Some (Err x)) \<or> (\<exists>x. e = Some (Panic x))"
      using r(2) by (cases e) (auto, metis go_err.exhaust)
    then have "snd (resultsItr_Next (simHash env) itr) =
        itr\<lparr>riDbItr := drop (Suc n) l, rangeQueryResultsHelper := Some h1,
            rangeQueryInfo := Some (info\<lparr>EndKey := vkKey (l ! n)\<rparr>)\<rparr>"
      using ri h(3) r(1) d by (auto simp: resultsItr_Next_def db_Next_def updateRangeQueryInfo_def bindS_def ret_def)
    then have "itr_at env (snd (resultsItr_Next (simHash env) itr)) (info\<lparr>EndKey := vkKey (l ! n)\<rparr>) l (Suc n)"
      using a n h(1) ad by (simp add: itr_at_def)
    then show ?thesis unfolding itr_ok_def by blast
  qed
qed

text \<open>A scan that has returned something, or that has come to its end.\<close>

definition started :: "resultsItr \<Rightarrow> bool" where
  "started itr \<longleftrightarrow> (case rangeQueryInfo itr of None \<Rightarrow> False | Some info \<Rightarrow> ItrExhausted info \<or> EndKey info \<noteq> [])"

lemma record_info_valid:
  assumes env: "sim_db_ok env" and "itr_ok env itr" "started itr"
  shows "\<exists>itr1 rq. record_info (simHash env) itr = Inr itr1 \<and> rangeQueryInfo itr1 = Some rq \<and> riNs itr1 = riNs itr \<and>
    validateRangeQuery (simHash env) (simDb env) (riNs itr) rq NewUpdateBatch = Inr True"
proof -
  obtain info l n where a: "itr_at env itr info l n" using assms(2) unfolding itr_ok_def by blast
  obtain h0 h where h: "NewRangeQueryResultsHelper True GetMaxDegreeQueryReadsHashing = Inr h0"
      "add_results (simHash env) (map read_of (take n l)) h0 = Some h" "rangeQueryResultsHelper itr = Some h"
    using a unfolding itr_at_def by blast
  have ri: "rangeQueryInfo itr = Some info" "qReadsInfo info = None" "n \<le> length l"
      "GetStateRangeScanIterator (simDb env) (riNs itr) (StartKey info) (riEndKey itr) = Inr l"
    using a by (simp_all add: itr_at_def)
  have st: "ItrExhausted info \<or> EndKey info \<noteq> []" using assms(3) ri(1) by (simp add: started_def)
  have db: "db_ok (simDb env)" "total_env (simHash env)" "length l + 3 < 2 ^ 32"
    using env ri(4) unfolding sim_db_ok_def by blast+
  have "vvVersion (vkValue x) \<noteq> None" if "x \<in> set l" for x
    using scan_items(2) [OF db(1) ri(4)] that env unfolding sim_db_ok_def by blast
  then have ver: "list_all (\<lambda>x. vvVersion (vkValue x) \<noteq> None) (take n l)" unfolding list_all_iff by (meson in_set_takeD)
  have "map entry_of (take n l) =
      range_entries (simDb env) NewUpdateBatch (riNs itr) (StartKey info) (EndKey info) (\<not> ItrExhausted info)"
  proof (cases "ItrExhausted info")
    case True
    then show ?thesis using a scanned_all [OF db(1) ri(4)] by (simp add: itr_at_def)
  next
    case False
    then have n: "n \<noteq> 0" "vkKey (l ! (n - 1)) = EndKey info" using a st by (auto simp: itr_at_def split: if_splits)
    then show ?thesis
      using scanned_some [OF db(1) ri(4) _ n(2)] ri(3) st False by simp
  qed
  from recorded_valid [OF db(1,2) _ ver h(1,2) _ _ this ri(2) st] db(3) ri(3)
  obtain p hash where "Done (simHash env) h = Some (Inr (p, hash))"
    "validateRangeQuery (simHash env) (simDb env) (riNs itr)
      (let info1 = (if p \<noteq> [] then info\<lparr>qReadsInfo := Some (RawReads p)\<rparr> else info) in
       case hash of None \<Rightarrow> info1 | Some ms \<Rightarrow> info1\<lparr>qReadsInfo := Some (ReadsMerkleHashes ms)\<rparr>) NewUpdateBatch = Inr True"
    by (auto simp: GetMaxDegreeQueryReadsHashing_def)
  then show ?thesis
    using h(3) ri(1) by (simp add: record_info_def returned_def Let_def)
qed

subsection \<open>Read-write sets that are valid\<close>

text \<open>
  The reads that a builder holds are those of the database: the values of the reads that will be checked, the
  results of the range scans, and the versions of the hashed reads.
\<close>

definition coll_valid :: "sim_env \<Rightarrow> string \<Rightarrow> string \<Rightarrow> collHashRwBuilder \<Rightarrow> bool" where
  "coll_valid env ns c b \<longleftrightarrow> chCollName b = c \<and>
     (\<forall>k r. map_of (chReadMap b) k = Some r \<longrightarrow>
        GetKeyHashVersion (simDb env) ns c (rhKeyHash r) = Inr (NewVersion (rhVersion r)))"

definition ns_valid :: "sim_env \<Rightarrow> string \<Rightarrow> nsPubRwBuilder \<Rightarrow> bool" where
  "ns_valid env ns n \<longleftrightarrow> bNamespace n = ns \<and>
     (\<forall>k r. map_of (readMap n) k = Some r \<longrightarrow> IsRead r \<longrightarrow> validateKVRead (simDb env) ns r NewUpdateBatch = Inr True) \<and>
     (\<forall>q rq. rangeQueriesMap n q = Some rq \<longrightarrow> validateRangeQuery (simHash env) (simDb env) ns rq NewUpdateBatch = Inr True) \<and>
     set (rangeQueriesKeys n) \<subseteq> dom (rangeQueriesMap n) \<and> keyed (coll_valid env ns) (collHashRwBuilders n)"

abbreviation builder_valid :: "sim_env \<Rightarrow> RWSetBuilder \<Rightarrow> bool" where
  "builder_valid env b \<equiv> keyed (ns_valid env) (pubRwBuilderMap b)"

lemma builder_valid_upd:
  assumes "builder_valid env b" "\<And>n. ns_valid env ns n \<Longrightarrow> ns_valid env ns (f n)"
  shows "builder_valid env (getOrCreateNsPubRwBuilder ns f b)"
proof -
  have "ns_valid env ns (newNsPubRwBuilder ns)" by (simp add: ns_valid_def newNsPubRwBuilder_def)
  from keyed_upd_or [OF assms(1) this assms(2)] show ?thesis by (simp add: getOrCreateNsPubRwBuilder_def)
qed

lemma builder_valid_coll:
  assumes "builder_valid env b" "\<And>x. coll_valid env ns c x \<Longrightarrow> coll_valid env ns c (f x)"
  shows "builder_valid env (getOrCreateCollHashedRwBuilder ns c f b)"
proof -
  have "keyed (coll_valid env ns) m \<Longrightarrow> keyed (coll_valid env ns) (upd_or c (newCollHashRwBuilder c) f m)" for m
    using assms(2) by (intro keyed_upd_or) (auto simp: coll_valid_def newCollHashRwBuilder_def)
  then show ?thesis
    unfolding getOrCreateCollHashedRwBuilder_def by (intro builder_valid_upd [OF assms(1)]) (simp add: ns_valid_def)
qed

lemma builder_valid_pvt [simp]: "builder_valid env (getOrCreateCollPvtRwBuilder ns coll f b) = builder_valid env b"
  by (simp add: getOrCreateCollPvtRwBuilder_def getOrCreateNsPvtRwBuilder_def)

lemma builder_valid_writes:
  assumes "builder_valid env b"
  shows "builder_valid env (AddToWriteSet ns k w b)" "builder_valid env (AddToMetadataWriteSet ns k md b)"
    "builder_valid env (AddToWriteSetResult ns x b)" "builder_valid env (AddToPvtAndHashedWriteSet sha ns c k w b)"
    "builder_valid env (AddToHashedMetadataWriteSet sha ns c k md b)" "builder_valid env (setPvtCollectionHash sha ns c p b)"
  unfolding add_defs AddToPvtAndHashedWriteSet_def AddToHashedMetadataWriteSet_def setPvtCollectionHash_def Let_def
  using assms by (auto simp: ns_valid_def coll_valid_def split: prod.split intro!: builder_valid_upd builder_valid_coll)

lemma builder_valid_read:
  assumes "builder_valid env b"
  shows "builder_valid env (AddToReadSet ns k v b)"
  unfolding add_defs using assms
  by (intro builder_valid_upd) (auto simp: ns_valid_def NewKVRead_def)

lemma builder_valid_read_reported:
  assumes "builder_valid env b" "IsRead r \<Longrightarrow> validateKVRead (simDb env) ns r NewUpdateBatch = Inr True"
  shows "builder_valid env (AddToReadSetResult ns r b)"
  unfolding add_defs using assms
  by (intro builder_valid_upd) (auto simp: ns_valid_def)

lemma builder_valid_hashed_read:
  assumes "builder_valid env b" "GetKeyHashVersion (simDb env) ns c (sha k) = Inr v"
  shows "builder_valid env (AddToHashedReadSet sha ns c k v b)"
  unfolding AddToHashedReadSet_def
  by (intro builder_valid_coll [OF assms(1)]) (auto simp: coll_valid_def newPvtKVReadHash_def assms(2))

lemma builder_valid_range:
  assumes "builder_valid env b" "validateRangeQuery (simHash env) (simDb env) ns rq NewUpdateBatch = Inr True"
  shows "builder_valid env (AddToRangeQuerySet ns rq b)"
  unfolding add_defs Let_def using assms
  by (intro builder_valid_upd) (auto simp: ns_valid_def)

lemma record_infos_valid:
  assumes "sim_db_ok env"
  shows "list_all (itr_ok env) l \<Longrightarrow> list_all started l \<Longrightarrow> builder_valid env b \<Longrightarrow>
    \<exists>l1 b1. record_infos (simHash env) l b = (Inr (), l1, b1) \<and> builder_valid env b1"
proof (induction l arbitrary: b)
  case (Cons itr l)
  obtain itr1 rq where r: "record_info (simHash env) itr = Inr itr1" "rangeQueryInfo itr1 = Some rq" "riNs itr1 = riNs itr"
      "validateRangeQuery (simHash env) (simDb env) (riNs itr) rq NewUpdateBatch = Inr True"
    using record_info_valid [OF assms, of itr] Cons.prems by auto
  have "builder_valid env (AddToRangeQuerySet (riNs itr1) rq b)" using builder_valid_range Cons.prems(3) r(3,4) by simp
  then show ?case using Cons.IH Cons.prems r(1,2) by fastforce
qed simp

lemma set_build_reads: "r \<in> set (Reads (KvRwSet (nsPub_build n))) \<longleftrightarrow> (\<exists>k. map_of (readMap n) k = Some r)"
  by (simp add: nsPub_build_def set_values)

lemma ns_valid_validated:
  assumes "ns_valid env ns n"
  defines "u \<equiv> NewPubAndHashUpdates" and "x \<equiv> nsPub_build n"
  shows "validateReadSet (simDb env) (NameSpace x) (Reads (KvRwSet x)) (PubUpdates u) = Inr True"
    and "validateRangeQueries (simHash env) (simDb env) (NameSpace x) (RangeQueriesInfo (KvRwSet x)) (PubUpdates u) = Inr True"
    and "validateNsHashedReadSets (simDb env) (NameSpace x) (CollHashedRwSets x) (HashUpdates u) = Inr True"
proof -
  have x: "NameSpace x = ns" using assms(1) by (simp add: x_def nsPub_build_def ns_valid_def)
  show "validateReadSet (simDb env) (NameSpace x) (Reads (KvRwSet x)) (PubUpdates u) = Inr True"
    using assms(1) unfolding x by (auto simp: u_def NewPubAndHashUpdates_def validateReadSet_def x_def set_build_reads ns_valid_def)
  show "validateRangeQueries (simHash env) (simDb env) (NameSpace x) (RangeQueriesInfo (KvRwSet x)) (PubUpdates u) = Inr True"
    using assms(1) unfolding x
    by (auto simp: u_def NewPubAndHashUpdates_def validateRangeQueries_def x_def nsPub_build_def ns_valid_def)
  have "validateKVReadHash (simDb env) ns c r [] = Inr True" if "coll_valid env ns c b" "map_of (chReadMap b) k = Some r" for c b k r
    using that by (simp add: coll_valid_def validateKVReadHash_def um_Contains_def)
  then show "validateNsHashedReadSets (simDb env) (NameSpace x) (CollHashedRwSets x) (HashUpdates u) = Inr True"
    using assms(1) unfolding x
    by (fastforce simp: u_def NewPubAndHashUpdates_def validateNsHashedReadSets_def validateCollHashedReadSet_def x_def
        nsPub_build_def ns_valid_def collHash_build_def set_values keyed_def coll_valid_def)
qed

lemma builder_valid_validated:
  assumes "builder_valid env b"
  shows "validateTx (simHash env) (simDb env) (Some (GetTxReadWriteSet b)) NewPubAndHashUpdates = Inr VALID"
proof -
  have "validate_ns (simHash env) (simDb env) NewPubAndHashUpdates (map nsPub_build l) = Inr VALID"
    if "\<forall>n\<in>set l. \<exists>ns. ns_valid env ns n" for l
    using that
  proof (induction l)
    case (Cons n l)
    obtain ns where "ns_valid env ns n" using Cons.prems by auto
    from ns_valid_validated [OF this] show ?case using Cons by simp
  qed simp
  moreover have "\<forall>n\<in>set (GetValuesBySortedKeys (pubRwBuilderMap b)). \<exists>ns. ns_valid env ns n"
    using assms by (metis keyed_def set_values)
  ultimately show ?thesis by (simp add: validateTx_def GetTxReadWriteSet_def)
qed

subsection \<open>Simulations keep it\<close>

definition helper_valid :: "sim_env \<Rightarrow> queryHelper \<Rightarrow> bool" where
  "helper_valid env h \<longleftrightarrow> (\<exists>b. rwsetBuilder h = Some b \<and> builder_valid env b) \<and> list_all (itr_ok env) (itrs h)"

text \<open>A reported read that will be checked has the value of the database.\<close>

definition true_read :: "sim_env \<Rightarrow> string \<Rightarrow> KVRead \<Rightarrow> bool" where
  "true_read env ns r \<longleftrightarrow> (IsRead r \<longrightarrow> rValue r = committed (simDb env) ns (rKey r))"

lemma true_read_validated:
  assumes "db_ok (simDb env)" "true_read env ns r" "IsRead r"
  shows "validateKVRead (simDb env) ns r NewUpdateBatch = Inr True"
proof -
  obtain x where "GetState (simDb env) ns (rKey r) = Inr x" using assms(1) unfolding db_ok_def by blast
  then obtain b where b: "validateKVRead (simDb env) ns r NewUpdateBatch = Inr b"
    by (cases x) (auto simp: validateKVRead_def ub_Exists_Get ub_Get_New)
  have "PubUpdates NewPubAndHashUpdates = NewUpdateBatch" by (simp add: NewPubAndHashUpdates_def)
  from validateKVRead_vals(2) [OF assms(1), of ns r NewPubAndHashUpdates, unfolded this, OF b]
  show ?thesis using b assms(2,3) by (simp add: vals_New [OF assms(1)] true_read_def)
qed

lemma helper_valid_recorded:
  "helper_valid env h \<Longrightarrow> (\<And>b. builder_valid env b \<Longrightarrow> builder_valid env (f b)) \<Longrightarrow> helper_valid env (recorded f h)"
  unfolding helper_valid_def recorded_def by fastforce

lemma helper_valid_hashed:
  assumes "helper_valid env h" "GetKeyHashVersion (simDb env) ns c (sha256 env k) = Inr v"
  shows "helper_valid env (recorded (AddToHashedReadSet (sha256 env) ns c k v) h)"
  by (rule helper_valid_recorded [OF assms(1)]) (rule builder_valid_hashed_read [where sha = "sha256 env" and k = k, OF _ assms(2)])

lemma helper_valid_itrs:
  assumes "helper_valid env h"
  shows "newResultsItr env (rwsetBuilder h \<noteq> None) ns s e None IsQueryReadsHashingEnabled GetMaxDegreeQueryReadsHashing = Inr itr \<Longrightarrow>
      helper_valid env (h\<lparr>itrs := itrs h @ [itr]\<rparr>)"
    and "i < length (itrs h) \<Longrightarrow>
      helper_valid env (h\<lparr>itrs := (itrs h)[i := snd (resultsItr_Next (simHash env) (itrs h ! i))]\<rparr>)"
proof -
  assume "newResultsItr env (rwsetBuilder h \<noteq> None) ns s e None IsQueryReadsHashingEnabled GetMaxDegreeQueryReadsHashing = Inr itr"
  moreover have "rwsetBuilder h \<noteq> None" using assms by (auto simp: helper_valid_def)
  ultimately have "itr_ok env itr" by (simp add: itr_ok_new)
  then show "helper_valid env (h\<lparr>itrs := itrs h @ [itr]\<rparr>)" using assms by (simp add: helper_valid_def)
next
  assume i: "i < length (itrs h)"
  then have "itr_ok env (itrs h ! i)" using assms by (simp add: helper_valid_def list_all_length)
  from itr_ok_next [OF this]
  show "helper_valid env (h\<lparr>itrs := (itrs h)[i := snd (resultsItr_Next (simHash env) (itrs h ! i))]\<rparr>)"
    using assms i by (auto simp: helper_valid_def list_all_length nth_list_update)
qed

lemma helper_valid_flags [simp]:
  "helper_valid env (h\<lparr>collCache := cc\<rparr>) = helper_valid env h"
  "helper_valid env (h\<lparr>doneInvoked := d\<rparr>) = helper_valid env h"
  by (simp_all add: helper_valid_def)

interpretation valid_sim: simulator_inv env "\<lambda>h. sim_db_ok env \<longrightarrow> helper_valid env h" "true_read env" for env
proof (unfold_locales, goal_cases)
  case (2 ns c k v h)
  then show ?case by (simp add: helper_valid_hashed)
next
  case (3 ns c k vv h)
  then have "sim_db_ok env \<Longrightarrow>
      GetKeyHashVersion (simDb env) ns c (sha256 env k) = Inr (snd (snd (decomposeVersionedValue vv)))"
    unfolding sim_db_ok_def by blast
  then show ?case using 3(2) by (auto intro: helper_valid_hashed)
next
  case (12 ns r h)
  then show ?case
    by (auto simp: sim_db_ok_def intro!: helper_valid_recorded builder_valid_read_reported true_read_validated)
qed (auto intro: helper_valid_itrs intro!: helper_valid_recorded builder_valid_read builder_valid_writes)

lemma helper_valid_new: "helper_valid env (simHelper (newLockBasedTxSimulator txid))"
  by (simp add: helper_valid_def newLockBasedTxSimulator_def newQueryHelper_def NewRWSetBuilder_def)

lemma pvt_hashes_valid:
  "builder_valid env b \<Longrightarrow> builder_valid env (fold (\<lambda>n. fold (\<lambda>c. setPvtCollectionHash sha (f n) (g c) (p c)) (cs n)) l b)"
proof (induction l arbitrary: b)
  case (Cons n l)
  have "builder_valid env b \<Longrightarrow> builder_valid env (fold (\<lambda>c. setPvtCollectionHash sha (f n) (g c) (p c)) xs b)" for xs b
    by (induction xs arbitrary: b) (simp_all add: builder_valid_writes)
  then show ?case using Cons by simp
qed simp

lemma results_valid:
  assumes "builder_valid env b" "GetTxSimulationResults cd sha b = Inr ((pub, pvt), b1)"
  shows "builder_valid env b1 \<and> tx_toProtoMsg cd (GetTxReadWriteSet b1) = Some pub"
  using assms
  by (auto simp: GetTxSimulationResults_def of_option_def pvt_hashes_valid split: option.splits)


subsection \<open>Reads that are not checked\<close>

text \<open>
  The keys of \<open>K\<close> have been read, and no read of the builder is marked to be checked.
\<close>

definition ns_unmarked :: "string \<Rightarrow> nsPubRwBuilder \<Rightarrow> bool" where
  "ns_unmarked ns n \<longleftrightarrow> bNamespace n = ns \<and> (\<forall>k r. map_of (readMap n) k = Some r \<longrightarrow> \<not> IsRead r)"

definition builder_unmarked :: "(string \<times> string) set \<Rightarrow> RWSetBuilder \<Rightarrow> bool" where
  "builder_unmarked K b \<longleftrightarrow> keyed ns_unmarked (pubRwBuilderMap b) \<and>
     (\<forall>ns k. (ns, k) \<in> K \<longrightarrow> map_of (readMap (ns_of b ns)) k \<noteq> None)"

definition unmarked :: "(string \<times> string) set \<Rightarrow> queryHelper \<Rightarrow> bool" where
  "unmarked K h \<longleftrightarrow> (\<exists>b. rwsetBuilder h = Some b \<and> builder_unmarked K b)"

lemma builder_unmarked_upd:
  assumes "builder_unmarked K b" "\<And>n. ns_unmarked ns n \<Longrightarrow> (\<And>k. (ns, k) \<in> K \<Longrightarrow> map_of (readMap n) k \<noteq> None) \<Longrightarrow>
      ns_unmarked ns (f n) \<and> dom (map_of (readMap n)) \<subseteq> dom (map_of (readMap (f n)))"
  shows "builder_unmarked K (getOrCreateNsPubRwBuilder ns f b)"
proof -
  have b: "keyed ns_unmarked (pubRwBuilderMap b)" "\<And>n k. (n, k) \<in> K \<Longrightarrow> map_of (readMap (ns_of b n)) k \<noteq> None"
    using assms(1) unfolding builder_unmarked_def by blast+
  have new: "ns_unmarked ns (ns_of b ns)"
    using b(1) by (auto simp: get_or_def keyed_def ns_unmarked_def newNsPubRwBuilder_def split: option.split)
  have f: "ns_unmarked ns (f (ns_of b ns))" "dom (map_of (readMap (ns_of b ns))) \<subseteq> dom (map_of (readMap (f (ns_of b ns))))"
    using assms(2) [OF new b(2)] by blast+
  have "keyed ns_unmarked (pubRwBuilderMap (getOrCreateNsPubRwBuilder ns f b))"
    using b(1) f(1) by (simp add: getOrCreateNsPubRwBuilder_def upd_or_def keyed_put)
  moreover have "map_of (readMap (ns_of (getOrCreateNsPubRwBuilder ns f b) n)) k \<noteq> None" if "(n, k) \<in> K" for n k
  proof (cases "ns = n")
    case True
    have "k \<in> dom (map_of (readMap (ns_of b ns)))" using b(2) that True by blast
    then have "k \<in> dom (map_of (readMap (f (ns_of b ns))))" using f(2) by blast
    then show ?thesis unfolding get_or_upd using True by auto
  next
    case False
    then show ?thesis unfolding get_or_upd using b(2) [OF that] by simp
  qed
  ultimately show ?thesis unfolding builder_unmarked_def by blast
qed

lemma builder_unmarked_other:
  assumes "builder_unmarked K b" "\<And>n. readMap (f n) = readMap n \<and> bNamespace (f n) = bNamespace n"
  shows "builder_unmarked K (getOrCreateNsPubRwBuilder ns f b)"
  by (rule builder_unmarked_upd [OF assms(1)]) (simp add: ns_unmarked_def assms(2))

lemma builder_unmarked_pvt [simp]: "builder_unmarked K (getOrCreateCollPvtRwBuilder ns c f b) = builder_unmarked K b"
  by (simp add: builder_unmarked_def getOrCreateCollPvtRwBuilder_def getOrCreateNsPvtRwBuilder_def)

lemma builder_unmarked_writes:
  assumes "builder_unmarked K b"
  shows "builder_unmarked K (AddToWriteSet ns k w b)" "builder_unmarked K (AddToMetadataWriteSet ns k md b)"
    "builder_unmarked K (AddToWriteSetResult ns x b)" "builder_unmarked K (AddToPvtAndHashedWriteSet sha ns c k w b)"
    "builder_unmarked K (AddToHashedMetadataWriteSet sha ns c k md b)" "builder_unmarked K (AddToHashedReadSet sha ns c k v b)"
  unfolding add_defs AddToPvtAndHashedWriteSet_def AddToHashedMetadataWriteSet_def AddToHashedReadSet_def
    getOrCreateCollHashedRwBuilder_def Let_def
  using assms by (auto split: prod.split intro!: builder_unmarked_other)

lemma builder_unmarked_reads:
  assumes "builder_unmarked K b"
  shows "builder_unmarked K (AddToReadSet ns k v b)" "(ns, rKey r) \<in> K \<Longrightarrow> builder_unmarked K (AddToReadSetResult ns r b)"
  unfolding add_defs
  by (rule builder_unmarked_upd [OF assms], force simp: ns_unmarked_def NewKVRead_def)+

lemma unmarked_recorded:
  "unmarked K h \<Longrightarrow> (\<And>b. builder_unmarked K b \<Longrightarrow> builder_unmarked K (f b)) \<Longrightarrow> unmarked K (recorded f h)"
  unfolding unmarked_def recorded_def by fastforce

lemma unmarked_same [simp]:
  "unmarked K (h\<lparr>collCache := cc\<rparr>) = unmarked K h" "unmarked K (h\<lparr>doneInvoked := d\<rparr>) = unmarked K h"
  "unmarked K (h\<lparr>itrs := l\<rparr>) = unmarked K h"
  by (simp_all add: unmarked_def)

interpretation unmarked_sim: simulator_inv env "unmarked K" "\<lambda>ns r. (ns, rKey r) \<in> K" for env K
  by unfold_locales (auto intro!: unmarked_recorded builder_unmarked_writes builder_unmarked_reads)

lemma getState_unmarked:
  assumes "unmarked K h" "\<not> doneInvoked h" "db_ok (simDb env)"
  shows "unmarked (insert (ns, k) K) (snd (getState env ns k h)) \<and> \<not> doneInvoked (snd (getState env ns k h))"
proof -
  obtain vv where vv: "GetState (simDb env) ns k = Inr vv" using assms(3) unfolding db_ok_def by blast
  obtain val md v where d: "decomposeVersionedValue vv = (val, md, v)" by (cases "decomposeVersionedValue vv")
  have s: "snd (getState env ns k h) = recorded (AddToReadSet ns k v) h"
    using vv assms(2) d by (simp add: getState_def bindS_def checkDone_def lift_def modify_def ret_def)
  obtain b where b: "rwsetBuilder h = Some b" "builder_unmarked K b" using assms(1) unfolding unmarked_def by blast
  have "map_of (readMap (ns_of (AddToReadSet ns k v b) ns)) k \<noteq> None" by (simp add: AddToReadSet_def get_or_upd)
  then have "builder_unmarked (insert (ns, k) K) (AddToReadSet ns k v b)"
    using builder_unmarked_reads(1) [OF b(2), of ns k v] by (auto simp: builder_unmarked_def)
  then show ?thesis using s b(1) assms(2) by (simp add: unmarked_def recorded_def)
qed

lemma reads_unmarked:
  assumes "db_ok (simDb env)"
  shows "unmarked K (simHelper s) \<Longrightarrow> \<not> doneInvoked (simHelper s) \<Longrightarrow>
    unmarked (set l \<union> K) (simHelper (sim_run env (map (\<lambda>(ns, k). ReadState ns k) l) s))"
proof (induction l arbitrary: K s)
  case (Cons x l)
  obtain ns k where x: "x = (ns, k)" by (cases x)
  have st: "simHelper (snd (sim_step env (ReadState ns k) s)) = snd (getState env ns k (simHelper s))"
    by (auto simp: query_def bindS_def ret_def split: prod.split sum.split)
  have "unmarked (insert (ns, k) K) (simHelper (snd (sim_step env (ReadState ns k) s)))"
      "\<not> doneInvoked (simHelper (snd (sim_step env (ReadState ns k) s)))"
    using getState_unmarked [OF Cons.prems assms, of ns k] unfolding st by blast+
  from Cons.IH [OF this] show ?case by (simp add: x sim_run_def Un_commute insert_commute)
qed (simp add: sim_run_def)

text \<open>C40. A read that the peer has made is never checked, although the chaincode reports it as a read to be checked: the
  record of the peer is kept, and it is not marked. If the keys that are reported have all been read through the
  peer before, the validation accepts the reads whatever the state is.\<close>

theorem peer_reads_not_checked:
  fixes env K ops txid
  defines "s \<equiv> sim_run env (map (\<lambda>(ns, k). ReadState ns k) K @ ops) (newLockBasedTxSimulator txid)"
  assumes "db_ok (simDb env)" "list_all (within (\<lambda>ns r. (ns, rKey r) \<in> set K)) ops"
    "rwsetBuilder (simHelper s) = Some b" "n \<in> set (NsRwSets (GetTxReadWriteSet b))"
  shows "validateReadSet db (NameSpace n) (Reads (KvRwSet n)) u = Inr True"
proof -
  have "unmarked {} (simHelper (newLockBasedTxSimulator txid))" "\<not> doneInvoked (simHelper (newLockBasedTxSimulator txid))"
    by (simp_all add: unmarked_def builder_unmarked_def newLockBasedTxSimulator_def newQueryHelper_def NewRWSetBuilder_def)
  from reads_unmarked [OF assms(2) this, of K]
  have "unmarked (set K) (simHelper s)"
    using unmarked_sim.sim_run_keeps [OF assms(3)] by (simp add: s_def sim_run_def)
  then have "keyed ns_unmarked (pubRwBuilderMap b)" using assms(4) by (auto simp: unmarked_def builder_unmarked_def)
  then obtain m where m: "n = nsPub_build m" "ns_unmarked (bNamespace m) m"
    using assms(5) by (auto simp: GetTxReadWriteSet_def set_values keyed_def ns_unmarked_def)
  then show ?thesis by (auto simp: validateReadSet_def set_build_reads ns_unmarked_def)
qed

subsection \<open>A concrete simulation\<close>

definition ex_sim_codec :: codec where
  "ex_sim_codec =
     \<lparr>unmarshalPayload = (\<lambda>_. None), unmarshalTransaction = (\<lambda>_. None), unmarshalChaincodeActionPayload = (\<lambda>_. None),
      unmarshalProposalResponsePayload = (\<lambda>_. None), unmarshalChaincodeAction = (\<lambda>_. None),
      unmarshalChannelHeader = (\<lambda>_. None), unmarshalTxReadWriteSet = (\<lambda>_. None), unmarshalTxPvtReadWriteSet = (\<lambda>_. None),
      unmarshalKVRWSet = (\<lambda>_. None), unmarshalHashedRWSet = (\<lambda>_. None), marshalTxReadWriteSet = (\<lambda>_. None),
      marshalTxPvtReadWriteSet = (\<lambda>_. None),
      marshalKVRWSet = (\<lambda>kv. Some (concat (map rKey (Reads kv)) @ concat (map wKey (Writes kv)))),
      marshalHashedRWSet = (\<lambda>_. Some [])\<rparr>"

definition ex_sim_env :: sim_env where
  "ex_sim_env =
     \<lparr>simDb = table_db ex_table, GetStateMultipleKeys = (\<lambda>_ _. Inr []), GetStateRangeScanIteratorWithMetadata = (\<lambda>_ _ _ _. Inr []),
      ExecuteQuery = (\<lambda>_ _. Inr []), ExecuteQueryWithMetadata = (\<lambda>_ _ _. Inr []), GetPrivateData = (\<lambda>_ _ _. Inr None),
      GetPrivateDataMultipleKeys = (\<lambda>_ _ _. Inr []), GetPrivateDataRangeScanIterator = (\<lambda>_ _ _ _. Inr []),
      ExecuteQueryOnPrivateData = (\<lambda>_ _ _. Inr []), ValidateKeyValue = (\<lambda>_ _. Inr ()), simHash = ex_hash_env,
      sha256 = id, simCodec = ex_sim_codec, unmarshalMetadata = (\<lambda>_. None), unmarshalChaincodeData = (\<lambda>_. None),
      unmarshalCollectionConfigPackage = (\<lambda>_. None)\<rparr>"

lemma ex_sim_env_ok: "sim_db_ok ex_sim_env"
proof -
  have f: "find P ex_table = Some x \<Longrightarrow> vvVersion (vkValue x) \<noteq> None" for P x
    by (auto simp: ex_table_def ex_entry_def split: if_splits)
  have "length (filter P ex_table) + 3 < 2 ^ 32" for P
    using length_filter_le [of P ex_table] by (simp add: ex_table_def)
  then show ?thesis
    using ex_table_ok ex_hash_env_total f
    by (auto simp: sim_db_ok_def ex_sim_env_def table_db_def decomposeVersionedValue_def)
qed

text \<open>The read of a key, a scan of a range up to its end, the report of a read, and a write.\<close>

definition ex_report :: BuildRwset where
  "ex_report = \<lparr>ReadSet = [ex_read ''b'' (Some ''v'')], WriteSet = [], brTxnCount = 1\<rparr>"

definition ex_ops :: "sim_op list" where
  "ex_ops = [ReadState ''ns'' ''a'', ScanRange ''ns'' [] [], NextOf 0, NextOf 0, NextOf 0, Report ''ns'' ex_report,
     WriteState ''ns'' ''a'' (Some ''w'')]"

definition ex_sim :: lockBasedTxSimulator where
  "ex_sim = sim_run ex_sim_env ex_ops (newLockBasedTxSimulator ''tx'')"

definition ex_pub :: TxReadWriteSet where
  "ex_pub = \<lparr>DataModel = 0, NsRwset = [\<lparr>nsNamespace = ''ns'', nsRwset = ''aba'', CollectionHashedRwset = []\<rparr>]\<rparr>"

lemma ex_sim_results: "fst (sim_GetTxSimulationResults ex_sim_env ex_sim) = Inr (ex_pub, None)"
  by code_simp

lemma ex_sim_started: "list_all started (itrs (simHelper ex_sim))"
  by code_simp

lemma ex_ops_within: "list_all (within (true_read ex_sim_env)) ex_ops"
  by (simp add: ex_ops_def ex_report_def ex_read_def true_read_def committed_def ex_sim_env_def table_db_def ex_table_def ex_entry_def)


text \<open>The same report after the key has been read through the peer; in the other state the key has another value.\<close>

definition ex_read_ops :: "sim_op list" where
  "ex_read_ops = [Report ''ns'' ex_report]"

theorem peer_reads_not_checked_witness:
  "\<exists>b n. rwsetBuilder (simHelper (sim_run ex_sim_env (map (\<lambda>(ns, k). ReadState ns k) [(''ns'', ''b'')] @ ex_read_ops)
       (newLockBasedTxSimulator ''tx''))) = Some b \<and>
     n \<in> set (NsRwSets (GetTxReadWriteSet b)) \<and> map rKey (Reads (KvRwSet n)) = [''b''] \<and>
     validateKVRead (table_db []) ''ns'' (ex_read ''b'' (Some ''v'')) NewUpdateBatch = Inr False \<and>
     validateReadSet (table_db []) (NameSpace n) (Reads (KvRwSet n)) NewUpdateBatch = Inr True"
proof -
  let ?s = "sim_run ex_sim_env (map (\<lambda>(ns, k). ReadState ns k) [(''ns'', ''b'')] @ ex_read_ops) (newLockBasedTxSimulator ''tx'')"
  let ?n = "\<lparr>NameSpace = ''ns'', KvRwSet = \<lparr>Reads = [NewKVRead ''b'' (Some (NewHeight 1 0))], RangeQueriesInfo = [],
     Writes = [], MetadataWrites = []\<rparr>, CollHashedRwSets = []\<rparr>"
  have "map_option (\<lambda>b. NsRwSets (GetTxReadWriteSet b)) (rwsetBuilder (simHelper ?s)) = Some [?n]" by code_simp
  then obtain b where b: "rwsetBuilder (simHelper ?s) = Some b" "?n \<in> set (NsRwSets (GetTxReadWriteSet b))" by auto
  have w: "list_all (within (\<lambda>ns r. (ns, rKey r) \<in> set [(''ns'', ''b'')])) ex_read_ops" by code_simp
  have db: "db_ok (simDb ex_sim_env)" using ex_sim_env_ok by (simp add: sim_db_ok_def)
  have "validateKVRead (table_db []) ''ns'' (ex_read ''b'' (Some ''v'')) NewUpdateBatch = Inr False" by code_simp
  then show ?thesis
    using b peer_reads_not_checked [OF db w b, of "table_db []" NewUpdateBatch]
    by (intro exI [of _ b] exI [of _ ?n] conjI) (simp_all add: NewKVRead_def)
qed

end
