(* ===== verification/Spec2Isabelle.thy ===== *)
theory Spec2Isabelle
  imports CE_Runs RaftEviction RaftFlow SimulatedTx
begin

text \<open>
  A verification development for POBL (\<open>src/pobl\<close>), a fork of Hyperledger Fabric 1.4 in which the orderer
  puts transactions into a graph of their data dependencies before it cuts them into blocks, and in which
  the peers validate reads by value.

  \<^bold>\<open>The parts of the program and how they interact.\<close> A peer simulates a transaction (\<open>lockbasedtxmgr\<close>): the reads are
  answered from the state and recorded, the writes are collected, and the builder (\<open>rwset_builder.go\<close>) makes a
  read-write set of both. A client's envelope with that set reaches an orderer. The Raft chain
  (\<open>orderer/consensus/etcdraft/chain.go\<close>) hands it to the block cutter
  (\<open>orderer/common/blockcutter/blockcutter.go\<close>), whose goroutine decodes its read-write set
  (\<open>orderer/common/partialorder/choosednode.go\<close>, \<open>rwsetutil/rwset_proto_util.go\<close>) and inserts it into the conflict
  graph. What the graph commits is cut into batches, which a leader wraps into blocks and proposes to Raft.
  Every node applies the committed entries and writes the blocks to its ledger; configuration blocks change
  the membership of the cluster (\<open>etcdraft/util.go\<close>). On a peer the state-based validator
  (\<open>validator/statebasedval\<close>) checks the transactions of a block one after the other against the state that
  the valid ones before them leave, and collects the updates (\<open>validator/internal\<close>, \<open>statedb\<close>,
  \<open>privacyenabledstate\<close>), with heights as versions (\<open>version\<close>).

  \<^bold>\<open>The theories.\<close>
  \<^item> \<open>Go_Prelude\<close>: the types of the Go runtime, maps as association lists, failures as a sum type, loops, and the
    lemmas about them that the other theories share.
  \<^item> \<open>Rwset\<close>: the messages of a read-write set, the conversions of \<open>rwset_proto_util.go\<close>, and the path from an
    envelope to the results of its first action (\<open>protos/utils\<close>). Converting to messages and back is the identity.
  \<^item> \<open>PartialOrder\<close>: the nodes of the conflict graph and \<open>ProcessEnvForBC\<close>.
  \<^item> \<open>CE_Graph\<close>: \<open>ProcessTX\<close> and \<open>Delete\<close>, over an explicit store of nodes and of slices that nodes share.
    \<open>CE_Invariant\<close>: the invariant of the graph, kept by \<open>ProcessTX\<close>. \<open>CE_Log\<close>: what the two append to the batch.
    \<open>CE_Order\<close>, \<open>CE_Linking\<close>: the invariant behind the order of commits, for \<open>Delete\<close> and for \<open>ProcessTX\<close>.
    \<open>CE_Runs\<close>: the runs of the graph as an inductive relation, and that no accepted transaction comes before a
    transaction that it read from.
  \<^item> \<open>BlockCutter\<close>: the receiver (\<open>Ordered\<close>, \<open>OrderedRaft\<close>, \<open>OrderedRaftForBC\<close>, \<open>Cut\<close>, \<open>ProcessEnvMsg\<close>). The locale
    \<open>batch_cutter\<close> is the contract of a cutter, interpreted for both ways into the graph: every run returns, the
    batches are a duplicate-free selection of what arrived, and replaying them gives the state of the graph.
    \<open>Example_Txs\<close>: concrete transactions.
  \<^item> \<open>Blocks\<close>: headers, their chain of hashes, block data and metadata (\<open>protos/common\<close>, \<open>protos/utils\<close>,
    \<open>blockcreator.go\<close>).
  \<^item> \<open>RaftMembership\<close>: consenters, changes of the membership and their validation. \<open>RaftEviction\<close>: the suspicion of
    having been evicted, with the pull of the last configuration block (\<open>cluster/replication.go\<close>).
  \<^item> \<open>RaftChain\<close>: the state of a node and the handlers of the event loop \<open>serveRequest\<close>, one definition for each
    case. \<open>RaftLedger\<close>: the steps of a node as an inductive relation that interleaves the event loop, the proposing
    goroutine and the cutter, and that the ledger has no gap and no repetition on any run. \<open>RaftFlow\<close>: why
    submissions are closed, that they open again, and the chain of the proposed blocks.
  \<^item> \<open>Versions\<close>: heights and the order-preserving encoding of numbers: the round trip, and that bytes are ordered
    as heights are.
  \<^item> \<open>StateDB\<close>: update batches and the iterator over a range of one. The locale \<open>update_batch\<close> is the contract of
    a batch, interpreted for public and for hashed updates.
  \<^item> \<open>RangeQuery\<close>: the iterator that merges the database with the updates, and the comparison of raw results.
    \<open>Merkle\<close>: the tree over the results of a query and the validation against its summary.
  \<^item> \<open>TxOps\<close>: the operations of a transaction on keys and \<open>ApplyWriteSet\<close>. \<open>StateValidator\<close>: the validation of a
    block. The valid transactions of a block are a serial execution by value, and range queries have no
    phantoms.
  \<^item> \<open>Builder\<close>: the builder of a read-write set; what it builds is sorted and has one write for a key.
    \<open>QueryHelper\<close>: the reads and iterators of a simulation, with the check of collection names; the locale \<open>recorder\<close>
    says what an invariant has to survive to be kept by every read. \<open>Simulator\<close>: the operations of
    \<open>lockBasedTxSimulator\<close>; the locale \<open>simulator_inv\<close> extends \<open>recorder\<close> to whole simulations. \<open>SimulatedTx\<close>: two
    interpretations of it, for the records that the validator will accept and for the reads that it does not
    look at; a transaction is valid in the state in which it was simulated.

  \<^bold>\<open>Correspondence.\<close> A Go struct is a record with the fields of the source, prefixed where two structs share a
  field name. A pointer that may be nil is an option, or an index into a store where the code shares it. A map
  that the code ranges over is an association list, so that every order of iteration is covered; a map that is
  only indexed is a HOL map. A function that may panic or return an error has the type \<open>'a go\<close>. Numbers keep
  their width where the code compares or adds them. Handlers keep the order of the statements of the source.

  \<^bold>\<open>Parameters.\<close> Protobuf and ASN.1 encodings, SHA-256, PEM and X.509 parsing, etcd's Raft, the ledger and block
  pullers, and the state database are arguments: the records \<open>codec\<close>, \<open>block_codec\<close>, \<open>raft_codec\<close>, \<open>chain_env\<close>,
  \<open>hash_env\<close>, \<open>val_env\<close>, \<open>sim_env\<close> and \<open>state_db\<close>. What a theorem needs of them is a hypothesis, with a witness in which
  it holds for concrete functions: for the database \<open>db_ok\<close> (lookups succeed, scans are sorted and agree with
  lookups) and \<open>sim_db_ok\<close>, for the header hash that it has no collisions, and for encodings that decoding inverts them.

  \<^bold>\<open>Bounds and fuel.\<close> The recursion of \<open>Delete\<close> has fuel; \<open>cascade_bound\<close> plus one is enough, because every call
  settles an edge of the graph, and the runs use that amount. The loops of the Merkle tree and of its validation
  are partial functions into options; they are shown to return. A level of the tree is a natural number, which
  is below the number of results plus three. Everything else is total by a measure or by structural recursion.

  \<^bold>\<open>Failures that the theorems state.\<close> Some of the theorems show what the code does where it does not do what it
  means to: rejected transactions that are committed later, messages that \<open>Ordered\<close> drops, batches above the
  limit, nil pointers on malformed envelopes and on batches cut before a loss of leadership, an index out of
  range and a nil helper in the validation of range queries, a panic on a metadata write after a deletion, the
  loss of the writes of a transaction that is marked as valid, and reads of a simulation that are never checked.

  \<^bold>\<open>Not modelled.\<close> Of the chain: the voting of \<open>GVConsensus\<close>, which no active code calls; timers, metrics and the
  transport, which are arguments or effects here. Of the ledger: the databases behind \<open>state_db\<close> (goleveldb and
  CouchDB calls), the locks and goroutines of the transaction manager, block storage, private data storage and
  history, which are mostly input and output; of the simulator, the bookmarks of paginated queries and the closing
  of iterators. The other consenters (\<open>solo\<close>, \<open>kafka\<close>, \<open>local\<close>, \<open>inactive\<close>), the message streams between peer and
  chaincode, gossip, endorsement, the membership service, command line tools and vendored packages are services
  around the modelled parts.
\<close>

end
